(* ===== verification/Prelude.thy ===== *)
theory Prelude imports Main "HOL-Library.Word" begin

text \<open>
  What the components share: C failures as values of a sum, sequencing of operations that may
  fail, signed 32-bit arithmetic, the interface of a one-way channel (a writer, a reader, and the point
  where the direction turns) that the bit stream and the colour stream both implement, and the
  interface of a state machine whose blocks have finalisers, which the bindings of zlib, PCRE2 and
  mbedtls implement.
\<close>

unbundle bit_operations_syntax

section \<open>Failures of C code\<close>

text \<open>
  \<open>Abort m\<close> is the program's own ASSERT or ABORT macro (it prints and calls exit(1)), \<open>Undef m\<close> an
  action the C standard leaves undefined (a null or out-of-range access, a division by zero) and
  \<open>Fuel\<close> marks a recursion whose bound was too small; every theorem about the code shows that the
  bound it uses is enough.
\<close>

datatype c_fault = Abort string | Undef string | Fuel

definition rbind :: "'e + 'a \<Rightarrow> ('a \<Rightarrow> 'e + 'b) \<Rightarrow> 'e + 'b" where
  "rbind r f = (case r of Inl e \<Rightarrow> Inl e | Inr x \<Rightarrow> f x)"

lemma rbind_simps [simp]:
  "rbind (Inl e) f = Inl e"
  "rbind (Inr x) f = f x"
  by (simp_all add: rbind_def)

lemma rbind_cong [fundef_cong]:
  "r = r' \<Longrightarrow> (\<And>x. r' = Inr x \<Longrightarrow> f x = g x) \<Longrightarrow> rbind r f = rbind r' g"
  by (cases r') auto

lemma rbind_Inr_iff: "rbind r f = Inr y \<longleftrightarrow> (\<exists>x. r = Inr x \<and> f x = Inr y)"
  by (cases r) auto

lemma rbind_InrE:
  assumes "rbind r f = Inr y"
  obtains x where "r = Inr x" and "f x = Inr y"
  using assms by (auto simp: rbind_Inr_iff)

lemma rbind_Inr_right [simp]: "rbind r Inr = r"
  by (cases r) auto

lemma rbind_assoc: "rbind (rbind r f) g = rbind r (\<lambda>x. rbind (f x) g)"
  by (cases r) auto

section \<open>Text up to a terminator\<close>

lemma takeWhile_until [simp]: "x \<notin> set s \<Longrightarrow> takeWhile (\<lambda>c. c \<noteq> x) (s @ x # t) = s"
  by (induction s) auto

lemma dropWhile_until [simp]: "x \<notin> set s \<Longrightarrow> dropWhile (\<lambda>c. c \<noteq> x) (s @ x # t) = x # t"
  by (induction s) auto

lemma takeWhile_absent [simp]: "x \<notin> set s \<Longrightarrow> takeWhile (\<lambda>c. c \<noteq> x) s = s"
  by (induction s) auto

section \<open>Signed 32-bit arithmetic\<close>

text \<open>The value of a C \<open>int\<close> after two's complement wrap-around.\<close>

definition s32 :: "int \<Rightarrow> int" where
  "s32 x = (x + 2 ^ 31) mod 2 ^ 32 - 2 ^ 31"

lemma s32_id [simp]: "- (2 ^ 31) \<le> x \<Longrightarrow> x < 2 ^ 31 \<Longrightarrow> s32 x = x"
  by (simp add: s32_def)

lemma s32_bounds: "- (2 ^ 31) \<le> s32 x" "s32 x < 2 ^ 31"
  by (simp_all add: s32_def)

section \<open>Decimal numbers\<close>

text \<open>The text of an int, as \<open>%d\<close> prints it.\<close>

fun decimal_nat :: "nat \<Rightarrow> string" where
  "decimal_nat n = (if n < 10 then [char_of (48 + n)] else decimal_nat (n div 10) @ [char_of (48 + n mod 10)])"

declare decimal_nat.simps [simp del]

definition decimal :: "int \<Rightarrow> string" where
  "decimal i = (if i < 0 then CHR ''-'' # decimal_nat (nat (- i)) else decimal_nat (nat i))"

section \<open>Primitives called from OCaml\<close>

text \<open>
  A C stub works on a state and either has a fault, raises an OCaml exception or returns a value;
  the state it leaves is part of the result in the last two cases.
\<close>

type_synonym ('s, 'e, 'a) prim = "'s \<Rightarrow> c_fault + ('e + 'a) \<times> 's"

definition ret :: "'a \<Rightarrow> ('s, 'e, 'a) prim" where
  "ret x s = Inr (Inr x, s)"

definition raise :: "'e \<Rightarrow> ('s, 'e, 'a) prim" where
  "raise e s = Inr (Inl e, s)"

definition faulty :: "c_fault \<Rightarrow> ('s, 'e, 'a) prim" where
  "faulty c s = Inl c"

definition pbind :: "('s, 'e, 'a) prim \<Rightarrow> ('a \<Rightarrow> ('s, 'e, 'b) prim) \<Rightarrow> ('s, 'e, 'b) prim" where
  "pbind p f s =
     (case p s of Inl c \<Rightarrow> Inl c
      | Inr (r, s') \<Rightarrow> (case r of Inl e \<Rightarrow> Inr (Inl e, s') | Inr x \<Rightarrow> f x s'))"

text \<open>An operation that cannot raise, and a pure computation that may be undefined.\<close>

definition stateful :: "('s \<Rightarrow> 'a \<times> 's) \<Rightarrow> ('s, 'e, 'a) prim" where
  "stateful g s = (case g s of (x, s') \<Rightarrow> Inr (Inr x, s'))"

definition pure_c :: "c_fault + 'a \<Rightarrow> ('s, 'e, 'a) prim" where
  "pure_c r s = (case r of Inl c \<Rightarrow> Inl c | Inr x \<Rightarrow> Inr (Inr x, s))"

lemma prim_simps [simp]:
  "ret x s = Inr (Inr x, s)"
  "raise e s = Inr (Inl e, s)"
  "faulty c s = Inl c"
  "pure_c (Inr x) s = Inr (Inr x, s)"
  "pure_c (Inl c) s = Inl c"
  by (simp_all add: ret_def raise_def faulty_def pure_c_def)

lemma stateful_apply [simp]: "stateful g s = Inr (Inr (fst (g s)), snd (g s))"
  by (simp add: stateful_def split: prod.split)

lemma pbind_simps [simp]:
  "p s = Inl c \<Longrightarrow> pbind p f s = Inl c"
  "p s = Inr (Inl e, s') \<Longrightarrow> pbind p f s = Inr (Inl e, s')"
  "p s = Inr (Inr x, s') \<Longrightarrow> pbind p f s = f x s'"
  by (simp_all add: pbind_def)

lemma pbind_Inr_iff:
  "pbind p f s = Inr (r, t) \<longleftrightarrow>
     (\<exists>e. p s = Inr (Inl e, t) \<and> r = Inl e) \<or> (\<exists>x s'. p s = Inr (Inr x, s') \<and> f x s' = Inr (r, t))"
  by (auto simp: pbind_def split: sum.splits)

text \<open>What a concrete run returns, from its evaluation.\<close>

lemma returnsE:
  assumes "case x of Inr (Inr v, s) \<Rightarrow> P v s | _ \<Rightarrow> False"
  obtains v s where "x = Inr (Inr v, s)" "P v s"
  using assms by (cases x; cases "projr x"; cases "fst (projr x)") auto

section \<open>One-way channels\<close>

fun put_all :: "('x \<Rightarrow> 's \<Rightarrow> 'e + 's) \<Rightarrow> 'x list \<Rightarrow> 's \<Rightarrow> 'e + 's" where
  "put_all put [] s = Inr s"
| "put_all put (x # xs) s = rbind (put x s) (put_all put xs)"

fun get_n :: "('s \<Rightarrow> 'e + 'x \<times> 's) \<Rightarrow> nat \<Rightarrow> 's \<Rightarrow> 'e + 'x list \<times> 's" where
  "get_n get 0 s = Inr ([], s)"
| "get_n get (Suc n) s =
     rbind (get s) (\<lambda>(x, s). rbind (get_n get n s) (\<lambda>(xs, s). Inr (x # xs, s)))"

lemma put_all_append: "put_all put (xs @ ys) s = rbind (put_all put xs s) (put_all put ys)"
  by (induction xs arbitrary: s) (auto simp: rbind_assoc intro!: arg_cong [where f = "rbind _"])

text \<open>
  \<open>wrep s xs\<close>: the state has accepted exactly \<open>xs\<close> so far. A writer accepts every good element as
  long as fewer than \<open>cap\<close> were written.
\<close>

locale writer =
  fixes put :: "'x \<Rightarrow> 's \<Rightarrow> 'e + 's"
    and good :: "'x \<Rightarrow> bool"
    and wrep :: "'s \<Rightarrow> 'x list \<Rightarrow> bool"
    and cap :: nat
  assumes put_ok:
    "wrep s xs \<Longrightarrow> good x \<Longrightarrow> length xs < cap \<Longrightarrow>
       \<exists>s'. put x s = Inr s' \<and> wrep s' (xs @ [x])"
begin

lemma put_all_ok:
  "wrep s xs \<Longrightarrow> list_all good ys \<Longrightarrow> length xs + length ys \<le> cap \<Longrightarrow>
     \<exists>s'. put_all put ys s = Inr s' \<and> wrep s' (xs @ ys)"
proof (induction ys arbitrary: s xs)
  case Nil
  then show ?case by simp
next
  case (Cons y ys)
  from Cons.prems obtain s1 where s1: "put y s = Inr s1" "wrep s1 (xs @ [y])"
    using put_ok [of s xs y] by auto
  from Cons.IH [OF s1(2)] Cons.prems obtain s2
    where "put_all put ys s1 = Inr s2" "wrep s2 ((xs @ [y]) @ ys)"
    by auto
  with s1 show ?case by auto
qed

end

text \<open>\<open>rrep s xs\<close>: the state will deliver exactly \<open>xs\<close>.\<close>

locale reader =
  fixes get :: "'s \<Rightarrow> 'e + 'x \<times> 's"
    and rrep :: "'s \<Rightarrow> 'x list \<Rightarrow> bool"
  assumes get_ok: "rrep s (x # xs) \<Longrightarrow> \<exists>s'. get s = Inr (x, s') \<and> rrep s' xs"
begin

lemma get_n_ok:
  "rrep s (xs @ ys) \<Longrightarrow> \<exists>s'. get_n get (length xs) s = Inr (xs, s') \<and> rrep s' ys"
proof (induction xs arbitrary: s)
  case Nil
  then show ?case by simp
next
  case (Cons x xs)
  from Cons.prems obtain s1 where s1: "get s = Inr (x, s1)" "rrep s1 (xs @ ys)"
    using get_ok [of s x "xs @ ys"] by auto
  from Cons.IH [OF s1(2)] s1 show ?case by auto
qed

end

text \<open>A channel turns once from writing to reading and delivers what was written, in order.\<close>

locale channel = writer put good wrep cap + reader get rrep
  for put :: "'x \<Rightarrow> 's \<Rightarrow> 'e + 's"
    and good :: "'x \<Rightarrow> bool"
    and wrep :: "'s \<Rightarrow> 'x list \<Rightarrow> bool"
    and cap :: nat
    and get :: "'s \<Rightarrow> 'e + 'x \<times> 's"
    and rrep :: "'s \<Rightarrow> 'x list \<Rightarrow> bool" +
  fixes turn :: "'s \<Rightarrow> 'e + 's"
  assumes turn_ok: "wrep s xs \<Longrightarrow> \<exists>s'. turn s = Inr s' \<and> rrep s' xs"
begin

lemma deliver:
  assumes "wrep s []" "list_all good xs" "length xs \<le> cap"
  shows "\<exists>s1 s2 s3. put_all put xs s = Inr s1 \<and> turn s1 = Inr s2
           \<and> get_n get (length xs) s2 = Inr (xs, s3) \<and> rrep s3 []"
proof -
  from put_all_ok [OF assms(1,2)] assms(3)
  obtain s1 where s1: "put_all put xs s = Inr s1" "wrep s1 xs" by auto
  from turn_ok [OF s1(2)] obtain s2 where s2: "turn s1 = Inr s2" "rrep s2 xs" by blast
  with get_n_ok [of s2 xs "[]"] s1 show ?thesis by auto
qed

end

section \<open>Computations that may not return\<close>

text \<open>\<open>None\<close> is a computation that never returns.\<close>

type_synonym ('s, 'e, 'a) run = "'s \<Rightarrow> (c_fault + ('e + 'a) \<times> 's) option"

definition run_prim :: "('s, 'e, 'a) prim \<Rightarrow> ('s, 'e, 'a) run" where
  "run_prim p s = Some (p s)"

definition run_bind :: "('s, 'e, 'a) run \<Rightarrow> ('a \<Rightarrow> ('s, 'e, 'b) run) \<Rightarrow> ('s, 'e, 'b) run" where
  "run_bind p f s =
     (case p s of
        None \<Rightarrow> None
      | Some (Inl c) \<Rightarrow> Some (Inl c)
      | Some (Inr (Inl e, s)) \<Rightarrow> Some (Inr (Inl e, s))
      | Some (Inr (Inr x, s)) \<Rightarrow> f x s)"

lemma run_simps [simp]:
  "run_prim q s = Some (q s)"
  "p s = None \<Longrightarrow> run_bind p f s = None"
  "p s = Some (Inl c) \<Longrightarrow> run_bind p f s = Some (Inl c)"
  "p s = Some (Inr (Inl e, s')) \<Longrightarrow> run_bind p f s = Some (Inr (Inl e, s'))"
  "p s = Some (Inr (Inr x, s')) \<Longrightarrow> run_bind p f s = f x s'"
  by (simp_all add: run_prim_def run_bind_def)

section \<open>State machines and finalisers\<close>

locale preserved =
  fixes step :: "'s \<Rightarrow> 's \<Rightarrow> bool"
    and inv :: "'s \<Rightarrow> bool"
  assumes keeps: "step s s' \<Longrightarrow> inv s \<Longrightarrow> inv s'"
begin

lemma always: "step\<^sup>*\<^sup>* s s' \<Longrightarrow> inv s \<Longrightarrow> inv s'"
  by (induction rule: rtranclp_induct) (auto intro: keeps)

end

text \<open>A collection: the garbage collector finalises dead blocks one after the other.\<close>

fun finalize_all :: "('b \<Rightarrow> ('s, 'e, unit) prim) \<Rightarrow> 'b list \<Rightarrow> ('s, 'e, unit) prim" where
  "finalize_all fin [] = ret ()"
| "finalize_all fin (b # bs) = pbind (fin b) (\<lambda>_. finalize_all fin bs)"

text \<open>
  \<open>live s b\<close>: the block \<open>b\<close> is there and was not finalised. A finaliser works in every state of the
  invariant, takes its block away and no other.
\<close>

locale finalised = preserved step inv
  for step :: "'s \<Rightarrow> 's \<Rightarrow> bool"
    and inv :: "'s \<Rightarrow> bool" +
  fixes live :: "'s \<Rightarrow> 'b \<Rightarrow> bool"
    and fin :: "'b \<Rightarrow> ('s, 'e, unit) prim"
  assumes fin_ok: "inv s \<Longrightarrow> live s b \<Longrightarrow> \<exists>s'. fin b s = Inr (Inr (), s')"
    and fin_step: "fin b s = Inr (r, s') \<Longrightarrow> step s s'"
    and fin_live: "fin b s = Inr (Inr (), s') \<Longrightarrow> live s' b' \<longleftrightarrow> live s b' \<and> b' \<noteq> b"
begin

lemma finalise_all:
  assumes "inv s" "distinct bs" "\<forall>b \<in> set bs. live s b"
  shows "\<exists>s'. finalize_all fin bs s = Inr (Inr (), s') \<and> inv s' \<and> (\<forall>b. live s' b \<longleftrightarrow> live s b \<and> b \<notin> set bs)"
  using assms
proof (induction bs arbitrary: s)
  case (Cons b bs)
  then obtain s1 where s1: "fin b s = Inr (Inr (), s1)" using fin_ok [of s b] by auto
  have "inv s1" using keeps [OF fin_step [OF s1] Cons.prems(1)] .
  moreover have "\<forall>c \<in> set bs. live s1 c" using fin_live [OF s1] Cons.prems(2,3) by auto
  ultimately obtain s2 where "finalize_all fin bs s1 = Inr (Inr (), s2)" "inv s2"
    "\<forall>c. live s2 c \<longleftrightarrow> live s1 c \<and> c \<notin> set bs"
    using Cons.IH [of s1] Cons.prems(2) by auto
  with s1 fin_live [OF s1] show ?case by (auto simp: pbind_def)
qed simp

text \<open>So after any run, any blocks can be finalised in any order.\<close>

lemma collect:
  assumes "step\<^sup>*\<^sup>* s0 s" "inv s0" "distinct bs" "\<forall>b \<in> set bs. live s b"
  shows "\<exists>s'. finalize_all fin bs s = Inr (Inr (), s') \<and> (\<forall>b. live s' b \<longleftrightarrow> live s b \<and> b \<notin> set bs)"
  using finalise_all [OF always [OF assms(1,2)] assms(3,4)] by blast

end

end
