(* ===== verification/Bitarray.thy ===== *)
theory Bitarray imports Prelude begin

text \<open>
  libs/objsize/alloc.h and libs/objsize/bitarray.h: byte blocks from malloc and realloc, and bit
  arrays on top of them. A block is its list of bytes; a null pointer is \<open>None\<close>. The allocator is
  a parameter: which sizes it can serve and what fresh memory holds.
\<close>

section \<open>The allocator\<close>

type_synonym byte = "8 word"

record cmem =
  malloc_ok :: "nat \<Rightarrow> bool"
  junk :: "nat \<Rightarrow> byte"

definition bitarrayalloc_alloc :: "cmem \<Rightarrow> nat \<Rightarrow> byte list option" where
  "bitarrayalloc_alloc m count =
     (if malloc_ok m count then Some (map (junk m) [0..<count]) else None)"

definition c_realloc :: "cmem \<Rightarrow> byte list option \<Rightarrow> nat \<Rightarrow> byte list option" where
  "c_realloc m arr n =
     (if n = 0 \<or> \<not> malloc_ok m n then None
      else let old = (case arr of None \<Rightarrow> [] | Some bs \<Rightarrow> bs)
           in Some (take n old @ map (junk m) [length old..<n]))"

definition bitarrayalloc_realloc ::
  "cmem \<Rightarrow> byte list option \<Rightarrow> nat \<Rightarrow> c_fault + byte list option" where
  "bitarrayalloc_realloc m arr count =
     (let newarr = c_realloc m arr count
      in if count \<noteq> 0 \<and> newarr = None then Inl (Abort ''realloc'') else Inr newarr)"

section \<open>Bit arrays\<close>

abbreviation BITS_OF_CHAR :: nat where "BITS_OF_CHAR \<equiv> 8"

text \<open>\<open>sizeof(int)\<close> is 4; \<open>size_t\<close> arithmetic is modulo \<open>2 ^ 64\<close>.\<close>

definition wordalign :: "nat \<Rightarrow> c_fault + nat" where
  "wordalign n =
     (if n = 0 then Inl (Undef ''division by zero'')
      else let al = 4; m = al mod n
           in if m = 0 then Inr n else Inr ((n + al - m) mod 2 ^ 64))"

definition bitarray_sizebytes :: "nat \<Rightarrow> c_fault + nat" where
  "bitarray_sizebytes n = wordalign (n div BITS_OF_CHAR)"

definition bitarray_alloc :: "cmem \<Rightarrow> nat \<Rightarrow> c_fault + byte list option" where
  "bitarray_alloc m count =
     rbind (bitarray_sizebytes count) (\<lambda>n. Inr (bitarrayalloc_alloc m n))"

definition bitarray_realloc ::
  "cmem \<Rightarrow> byte list option \<Rightarrow> nat \<Rightarrow> c_fault + byte list option" where
  "bitarray_realloc m arr newcount =
     rbind (bitarray_sizebytes newcount) (bitarrayalloc_realloc m arr)"

definition MASK :: "nat \<Rightarrow> byte" where
  "MASK i = push_bit (i mod BITS_OF_CHAR) 1"

definition bitarray_get :: "byte list \<Rightarrow> nat \<Rightarrow> c_fault + int" where
  "bitarray_get arr i =
     (if i div BITS_OF_CHAR < length arr
      then Inr (if arr ! (i div BITS_OF_CHAR) AND MASK i \<noteq> 0 then 1 else 0)
      else Inl (Undef ''bitarray read''))"

definition bitarray_set :: "byte list \<Rightarrow> nat \<Rightarrow> int \<Rightarrow> c_fault + byte list" where
  "bitarray_set arr i val =
     (let k = i div BITS_OF_CHAR; mask = MASK i
      in if k < length arr
         then Inr (if val \<noteq> 0 then arr[k := arr ! k OR mask] else arr[k := arr ! k AND NOT mask])
         else Inl (Undef ''bitarray write''))"

text \<open>\<open>bitarray_init\<close>: whole bytes first, then the remaining bits one by one.\<close>

fun init_bytes :: "byte \<Rightarrow> nat \<Rightarrow> nat \<Rightarrow> byte list \<Rightarrow> c_fault + byte list" where
  "init_bytes valbyte i 0 arr = Inr arr"
| "init_bytes valbyte i (Suc n) arr =
     (if i < length arr then init_bytes valbyte (Suc i) n (arr[i := valbyte])
      else Inl (Undef ''bitarray write''))"

function init_bits :: "nat \<Rightarrow> nat \<Rightarrow> int \<Rightarrow> byte list \<Rightarrow> c_fault + byte list" where
  "init_bits i sz val arr =
     (if i < sz then rbind (bitarray_set arr i val) (init_bits (Suc i) sz val) else Inr arr)"
  by pat_completeness auto
termination
  by (relation "measure (\<lambda>(i, sz, val, arr). sz - i)") auto

declare init_bits.simps [simp del]

definition bitarray_init :: "byte list \<Rightarrow> nat \<Rightarrow> int \<Rightarrow> c_fault + byte list" where
  "bitarray_init arr sz val =
     (let bytesize = sz div BITS_OF_CHAR; valbyte = (if val \<noteq> 0 then - 1 else 0)
      in rbind (init_bytes valbyte 0 bytesize arr) (init_bits (bytesize * BITS_OF_CHAR) sz val))"

section \<open>The interface of a bit array\<close>

locale bit_store =
  fixes get :: "'a \<Rightarrow> nat \<Rightarrow> c_fault + int"
    and set :: "'a \<Rightarrow> nat \<Rightarrow> int \<Rightarrow> c_fault + 'a"
    and nbits :: "'a \<Rightarrow> nat"
    and bit_at :: "'a \<Rightarrow> nat \<Rightarrow> bool"
  assumes get_law: "i < nbits a \<Longrightarrow> get a i = Inr (if bit_at a i then 1 else 0)"
    and set_law: "i < nbits a \<Longrightarrow>
      \<exists>a'. set a i v = Inr a' \<and> nbits a' = nbits a \<and> bit_at a' = (bit_at a)(i := v \<noteq> 0)"
    and get_out: "nbits a \<le> i \<Longrightarrow> get a i = Inl (Undef ''bitarray read'')"
    and set_out: "nbits a \<le> i \<Longrightarrow> set a i v = Inl (Undef ''bitarray write'')"
begin

definition contents :: "'a \<Rightarrow> nat \<Rightarrow> bool list" where
  "contents a n = map (bit_at a) [0..<n]"

lemma get_after_set:
  assumes "i < nbits a" "j < nbits a"
  shows "\<exists>a'. set a i v = Inr a' \<and>
    get a' j = (if j = i then Inr (if v \<noteq> 0 then 1 else 0) else get a j)"
proof -
  from set_law [OF assms(1)] obtain a' where
    "set a i v = Inr a'" "nbits a' = nbits a" "bit_at a' = (bit_at a)(i := v \<noteq> 0)" by blast
  with assms(2) show ?thesis by (auto simp: get_law)
qed

lemma set_at_end:
  assumes "i < nbits a"
  shows "\<exists>a'. set a i v = Inr a' \<and> nbits a' = nbits a \<and>
    contents a' (Suc i) = contents a i @ [v \<noteq> 0]"
proof -
  from set_law [OF assms] obtain a' where a':
    "set a i v = Inr a'" "nbits a' = nbits a" "bit_at a' = (bit_at a)(i := v \<noteq> 0)" by blast
  then have "contents a' (Suc i) = contents a i @ [v \<noteq> 0]"
    by (auto simp: contents_def)
  with a' show ?thesis by blast
qed

lemma get_contents: "i < n \<Longrightarrow> n \<le> nbits a \<Longrightarrow> get a i = Inr (of_bool (contents a n ! i))"
  by (simp add: contents_def get_law)

end

lemma and_MASK_nonzero: "(x AND MASK i \<noteq> 0) = bit x (i mod 8)" for x :: byte
  by (simp add: MASK_def push_bit_eq_mult and_exp_eq_0_iff_not_bit)

definition byte_bit :: "byte list \<Rightarrow> nat \<Rightarrow> bool" where
  "byte_bit arr i = bit (arr ! (i div 8)) (i mod 8)"

lemma bit_or_MASK: "j < 8 \<Longrightarrow> bit (x OR MASK i) j = (bit x j \<or> j = i mod 8)" for x :: byte
  by (auto simp: MASK_def bit_or_iff push_bit_eq_mult bit_exp_iff)

lemma bit_and_not_MASK: "j < 8 \<Longrightarrow> bit (x AND NOT (MASK i)) j = (bit x j \<and> j \<noteq> i mod 8)" for x :: byte
  by (auto simp: MASK_def bit_and_iff bit_not_iff push_bit_eq_mult bit_exp_iff)

lemma div_mod_neq: "(j::nat) \<noteq> i \<Longrightarrow> j div 8 = i div 8 \<Longrightarrow> j mod 8 \<noteq> i mod 8"
  by (metis div_mult_mod_eq)

lemma byte_bit_update:
  assumes "i div 8 < length arr"
    and "\<And>j. j < 8 \<Longrightarrow> bit x j = (if j = i mod 8 then b else bit (arr ! (i div 8)) j)"
  shows "byte_bit (arr[i div 8 := x]) = (byte_bit arr)(i := b)"
proof
  fix j
  show "byte_bit (arr[i div 8 := x]) j = ((byte_bit arr)(i := b)) j"
  proof (cases "j div 8 = i div 8")
    case True
    then have "j = i \<longleftrightarrow> j mod 8 = i mod 8" using div_mod_neq by blast
    with True assms show ?thesis by (simp add: byte_bit_def)
  next
    case False
    then have "j \<noteq> i" by blast
    with False show ?thesis by (simp add: byte_bit_def)
  qed
qed

lemma bitarray_set_law:
  assumes "i < 8 * length arr"
  shows "\<exists>arr'. bitarray_set arr i v = Inr arr' \<and> 8 * length arr' = 8 * length arr \<and>
    byte_bit arr' = (byte_bit arr)(i := v \<noteq> 0)"
proof -
  have k: "i div 8 < length arr" using assms by (simp add: div_less_iff_less_mult mult.commute)
  show ?thesis
  proof (cases "v = 0")
    case True
    have "byte_bit (arr[i div 8 := arr ! (i div 8) AND NOT (MASK i)]) = (byte_bit arr)(i := False)"
      by (rule byte_bit_update [OF k]) (auto simp: bit_and_not_MASK)
    with True k show ?thesis by (simp add: bitarray_set_def Let_def)
  next
    case False
    have "byte_bit (arr[i div 8 := arr ! (i div 8) OR MASK i]) = (byte_bit arr)(i := True)"
      by (rule byte_bit_update [OF k]) (auto simp: bit_or_MASK)
    with False k show ?thesis by (simp add: bitarray_set_def Let_def)
  qed
qed

interpretation bitarr: bit_store bitarray_get bitarray_set "\<lambda>arr. 8 * length arr" byte_bit
proof
  fix arr :: "byte list" and i :: nat and v :: int
  show "i < 8 * length arr \<Longrightarrow> bitarray_get arr i = Inr (if byte_bit arr i then 1 else 0)"
    by (simp add: bitarray_get_def and_MASK_nonzero byte_bit_def div_less_iff_less_mult mult.commute)
  show "8 * length arr \<le> i \<Longrightarrow> bitarray_get arr i = Inl (Undef ''bitarray read'')"
    by (simp add: bitarray_get_def div_less_iff_less_mult mult.commute)
  show "8 * length arr \<le> i \<Longrightarrow> bitarray_set arr i v = Inl (Undef ''bitarray write'')"
    by (simp add: bitarray_set_def div_less_iff_less_mult mult.commute)
qed (rule bitarray_set_law)

section \<open>Sizes\<close>

text \<open>
  \<open>wordalign\<close> computes \<open>al % n\<close>, not \<open>n % al\<close>: it returns its argument unchanged (3 excepted), so
  it aligns nothing; what the callers need is only that it is never smaller than its argument.
\<close>

lemma wordalign_eq: "0 < n \<Longrightarrow> n < 2 ^ 63 \<Longrightarrow> wordalign n = Inr (if n = 3 then 6 else n)"
proof -
  assume n: "0 < n" "n < 2 ^ 63"
  consider "n = 1" | "n = 2" | "n = 3" | "n = 4" | "4 < n" using n(1) by linarith
  then show ?thesis
  proof cases
    case 5
    then show ?thesis using n by (simp add: wordalign_def Let_def)
  qed (simp_all add: wordalign_def)
qed

lemma bitarray_sizebytes_8:
  "0 < k \<Longrightarrow> k < 2 ^ 60 \<Longrightarrow> k \<noteq> 3 \<Longrightarrow> bitarray_sizebytes (8 * k) = Inr k"
  by (simp add: bitarray_sizebytes_def wordalign_eq)

section \<open>Initialisation\<close>

lemma init_bytes_ok:
  "i + n \<le> length arr \<Longrightarrow> \<exists>arr'. init_bytes b i n arr = Inr arr' \<and> length arr' = length arr \<and>
     (\<forall>j < length arr. arr' ! j = (if i \<le> j \<and> j < i + n then b else arr ! j))"
proof (induction n arbitrary: i arr)
  case 0
  then show ?case by force
next
  case (Suc n)
  from Suc.prems Suc.IH [of "Suc i" "arr[i := b]"] obtain arr'
    where "init_bytes b (Suc i) n (arr[i := b]) = Inr arr'" "length arr' = length arr"
      "\<forall>j < length arr. arr' ! j = (if Suc i \<le> j \<and> j < Suc i + n then b else arr[i := b] ! j)"
    by auto
  with Suc.prems show ?case by (auto simp: nth_list_update)
qed

lemma init_bits_ok:
  "sz \<le> 8 * length arr \<Longrightarrow> \<exists>arr'. init_bits i sz v arr = Inr arr' \<and> length arr' = length arr \<and>
     (\<forall>j. byte_bit arr' j = (if i \<le> j \<and> j < sz then v \<noteq> 0 else byte_bit arr j))"
proof (induction i sz v arr rule: init_bits.induct)
  case (1 i sz v arr)
  show ?case
  proof (cases "i < sz")
    case True
    with "1.prems" bitarr.set_law [of i arr v] obtain a where a:
      "bitarray_set arr i v = Inr a" "length a = length arr" "byte_bit a = (byte_bit arr)(i := v \<noteq> 0)"
      by auto
    from "1.IH" [OF True a(1)] a(2) "1.prems" obtain arr' where
      "init_bits (Suc i) sz v a = Inr arr'" "length arr' = length a"
      "\<forall>j. byte_bit arr' j = (if Suc i \<le> j \<and> j < sz then v \<noteq> 0 else byte_bit a j)" by auto
    with a True show ?thesis by (subst init_bits.simps) auto
  next
    case False
    then show ?thesis by (subst init_bits.simps) auto
  qed
qed

lemma bitarray_init_ok:
  assumes "sz \<le> 8 * length arr"
  shows "\<exists>arr'. bitarray_init arr sz v = Inr arr' \<and> length arr' = length arr \<and>
    (\<forall>j < 8 * length arr. byte_bit arr' j = (if j < sz then v \<noteq> 0 else byte_bit arr j))"
proof -
  let ?b = "if v \<noteq> 0 then - 1 else 0 :: byte"
  have "0 + sz div 8 \<le> length arr" using assms by linarith
  from init_bytes_ok [OF this, of ?b] obtain a where a:
    "init_bytes ?b 0 (sz div 8) arr = Inr a" "length a = length arr"
    "\<forall>j < length arr. a ! j = (if j < sz div 8 then ?b else arr ! j)" by auto
  from init_bits_ok [of sz a "sz div 8 * 8" v] a(2) assms obtain arr' where b:
    "init_bits (sz div 8 * 8) sz v a = Inr arr'" "length arr' = length a"
    "\<forall>j. byte_bit arr' j = (if sz div 8 * 8 \<le> j \<and> j < sz then v \<noteq> 0 else byte_bit a j)" by auto
  have "byte_bit arr' j = (if j < sz then v \<noteq> 0 else byte_bit arr j)"
    if j: "j < 8 * length arr" for j
  proof -
    have "j div 8 < length arr" using j by (simp add: div_less_iff_less_mult mult.commute)
    moreover have "j div 8 < sz div 8 \<longleftrightarrow> j < sz div 8 * 8"
      by (simp add: div_less_iff_less_mult)
    moreover have "sz div 8 * 8 \<le> sz" by simp
    moreover have "j mod 8 < 8" by simp
    ultimately show ?thesis using a(3) b(3) by (auto simp: byte_bit_def)
  qed
  with a b show ?thesis by (auto simp: bitarray_init_def Let_def)
qed

section \<open>Properties\<close>

text \<open>Writing a bit changes that bit and no other, in place; \<open>val\<close> counts as a truth value.\<close>

lemma bitarray_get_after_set:
  assumes "i < 8 * length arr" "j < 8 * length arr"
  shows "\<exists>arr'. bitarray_set arr i v = Inr arr' \<and> length arr' = length arr \<and>
    bitarray_get arr' j = (if j = i then Inr (if v \<noteq> 0 then 1 else 0) else bitarray_get arr j)"
proof -
  from bitarr.set_law [OF assms(1), of v] obtain a where
    "bitarray_set arr i v = Inr a" "length a = length arr" "byte_bit a = (byte_bit arr)(i := v \<noteq> 0)"
    by auto
  with bitarr.get_law [of j a] bitarr.get_law [OF assms(2)] assms(2) show ?thesis by auto
qed

lemma bitarray_get_after_set_example:
  "\<exists>arr'. bitarray_set [3, 0] 9 1 = Inr arr' \<and> length arr' = length [3, 0 :: byte] \<and>
    bitarray_get arr' 8 = (if (8::nat) = 9 then Inr (if (1::int) \<noteq> 0 then 1 else 0) else bitarray_get [3, 0] 8)"
  by (rule bitarray_get_after_set) simp_all

text \<open>The function \<open>_init\<close> gives the first \<open>sz\<close> bits the wanted value and leaves the others.\<close>

lemma bitarray_init_sets_prefix:
  assumes "sz \<le> 8 * length arr" "j < 8 * length arr"
  shows "\<exists>arr'. bitarray_init arr sz v = Inr arr' \<and> length arr' = length arr \<and>
    bitarray_get arr' j = (if j < sz then Inr (if v \<noteq> 0 then 1 else 0) else bitarray_get arr j)"
  using bitarray_init_ok [OF assms(1), of v] bitarr.get_law [of j] assms(2) by fastforce

lemma bitarray_init_sets_prefix_example:
  "\<exists>arr'. bitarray_init [7, 7] 11 0 = Inr arr' \<and> length arr' = length [7, 7 :: byte] \<and>
    bitarray_get arr' 10 = (if (10::nat) < 11 then Inr (if (0::int) \<noteq> 0 then 1 else 0) else bitarray_get [7, 7] 10)"
  by (rule bitarray_init_sets_prefix) simp_all

text \<open>\<open>wordalign\<close> takes \<open>al % n\<close> for \<open>n % al\<close>. It returns every size above 4 unchanged, so block
  sizes are not rounded up to the size of an int, and it divides by zero for an array of fewer than
  8 bits.\<close>

lemma wordalign_does_not_align:
  "(\<forall>n. 4 < n \<and> n < 2 ^ 63 \<longrightarrow> wordalign n = Inr n) \<and>
   (\<forall>bits < 8. bitarray_sizebytes bits = Inl (Undef ''division by zero''))"
  by (auto simp: wordalign_eq bitarray_sizebytes_def wordalign_def)

lemma wordalign_does_not_align_example:
  "wordalign 5 = Inr 5 \<and> bitarray_sizebytes 7 = Inl (Undef ''division by zero'')"
  using wordalign_does_not_align by (auto elim!: allE [of _ "5::nat"] allE [of _ "7::nat"])

end
