(* ===== verification/ColorStream.thy ===== *)
theory ColorStream imports Bitarray begin

text \<open>
  The bit stream of libs/objsize/c_objsize.c: the globals \<open>colors\<close>, \<open>colors_bitcap\<close>,
  \<open>colors_writeindex\<close>, \<open>colors_readindex\<close> (and \<open>prev_color\<close>, \<open>repeat_count\<close>, which the run-length
  coder keeps beside them), \<open>writebit\<close>/\<open>readbit\<close> and \<open>writeint\<close>/\<open>readint\<close>.
\<close>

section \<open>State and operations\<close>

record enc =
  colors :: "byte list option"
  colors_bitcap :: nat
  colors_writeindex :: nat
  colors_readindex :: nat
  prev_color :: int
  repeat_count :: int

abbreviation COLORS_INIT_COUNT :: nat where "COLORS_INIT_COUNT \<equiv> 256"

definition colors_init :: "cmem \<Rightarrow> enc \<Rightarrow> c_fault + enc" where
  "colors_init m s =
     (if colors s \<noteq> None then Inl (Abort ''colors_init'')
      else let cap = COLORS_INIT_COUNT * 2
           in rbind (bitarray_alloc m cap) (\<lambda>arr.
                Inr (s\<lparr>colors := arr, colors_bitcap := cap,
                       colors_writeindex := 0, colors_readindex := 0\<rparr>)))"

definition colors_deinit :: "enc \<Rightarrow> enc" where
  "colors_deinit s = s\<lparr>colors := None\<rparr>"

definition colors_set :: "byte list option \<Rightarrow> nat \<Rightarrow> int \<Rightarrow> c_fault + byte list option" where
  "colors_set arr i val =
     (case arr of None \<Rightarrow> Inl (Undef ''null write'')
      | Some bs \<Rightarrow> rbind (bitarray_set bs i val) (\<lambda>bs. Inr (Some bs)))"

definition colors_get :: "byte list option \<Rightarrow> nat \<Rightarrow> c_fault + int" where
  "colors_get arr i =
     (case arr of None \<Rightarrow> Inl (Undef ''null read'') | Some bs \<Rightarrow> bitarray_get bs i)"

text \<open>\<open>writebit\<close>: the array is doubled when it is full.\<close>

definition writebit_grow :: "cmem \<Rightarrow> enc \<Rightarrow> c_fault + enc" where
  "writebit_grow m s =
     (if colors_writeindex s = colors_bitcap s
      then let new_bitcap = (colors_bitcap s * 2) mod 2 ^ 64
           in rbind (bitarray_realloc m (colors s) new_bitcap) (\<lambda>newarr.
                if newarr = None then Inl (Abort ''realloc'')
                else Inr (s\<lparr>colors := newarr, colors_bitcap := new_bitcap\<rparr>))
      else Inr s)"

definition writebit :: "cmem \<Rightarrow> int \<Rightarrow> enc \<Rightarrow> c_fault + enc" where
  "writebit m val s =
     rbind (writebit_grow m s) (\<lambda>s.
       if \<not> colors_writeindex s < colors_bitcap s then Inl (Abort ''bound on write'')
       else rbind (colors_set (colors s) (colors_writeindex s) val) (\<lambda>arr.
              Inr (s\<lparr>colors := arr, colors_writeindex := colors_writeindex s + 1\<rparr>)))"

definition readbit :: "enc \<Rightarrow> c_fault + int \<times> enc" where
  "readbit s =
     (if \<not> colors_readindex s < colors_writeindex s then Inl (Abort ''bound on read'')
      else rbind (colors_get (colors s) (colors_readindex s)) (\<lambda>res.
             if res = 0 \<or> res = 1
             then Inr (res, s\<lparr>colors_readindex := colors_readindex s + 1\<rparr>)
             else Inl (Abort ''bitarray_get'')))"

fun writeint :: "cmem \<Rightarrow> 32 word \<Rightarrow> nat \<Rightarrow> enc \<Rightarrow> c_fault + enc" where
  "writeint m arg 0 s = (if arg = 0 then Inr s else Inl (Abort ''writeint''))"
| "writeint m arg (Suc width) s =
     rbind (writebit m (uint (arg AND 1)) s) (writeint m (drop_bit 1 arg) width)"

text \<open>
  \<open>readint\<close> shifts every bit in from the top. A width of 0 or above 32 makes \<open>1 << (width-1)\<close>
  undefined before the function's own check of the width.
\<close>

fun readint_loop :: "32 word \<Rightarrow> nat \<Rightarrow> 32 word \<Rightarrow> enc \<Rightarrow> c_fault + 32 word \<times> enc" where
  "readint_loop hibit 0 acc s = Inr (acc, s)"
| "readint_loop hibit (Suc width) acc s =
     rbind (readbit s) (\<lambda>(b, s).
       let acc = drop_bit 1 acc
       in readint_loop hibit width (if b \<noteq> 0 then acc OR hibit else acc) s)"

definition readint :: "nat \<Rightarrow> enc \<Rightarrow> c_fault + 32 word \<times> enc" where
  "readint width s =
     (if width = 0 \<or> 32 < width then Inl (Undef ''shift'')
      else readint_loop (push_bit (width - 1) 1) width 0 s)"

section \<open>The stream is a channel of bits\<close>

definition mem_upto :: "cmem \<Rightarrow> nat \<Rightarrow> bool" where
  "mem_upto m B \<longleftrightarrow> 64 \<le> B \<and> B < 2 ^ 60 \<and> (\<forall>n \<le> B. malloc_ok m n)"

definition put_bit :: "cmem \<Rightarrow> bool \<Rightarrow> enc \<Rightarrow> c_fault + enc" where
  "put_bit m b = writebit m (of_bool b)"

definition get_bit :: "enc \<Rightarrow> c_fault + bool \<times> enc" where
  "get_bit s = rbind (readbit s) (\<lambda>(b, s). Inr (b \<noteq> 0, s))"

text \<open>
  The state has been written the bits \<open>bs\<close>, with \<open>p\<close> and \<open>r\<close> in the coder's variables; the array
  is the initial 64 bytes doubled some number of times.
\<close>

definition bits_written :: "cmem \<Rightarrow> nat \<Rightarrow> int \<Rightarrow> int \<Rightarrow> enc \<Rightarrow> bool list \<Rightarrow> bool" where
  "bits_written m B p r s bs \<longleftrightarrow>
     mem_upto m B \<and> prev_color s = p \<and> repeat_count s = r \<and> colors_readindex s = 0 \<and>
     colors_writeindex s = length bs \<and> length bs \<le> colors_bitcap s \<and>
     (\<exists>arr k. colors s = Some arr \<and> length arr = 64 * 2 ^ k \<and> colors_bitcap s = 8 * length arr \<and>
       bitarr.contents arr (length bs) = bs)"

definition bits_left :: "int \<Rightarrow> int \<Rightarrow> enc \<Rightarrow> bool list \<Rightarrow> bool" where
  "bits_left p r s bs \<longleftrightarrow>
     prev_color s = p \<and> repeat_count s = r \<and> colors_readindex s \<le> colors_writeindex s \<and>
     (\<exists>arr. colors s = Some arr \<and> colors_writeindex s \<le> 8 * length arr \<and>
       drop (colors_readindex s) (bitarr.contents arr (colors_writeindex s)) = bs)"

lemma contents_append_bytes:
  "n \<le> 8 * length arr \<Longrightarrow> bitarr.contents (arr @ ys) n = bitarr.contents arr n"
  by (auto simp: bitarr.contents_def byte_bit_def nth_append div_less_iff_less_mult mult.commute)

lemma realloc_double:
  assumes "mem_upto m B" "length arr = 64 * 2 ^ k" "2 * length arr \<le> B"
  shows "bitarray_realloc m (Some arr) (2 * (8 * length arr)) =
    Inr (Some (arr @ map (junk m) [length arr..<2 * length arr]))"
proof -
  let ?n = "2 * length arr"
  have "?n < 2 ^ 60" "malloc_ok m ?n" using assms by (auto simp: mem_upto_def)
  moreover have "0 < ?n" "?n \<noteq> 3" using assms(2) by (auto, presburger)
  ultimately have "bitarray_sizebytes (8 * ?n) = Inr ?n"
    by (intro bitarray_sizebytes_8) auto
  moreover have "2 * (8 * length arr) = 8 * ?n" by simp
  ultimately show ?thesis using \<open>malloc_ok m ?n\<close> \<open>0 < ?n\<close>
    by (simp add: bitarray_realloc_def bitarrayalloc_realloc_def c_realloc_def Let_def)
qed

lemma bits_written_grow:
  assumes "bits_written m B p r s bs" "length bs < 4 * B"
  shows "\<exists>s'. writebit_grow m s = Inr s' \<and> bits_written m B p r s' bs
    \<and> length bs < colors_bitcap s'"
proof (cases "length bs = colors_bitcap s")
  case False
  with assms show ?thesis by (auto simp: writebit_grow_def bits_written_def)
next
  case True
  from assms(1) obtain arr k where arr: "colors s = Some arr" "length arr = 64 * 2 ^ k"
    "colors_bitcap s = 8 * length arr" "bitarr.contents arr (length bs) = bs"
    by (auto simp: bits_written_def)
  from True arr(3) assms(2) have small: "2 * length arr \<le> B" by linarith
  from assms(1) have mem: "mem_upto m B" and "colors_writeindex s = length bs"
    by (auto simp: bits_written_def)
  from small mem have "2 * (8 * length arr) < 2 ^ 64" by (simp add: mem_upto_def)
  with realloc_double [OF mem arr(2) small] True arr \<open>colors_writeindex s = length bs\<close>
  have "writebit_grow m s = Inr (s\<lparr>colors := Some (arr @ map (junk m) [length arr..<2 * length arr]),
      colors_bitcap := 2 * (8 * length arr)\<rparr>)" (is "_ = Inr ?s'")
    by (simp add: writebit_grow_def Let_def mult.commute)
  moreover have "bits_written m B p r ?s' bs"
    unfolding bits_written_def using assms(1) True arr contents_append_bytes [of "length bs" arr]
    by (auto simp: bits_written_def intro: exI [where x = "Suc k"])
  moreover have "length bs < colors_bitcap ?s'" using True arr by simp
  ultimately show ?thesis by blast
qed

lemma put_bit_law:
  assumes "bits_written m B p r s bs" "length bs < 4 * B"
  shows "\<exists>s'. put_bit m b s = Inr s' \<and> bits_written m B p r s' (bs @ [b])"
proof -
  from bits_written_grow [OF assms] obtain s1 where
    s1: "writebit_grow m s = Inr s1" "bits_written m B p r s1 bs" "length bs < colors_bitcap s1"
    by blast
  from s1(2) obtain arr k where arr: "colors s1 = Some arr" "length arr = 64 * 2 ^ k"
    "colors_bitcap s1 = 8 * length arr" "bitarr.contents arr (length bs) = bs"
    by (auto simp: bits_written_def)
  from bitarr.set_at_end [of "length bs" arr "of_bool b"] s1(3) arr obtain arr' where
    arr': "bitarray_set arr (length bs) (of_bool b) = Inr arr'" "8 * length arr' = 8 * length arr"
      "bitarr.contents arr' (Suc (length bs)) = bs @ [b]"
    by auto
  let ?s' = "s1\<lparr>colors := Some arr', colors_writeindex := Suc (length bs)\<rparr>"
  have "writebit m (of_bool b) s = Inr ?s'"
    using s1 arr arr' by (simp add: writebit_def colors_set_def bits_written_def)
  moreover have "bits_written m B p r ?s' (bs @ [b])"
    using s1(2,3) arr arr' by (auto simp: bits_written_def)
  ultimately show ?thesis by (auto simp: put_bit_def)
qed

lemma get_bit_law:
  assumes "bits_left p r s (b # bs)"
  shows "\<exists>s'. get_bit s = Inr (b, s') \<and> bits_left p r s' bs"
proof -
  from assms obtain arr where arr: "colors s = Some arr" "colors_writeindex s \<le> 8 * length arr"
    "drop (colors_readindex s) (bitarr.contents arr (colors_writeindex s)) = b # bs"
    by (auto simp: bits_left_def)
  let ?i = "colors_readindex s" and ?xs = "bitarr.contents arr (colors_writeindex s)"
  have len: "length ?xs = colors_writeindex s" by (simp add: bitarr.contents_def)
  from arr(3) have lt: "?i < colors_writeindex s" using len
    by (metis drop_all linorder_not_le list.distinct(1))
  with arr(3) len have b: "?xs ! ?i = b" and rest: "drop (Suc ?i) ?xs = bs"
    by (metis hd_drop_conv_nth list.sel(1), metis drop_Suc list.sel(3) tl_drop)
  from bitarr.get_contents [OF lt arr(2)] b
  have "bitarray_get arr ?i = Inr (of_bool b)" by simp
  with lt arr(1) have "get_bit s = Inr (b, s\<lparr>colors_readindex := Suc ?i\<rparr>)"
    by (simp add: get_bit_def readbit_def colors_get_def)
  moreover have "bits_left p r (s\<lparr>colors_readindex := Suc ?i\<rparr>) bs"
    using assms arr lt rest by (auto simp: bits_left_def)
  ultimately show ?thesis by blast
qed

lemma bits_turn:
  "bits_written m B p r s bs \<Longrightarrow> bits_left p r s bs"
  by (auto simp: bits_written_def bits_left_def)

interpretation bits: channel "put_bit m" "\<lambda>_. True" "bits_written m B p r" "4 * B" get_bit
  "bits_left p r" Inr
  for m B p r
  by unfold_locales (auto intro: put_bit_law get_bit_law bits_turn)

lemma colors_init_ok:
  assumes "mem_upto m B" "colors s = None"
  shows "\<exists>s'. colors_init m s = Inr s' \<and> bits_written m B (prev_color s) (repeat_count s) s' []"
proof -
  have "bitarray_sizebytes 512 = Inr 64" using bitarray_sizebytes_8 [of 64] by simp
  then show ?thesis using assms
    by (auto simp: colors_init_def bitarray_alloc_def bitarrayalloc_alloc_def mem_upto_def
      bits_written_def Let_def bitarr.contents_def intro: exI [where x = 0])
qed

section \<open>Fixed-width integers\<close>

definition int_bits :: "nat \<Rightarrow> 32 word \<Rightarrow> bool list" where
  "int_bits w x = map (bit x) [0..<w]"

lemma length_int_bits [simp]: "length (int_bits w x) = w"
  by (simp add: int_bits_def)

lemma int_bits_Suc: "int_bits (Suc w) x = bit x 0 # int_bits w (drop_bit 1 x)"
  by (simp add: int_bits_def upt_conv_Cons map_Suc_upt [symmetric] bit_drop_bit_eq comp_def
    del: upt_Suc)

lemma uint_low_bit: "uint (x AND 1) = of_bool (bit x 0)" for x :: "32 word"
  by (simp add: and_one_eq bit_0 odd_iff_mod_2_eq_one)

lemma unat_drop_bit_1: "unat (drop_bit 1 x) < 2 ^ w \<longleftrightarrow> unat x < 2 ^ Suc w" for x :: "32 word"
  by (simp add: drop_bit_eq_div unat_div_distrib div_less_iff_less_mult mult.commute)

lemma writeint_put_all:
  "unat x < 2 ^ w \<Longrightarrow> writeint m x w s = put_all (put_bit m) (int_bits w x) s"
proof (induction w arbitrary: x s)
  case 0
  then show ?case by (simp add: int_bits_def unat_eq_zero)
next
  case (Suc w)
  then have "unat (drop_bit 1 x) < 2 ^ w" by (simp only: unat_drop_bit_1)
  with Suc.IH show ?case
    by (auto simp: int_bits_Suc uint_low_bit put_bit_def intro!: rbind_cong)
qed

lemma readint_loop_ok:
  assumes "bits_left p r s (map (bit x) [k..<w] @ bs)" "k \<le> w" "w \<le> 32" "0 < w"
    and "\<And>j. bit acc j \<longleftrightarrow> w \<le> j + k \<and> j < w \<and> bit x (j + k - w)"
  shows "\<exists>s' acc'. readint_loop (push_bit (w - 1) 1) (w - k) acc s = Inr (acc', s') \<and>
    bits_left p r s' bs \<and> (\<forall>j. bit acc' j \<longleftrightarrow> j < w \<and> bit x j)"
  using assms(1,2,5)
proof (induction "w - k" arbitrary: k s acc)
  case 0
  then have "k = w" by simp
  with "0.prems" show ?case by auto
next
  case (Suc n)
  then have lt: "k < w" and n: "w - k = Suc n" "w - Suc k = n" by auto
  then have "bits_left p r s (bit x k # (map (bit x) [Suc k..<w] @ bs))"
    using Suc.prems(1) by (simp add: upt_conv_Cons)
  from bits.get_ok [OF this] obtain s1 where
    s1: "get_bit s = Inr (bit x k, s1)" "bits_left p r s1 (map (bit x) [Suc k..<w] @ bs)" by blast
  then obtain v where v: "readbit s = Inr (v, s1)" "bit x k = (v \<noteq> 0)"
    by (auto simp: get_bit_def rbind_Inr_iff)
  let ?acc = "if v \<noteq> 0 then drop_bit 1 acc OR push_bit (w - 1) 1 else drop_bit 1 acc"
  have "bit ?acc j \<longleftrightarrow> w \<le> j + Suc k \<and> j < w \<and> bit x (j + Suc k - w)" for j
  proof -
    have "bit ?acc j \<longleftrightarrow> bit acc (Suc j) \<or> (v \<noteq> 0 \<and> j = w - 1)"
      using assms(3,4) by (auto simp: bit_or_iff bit_drop_bit_eq push_bit_eq_mult bit_exp_iff)
    also have "\<dots> \<longleftrightarrow> w \<le> j + Suc k \<and> j < w \<and> bit x (j + Suc k - w)"
      using Suc.prems(3) [of "Suc j"] v(2) lt by (cases "j = w - 1") auto
    finally show ?thesis .
  qed
  with Suc.hyps(1) [of "Suc k" s1 ?acc] s1(2) lt n v show ?case by (auto simp: Let_def)
qed

lemma readint_ok:
  assumes "bits_left p r s (int_bits w x @ bs)" "unat x < 2 ^ w" "0 < w" "w \<le> 32"
  shows "\<exists>s'. readint w s = Inr (x, s') \<and> bits_left p r s' bs"
proof -
  from readint_loop_ok [of p r s x 0 w bs 0] assms obtain s' acc where
    a: "readint_loop (push_bit (w - 1) 1) w 0 s = Inr (acc, s')" "bits_left p r s' bs"
      "\<forall>j. bit acc j \<longleftrightarrow> j < w \<and> bit x j"
    by (auto simp: int_bits_def)
  have "take_bit w x = x"
    using assms(2) by (intro unsigned_word_eqI [where ?'a = nat])
      (simp add: unsigned_take_bit_eq take_bit_nat_eq_self)
  then have "bit x j \<Longrightarrow> j < w" for j by (metis bit_take_bit_iff)
  with a(3) have "acc = x" by (intro bit_eqI) auto
  with a assms(3,4) show ?thesis by (auto simp: readint_def)
qed

lemma writeint_ok:
  assumes "bits_written m B p r s bs" "unat x < 2 ^ w" "length bs + w \<le> 4 * B"
  shows "\<exists>s'. writeint m x w s = Inr s' \<and> bits_written m B p r s' (bs @ int_bits w x)"
  using bits.put_all_ok [OF assms(1), of "int_bits w x"] assms
  by (simp add: writeint_put_all list_all_iff)

lemma put_all_ints:
  "list_all (\<lambda>x. unat x < 2 ^ w) xs \<Longrightarrow>
     put_all (\<lambda>x. writeint m x w) xs s = put_all (put_bit m) (concat (map (int_bits w) xs)) s"
proof (induction xs arbitrary: s)
  case (Cons x xs)
  then have "put_all (\<lambda>x. writeint m x w) xs = put_all (put_bit m) (concat (map (int_bits w) xs))"
    by auto
  with Cons.prems show ?case by (simp add: writeint_put_all put_all_append)
qed simp

lemma length_all_bits: "length (concat (map (int_bits w) xs)) = w * length xs"
  by (induction xs) auto

section \<open>Properties\<close>

text \<open>Fixed-width integers survive the bit stream. From a fresh stream, a list of numbers written
  with the same width is read back unchanged and in order, through every reallocation of the
  array.\<close>

lemma ints_round_trip:
  assumes "mem_upto m B" "colors s = None" "0 < w" "w \<le> 32"
    and "list_all (\<lambda>x. unat x < 2 ^ w) xs" "w * length xs \<le> 4 * B"
  shows "\<exists>s0 s1 s2. colors_init m s = Inr s0 \<and>
    put_all (\<lambda>x. writeint m x w) xs s0 = Inr s1 \<and>
    get_n (readint w) (length xs) s1 = Inr (xs, s2) \<and> colors_readindex s2 = colors_writeindex s2"
proof -
  from colors_init_ok [OF assms(1,2)] obtain s0 p r where
    0: "colors_init m s = Inr s0" "bits_written m B p r s0 []" by blast
  have rd: "\<exists>s2. get_n (readint w) (length xs) s1 = Inr (xs, s2) \<and> bits_left p r s2 []"
    if "bits_left p r s1 (concat (map (int_bits w) xs))" for s1
    using that assms(5)
  proof (induction xs arbitrary: s1)
    case (Cons x xs)
    from readint_ok [of p r s1 w x "concat (map (int_bits w) xs)"] Cons.prems assms(3,4) obtain s2
      where "readint w s1 = Inr (x, s2)" "bits_left p r s2 (concat (map (int_bits w) xs))" by auto
    with Cons show ?case by fastforce
  qed simp
  have "list_all (\<lambda>_. True) (concat (map (int_bits w) xs))" by (simp add: list_all_iff)
  from bits.put_all_ok [OF 0(2) this]
    length_all_bits [of w xs] assms(6) obtain s1 where
    1: "put_all (put_bit m) (concat (map (int_bits w) xs)) s0 = Inr s1"
      "bits_written m B p r s1 (concat (map (int_bits w) xs))" by auto
  from bits_turn [OF 1(2)] have "bits_left p r s1 (concat (map (int_bits w) xs))" by auto
  from rd [OF this] obtain s2 where
    2: "get_n (readint w) (length xs) s1 = Inr (xs, s2)" "bits_left p r s2 []" by blast
  from 2(2) have "colors_readindex s2 = colors_writeindex s2"
    by (auto simp: bits_left_def bitarr.contents_def)
  with 0 1 2 put_all_ints [OF assms(5)] show ?thesis by auto
qed

definition small_mem :: cmem where
  "small_mem = \<lparr>malloc_ok = (\<lambda>n. n \<le> 64), junk = (\<lambda>_. 255)\<rparr>"

lemma mem_upto_small: "mem_upto small_mem 64"
  by (simp add: mem_upto_def small_mem_def)

lemma ints_round_trip_example:
  "\<exists>s0 s1 s2. colors_init small_mem \<lparr>colors = None, colors_bitcap = 0, colors_writeindex = 0,
      colors_readindex = 0, prev_color = 0, repeat_count = 0\<rparr> = Inr s0 \<and>
    put_all (\<lambda>x. writeint small_mem x 5) [17, 0, 31] s0 = Inr s1 \<and>
    get_n (readint 5) (length [17, 0, 31 :: 32 word]) s1 = Inr ([17, 0, 31], s2) \<and>
    colors_readindex s2 = colors_writeindex s2"
  by (rule ints_round_trip [OF mem_upto_small]) simp_all

text \<open>The stream never reads past what was written.\<close>

lemma readbit_past_the_end_aborts:
  "readbit s = Inl (Abort ''bound on read'') \<longleftrightarrow> colors_writeindex s \<le> colors_readindex s"
  by (auto simp: readbit_def colors_get_def bitarray_get_def split: option.splits if_splits)

end
