(* ===== verification/Rle.thy ===== *)
theory Rle imports ColorStream begin

text \<open>
  The run-length coder of libs/objsize/c_objsize.c: \<open>rle_write\<close> and \<open>rle_read\<close>, which share the
  globals \<open>prev_color\<close> and \<open>repeat_count\<close>, and \<open>writecolor\<close>/\<open>readcolor\<close> on top. The stream format
  is stated separately as a list of tokens; both directions are proved against it, and the colours
  form a channel in the sense of \<open>Prelude.channel\<close>.
\<close>

section \<open>Operations\<close>

abbreviation Col_white :: int where "Col_white \<equiv> 0"
abbreviation Col_gray :: int where "Col_gray \<equiv> 1"
abbreviation Col_blue :: int where "Col_blue \<equiv> 2"
abbreviation Col_black :: int where "Col_black \<equiv> 3"

abbreviation BITS_FOR_COUNT :: nat where "BITS_FOR_COUNT \<equiv> 5"
abbreviation BITS_FOR_ORDER :: nat where "BITS_FOR_ORDER \<equiv> 4"
abbreviation MAX_REPEAT_COUNT :: int where "MAX_REPEAT_COUNT \<equiv> 2 ^ BITS_FOR_COUNT"
abbreviation MAX_REPEAT_ORDER :: nat where "MAX_REPEAT_ORDER \<equiv> 2 ^ BITS_FOR_ORDER"

lemma writebit_frame:
  "writebit m v s = Inr s' \<Longrightarrow> prev_color s' = prev_color s \<and> repeat_count s' = repeat_count s"
  by (auto simp: writebit_def writebit_grow_def rbind_Inr_iff Let_def split: if_splits)

lemma writeint_frame:
  "writeint m x w s = Inr s' \<Longrightarrow> prev_color s' = prev_color s \<and> repeat_count s' = repeat_count s"
  by (induction m x w s rule: writeint.induct)
    (auto simp: rbind_Inr_iff dest: writebit_frame split: if_splits)

declare writeint.simps [simp del]

text \<open>The inner loop of \<open>rle_write_repeats\<close>: the largest order whose power still fits.\<close>

function rle_order :: "nat \<Rightarrow> int \<Rightarrow> nat" where
  "rle_order ord count =
     (if ord < MAX_REPEAT_ORDER - 1 \<and> 2 ^ ord \<le> count div 2
      then rle_order (Suc ord) count else ord)"
  by pat_completeness auto
termination
  by (relation "measure (\<lambda>(ord, count). MAX_REPEAT_ORDER - ord)") auto

declare rle_order.simps [simp del]

function rle_write_repeats_loop :: "cmem \<Rightarrow> enc \<Rightarrow> c_fault + enc" where
  "rle_write_repeats_loop m s =
     (if repeat_count s \<ge> MAX_REPEAT_COUNT
      then let ord = rle_order 0 (repeat_count s)
           in rbind (writeint m (word_of_int Col_blue) 2 s) (\<lambda>s.
              rbind (writeint m 1 1 s) (\<lambda>s.
              if (2::int) ^ ord = 0 then Inl (Abort ''write_repeats#2'') else
              rbind (writeint m (of_nat ord) BITS_FOR_ORDER s) (\<lambda>s.
              rle_write_repeats_loop m (s\<lparr>repeat_count := repeat_count s - 2 ^ ord\<rparr>))))
      else Inr s)"
  by pat_completeness auto
termination
  by (relation "measure (\<lambda>(m, s). nat (repeat_count s))") (auto dest!: writeint_frame)

declare rle_write_repeats_loop.simps [simp del]

definition rle_write_repeats :: "cmem \<Rightarrow> enc \<Rightarrow> c_fault + enc" where
  "rle_write_repeats m s =
     rbind (rle_write_repeats_loop m s) (\<lambda>s.
       if \<not> repeat_count s < MAX_REPEAT_COUNT then Inl (Abort ''write_repeats'')
       else if repeat_count s > 0
       then rbind (writeint m (word_of_int Col_blue) 2 s) (\<lambda>s.
            rbind (writeint m 0 1 s) (\<lambda>s.
            rbind (writeint m (word_of_int (repeat_count s)) BITS_FOR_COUNT s) (\<lambda>s.
            Inr (s\<lparr>repeat_count := 0\<rparr>))))
       else Inr s)"

definition rle_write_flush :: "cmem \<Rightarrow> enc \<Rightarrow> c_fault + enc" where
  "rle_write_flush m s =
     rbind (if repeat_count s > 0 then rle_write_repeats m s else Inr s) (\<lambda>s.
       if repeat_count s = 0 then Inr s else Inl (Abort ''rle_write_flush''))"

definition rle_read_flush :: "enc \<Rightarrow> c_fault + enc" where
  "rle_read_flush s =
     (if repeat_count s = 0 \<and> colors_readindex s = colors_writeindex s then Inr s
      else Inl (Abort ''rle_reader_flush''))"

definition rle_write :: "cmem \<Rightarrow> int \<Rightarrow> enc \<Rightarrow> c_fault + enc" where
  "rle_write m color s =
     (if prev_color s = color then Inr (s\<lparr>repeat_count := s32 (repeat_count s + 1)\<rparr>)
      else rbind (rle_write_flush m s) (\<lambda>s.
           if color = Col_blue then Inl (Abort ''rle_write'')
           else rbind (writeint m (word_of_int color) 2 s) (\<lambda>s.
                Inr (s\<lparr>prev_color := color\<rparr>))))"

definition rle_read_count :: "32 word \<Rightarrow> enc \<Rightarrow> c_fault + enc" where
  "rle_read_count rk s =
     (if rk = 0
      then rbind (readint BITS_FOR_COUNT s) (\<lambda>(w, s). Inr (s\<lparr>repeat_count := sint w\<rparr>))
      else rbind (readint BITS_FOR_ORDER s) (\<lambda>(w, s). Inr (s\<lparr>repeat_count := 2 ^ unat w\<rparr>)))"

function rle_read :: "enc \<Rightarrow> c_fault + int \<times> enc" where
  "rle_read s =
     (if repeat_count s > 0
      then Inr (prev_color s, s\<lparr>repeat_count := repeat_count s - 1\<rparr>)
      else rbind (readint 2 s) (\<lambda>(w, s).
           let c = sint w
           in if c = Col_blue
              then rbind (readint 1 s) (\<lambda>(rk, s).
                   rbind (rle_read_count rk s) (\<lambda>s.
                   if repeat_count s > 0 then rle_read s else Inl (Abort ''rle_read'')))
              else Inr (c, s\<lparr>prev_color := c\<rparr>)))"
  by pat_completeness auto
termination
  by (relation "measure (\<lambda>s. if repeat_count s > 0 then 0 else 1)") auto

declare rle_read.simps [simp del]

definition rle_init :: "enc \<Rightarrow> enc" where
  "rle_init s = s\<lparr>prev_color := 0, repeat_count := 0\<rparr>"

definition writecolor :: "cmem \<Rightarrow> int \<Rightarrow> enc \<Rightarrow> c_fault + enc" where
  "writecolor m col s =
     (if col \<ge> 0 \<and> col \<le> 3 \<and> col \<noteq> Col_blue then rle_write m col s
      else Inl (Abort ''writecolor''))"

definition readcolor :: "enc \<Rightarrow> c_fault + int \<times> enc" where
  "readcolor s =
     rbind (rle_read s) (\<lambda>(res, s).
       if res \<ge> 0 \<and> res \<le> 3 \<and> res \<noteq> Col_blue then Inr (res, s)
       else Inl (Abort ''readcolor''))"

section \<open>The stream format\<close>

datatype token = Lit int | Rep nat | RepPow nat

definition good_color :: "int \<Rightarrow> bool" where
  "good_color c \<longleftrightarrow> c = Col_white \<or> c = Col_gray \<or> c = Col_black"

fun token_ok :: "token \<Rightarrow> bool" where
  "token_ok (Lit c) = good_color c"
| "token_ok (Rep n) = (0 < n \<and> n < 32)"
| "token_ok (RepPow k) = (k < 16)"

fun token_bits :: "token \<Rightarrow> bool list" where
  "token_bits (Lit c) = int_bits 2 (word_of_int c)"
| "token_bits (Rep n) = int_bits 2 2 @ int_bits 1 0 @ int_bits 5 (of_nat n)"
| "token_bits (RepPow k) = int_bits 2 2 @ int_bits 1 1 @ int_bits 4 (of_nat k)"

definition stream_bits :: "token list \<Rightarrow> bool list" where
  "stream_bits ts = concat (map token_bits ts)"

fun expand :: "int \<Rightarrow> token list \<Rightarrow> int list" where
  "expand p [] = []"
| "expand p (Lit c # ts) = c # expand c ts"
| "expand p (Rep n # ts) = replicate n p @ expand p ts"
| "expand p (RepPow k # ts) = replicate (2 ^ k) p @ expand p ts"

fun last_color :: "int \<Rightarrow> token list \<Rightarrow> int" where
  "last_color p [] = p"
| "last_color p (Lit c # ts) = last_color c ts"
| "last_color p (Rep n # ts) = last_color p ts"
| "last_color p (RepPow k # ts) = last_color p ts"

lemma stream_bits_simps [simp]:
  "stream_bits [] = []"
  "stream_bits (t # ts) = token_bits t @ stream_bits ts"
  "stream_bits (ts @ us) = stream_bits ts @ stream_bits us"
  by (simp_all add: stream_bits_def)

lemma expand_append: "expand p (ts @ us) = expand p ts @ expand (last_color p ts) us"
  by (induction p ts rule: expand.induct) auto

lemma last_color_append: "last_color p (ts @ us) = last_color (last_color p ts) us"
  by (induction p ts rule: expand.induct) auto

lemma last_color_good: "good_color p \<Longrightarrow> list_all token_ok ts \<Longrightarrow> good_color (last_color p ts)"
  by (induction p ts rule: expand.induct) auto

section \<open>Writing\<close>

lemma rle_order_less: "ord < 16 \<Longrightarrow> rle_order ord c < 16"
  by (induction ord c rule: rle_order.induct) (subst rle_order.simps, auto)

lemma rle_order_fits: "2 ^ ord \<le> c \<Longrightarrow> 2 ^ rle_order ord c \<le> c"
proof (induction ord c rule: rle_order.induct)
  case (1 ord c)
  show ?case
  proof (cases "ord < 15 \<and> 2 ^ ord \<le> c div 2")
    case True
    then have "2 * (2::int) ^ ord \<le> c" by linarith
    then have "(2::int) ^ Suc ord \<le> c" by simp
    with "1.IH" True show ?thesis by (subst rle_order.simps) auto
  next
    case False
    with "1.prems" show ?thesis by (subst rle_order.simps) auto
  qed
qed

lemma bits_written_count:
  "bits_written m B p r s bs \<Longrightarrow> bits_written m B p r' (s\<lparr>repeat_count := r'\<rparr>) bs"
  by (auto simp: bits_written_def)

lemma bits_written_prev:
  "bits_written m B p r s bs \<Longrightarrow> bits_written m B p' r (s\<lparr>prev_color := p'\<rparr>) bs"
  by (auto simp: bits_written_def)

lemma bits_written_self:
  "bits_written m B p r s bs \<Longrightarrow> prev_color s = p \<and> repeat_count s = r"
  by (auto simp: bits_written_def)

text \<open>Three consecutive integers, the shape of both repeat tokens.\<close>

lemma writeint3_ok:
  assumes "bits_written m B p r s bs" "unat x < 2 ^ 2" "unat y < 2 ^ 1" "unat z < 2 ^ w"
    "length bs + (3 + w) \<le> 4 * B"
  shows "\<exists>s1 s2 s3. writeint m x 2 s = Inr s1 \<and> writeint m y 1 s1 = Inr s2 \<and>
    writeint m z w s2 = Inr s3 \<and> prev_color s2 = p \<and> repeat_count s2 = r \<and>
    bits_written m B p r s3 (bs @ int_bits 2 x @ int_bits 1 y @ int_bits w z)"
proof -
  from writeint_ok [OF assms(1,2)] assms(5) obtain s1 where
    1: "writeint m x 2 s = Inr s1" "bits_written m B p r s1 (bs @ int_bits 2 x)" by auto
  from writeint_ok [OF 1(2) assms(3)] assms(5) obtain s2 where
    2: "writeint m y 1 s1 = Inr s2" "bits_written m B p r s2 ((bs @ int_bits 2 x) @ int_bits 1 y)"
    by auto
  from writeint_ok [OF 2(2) assms(4)] assms(5) obtain s3 where
    3: "writeint m z w s2 = Inr s3"
      "bits_written m B p r s3 (((bs @ int_bits 2 x) @ int_bits 1 y) @ int_bits w z)" by auto
  from 1 2 3 bits_written_self [OF 2(2)] show ?thesis by auto
qed

lemma repeats_loop_ok:
  "bits_written m B p (int r) s bs \<Longrightarrow> length bs + 8 * r \<le> 4 * B \<Longrightarrow>
   \<exists>s' ts r'. rle_write_repeats_loop m s = Inr s' \<and> r' < 32 \<and> r' \<le> r \<and>
     bits_written m B p (int r') s' (bs @ stream_bits ts) \<and> list_all token_ok ts \<and>
     (\<forall>q. expand q ts = replicate (r - r') q \<and> last_color q ts = q) \<and>
     length (stream_bits ts) \<le> 8 * (r - r')"
proof (induction r arbitrary: s bs rule: less_induct)
  case (less r)
  have rc: "repeat_count s = int r" using less.prems(1) by (simp add: bits_written_self)
  show ?case
  proof (cases "r < 32")
    case True
    with rc have "rle_write_repeats_loop m s = Inr s" by (subst rle_write_repeats_loop.simps) simp
    with True less.prems show ?thesis
      by (intro exI [where x = s] exI [where x = "[]"] exI [where x = r]) simp
  next
    case False
    define k where "k = rle_order 0 (int r)"
    have "int (2 ^ k) \<le> int r"
      using rle_order_fits [of 0 "int r"] False by (simp add: k_def)
    then have k: "k < 16" "2 ^ k \<le> r"
      using rle_order_less [of 0 "int r"] by (simp_all only: of_nat_le_iff k_def)
    have uk: "unat (of_nat k :: 32 word) = k" using k(1) by (simp add: unat_of_nat)
    have "unat (of_nat k :: 32 word) < 2 ^ 4" "length bs + (3 + 4) \<le> 4 * B"
      using uk k(1) less.prems(2) False by simp_all
    from writeint3_ok [OF less.prems(1) _ _ this, of 2 1] obtain s1 s2 s3 where
      w: "writeint m 2 2 s = Inr s1" "writeint m 1 1 s1 = Inr s2" "writeint m (of_nat k) 4 s2 = Inr s3"
      "bits_written m B p (int r) s3 (bs @ token_bits (RepPow k))" by auto
    let ?s = "s3\<lparr>repeat_count := int (r - 2 ^ k)\<rparr>"
    have "bits_written m B p (int (r - 2 ^ k)) ?s (bs @ token_bits (RepPow k))"
      using w(4) by (rule bits_written_count)
    moreover have "(0::nat) < 2 ^ k" by simp
    moreover from this k(2) have "r - 2 ^ k < r" by linarith
    moreover from \<open>0 < 2 ^ k\<close> k(2) have paid: "8 * (r - 2 ^ k) + 7 \<le> 8 * r" by linarith
    moreover have "length (bs @ token_bits (RepPow k)) + 8 * (r - 2 ^ k) \<le> 4 * B"
      using less.prems(2) paid by simp
    ultimately obtain s' ts r' where IH: "rle_write_repeats_loop m ?s = Inr s'" "r' < 32"
      "r' \<le> r - 2 ^ k" "bits_written m B p (int r') s' ((bs @ token_bits (RepPow k)) @ stream_bits ts)"
      "list_all token_ok ts" "\<forall>q. expand q ts = replicate (r - 2 ^ k - r') q \<and> last_color q ts = q"
      "length (stream_bits ts) \<le> 8 * (r - 2 ^ k - r')"
      using less.IH by blast
    have "repeat_count s3 - 2 ^ k = int (r - 2 ^ k)"
      using w(4) k(2) by (simp add: bits_written_self of_nat_diff)
    with IH(1) w rc False have "rle_write_repeats_loop m s = Inr s'"
      by (subst rle_write_repeats_loop.simps) (simp add: k_def Let_def)
    moreover have "r' \<le> r" using IH(3) by simp
    moreover have "replicate (2 ^ k) q @ replicate (r - 2 ^ k - r') q = replicate (r - r') q" for q :: int
      using IH(3) k(2) by (simp flip: replicate_add)
    moreover have "length (stream_bits (RepPow k # ts)) \<le> 8 * (r - r')"
      using IH(3,7) paid by simp
    ultimately show ?thesis using IH k(1)
      by (intro exI [where x = s'] exI [where x = "RepPow k # ts"] exI [where x = r']) simp
  qed
qed

lemma rle_write_flush_ok:
  assumes "bits_written m B p (int r) s bs" "length bs + 8 * r \<le> 4 * B"
  shows "\<exists>s' ts. rle_write_flush m s = Inr s' \<and> bits_written m B p 0 s' (bs @ stream_bits ts) \<and>
    list_all token_ok ts \<and> (\<forall>q. expand q ts = replicate r q \<and> last_color q ts = q) \<and>
    length (stream_bits ts) \<le> 8 * r"
proof (cases "r = 0")
  case True
  with assms show ?thesis
    by (auto simp: rle_write_flush_def bits_written_self intro!: exI [where x = "[]"])
next
  case False
  from repeats_loop_ok [OF assms] obtain s1 ts r' where L: "rle_write_repeats_loop m s = Inr s1"
    "r' < 32" "r' \<le> r" "bits_written m B p (int r') s1 (bs @ stream_bits ts)" "list_all token_ok ts"
    "\<forall>q. expand q ts = replicate (r - r') q \<and> last_color q ts = q"
    "length (stream_bits ts) \<le> 8 * (r - r')" by blast
  have rc: "repeat_count s = int r" "repeat_count s1 = int r'"
    using assms(1) L(4) by (simp_all add: bits_written_self)
  show ?thesis
  proof (cases "r' = 0")
    case True
    with L rc False show ?thesis
      by (intro exI [where x = s1] exI [where x = ts])
        (simp add: rle_write_flush_def rle_write_repeats_def)
  next
    case pos: False
    have u: "unat (of_nat r' :: 32 word) = r'" using L(2) by (simp add: unat_of_nat)
    have "unat (of_nat r' :: 32 word) < 2 ^ 5" "length (bs @ stream_bits ts) + (3 + 5) \<le> 4 * B"
      using u L(2,3,7) assms(2) pos by simp_all
    from writeint3_ok [OF L(4) _ _ this, of 2 0] obtain s2 s3 s4 where
      w: "writeint m 2 2 s1 = Inr s2" "writeint m 0 1 s2 = Inr s3" "writeint m (of_nat r') 5 s3 = Inr s4"
      "repeat_count s3 = int r'"
      "bits_written m B p (int r') s4 ((bs @ stream_bits ts) @ token_bits (Rep r'))" by auto
    with L rc pos False w(1-4) have "rle_write_flush m s = Inr (s4\<lparr>repeat_count := 0\<rparr>)"
      by (simp add: rle_write_flush_def rle_write_repeats_def)
    moreover have "bits_written m B p 0 (s4\<lparr>repeat_count := 0\<rparr>) (bs @ stream_bits (ts @ [Rep r']))"
      using bits_written_count [OF w(5)] by simp
    moreover have "replicate (r - r') q @ replicate r' q = replicate r q" for q :: int
      using L(3) by (simp flip: replicate_add)
    ultimately show ?thesis using L pos
      by (intro exI [where x = "s4\<lparr>repeat_count := 0\<rparr>"] exI [where x = "ts @ [Rep r']"])
        (simp add: expand_append last_color_append)
  qed
qed

text \<open>
  What the writer has accepted: the tokens already in the stream and the pending repeats. The
  potential \<open>8 * repeat_count\<close> pays for a flush, so ten bits per colour are always enough.
\<close>

definition colors_written :: "cmem \<Rightarrow> nat \<Rightarrow> enc \<Rightarrow> int list \<Rightarrow> bool" where
  "colors_written m B s cs \<longleftrightarrow>
     (\<exists>ts r p. bits_written m B p (int r) s (stream_bits ts) \<and> list_all token_ok ts \<and>
        p = last_color 0 ts \<and> cs = expand 0 ts @ replicate r p \<and>
        length (stream_bits ts) + 8 * r \<le> 10 * length cs)"

definition color_cap :: "nat \<Rightarrow> nat" where
  "color_cap B = min (2 ^ 31 - 1) (4 * B div 10)"

lemma rle_init_written: "bits_written m B p r s [] \<Longrightarrow> colors_written m B (rle_init s) []"
  unfolding colors_written_def
  by (intro exI [where x = "[]"] exI [where x = 0]) (auto simp: rle_init_def bits_written_def)

lemma writecolor_law:
  assumes "colors_written m B s cs" "good_color c" "length cs < color_cap B"
  shows "\<exists>s'. writecolor m c s = Inr s' \<and> colors_written m B s' (cs @ [c])"
proof -
  from assms(1) obtain ts r p where W: "bits_written m B p (int r) s (stream_bits ts)"
    "list_all token_ok ts" "p = last_color 0 ts" "cs = expand 0 ts @ replicate r p"
    "length (stream_bits ts) + 8 * r \<le> 10 * length cs"
    by (auto simp: colors_written_def)
  from assms(3) have cap: "length cs < 2 ^ 31 - 1" "10 * length cs + 10 \<le> 4 * B"
    by (auto simp: color_cap_def)
  have s: "prev_color s = p" "repeat_count s = int r" using W(1) by (simp_all add: bits_written_self)
  have wc: "writecolor m c s = rle_write m c s"
    using assms(2) by (auto simp: writecolor_def good_color_def)
  show ?thesis
  proof (cases "p = c")
    case True
    have "r \<le> length cs" using W(4) by simp
    with cap(1) have "int r + 1 < 2 ^ 31" by simp
    then have "s32 (int r + 1) = int (Suc r)" by simp
    with True s have "rle_write m c s = Inr (s\<lparr>repeat_count := int (Suc r)\<rparr>)"
      by (simp add: rle_write_def)
    moreover have "colors_written m B (s\<lparr>repeat_count := int (Suc r)\<rparr>) (cs @ [c])"
      unfolding colors_written_def using W True bits_written_count [OF W(1), of "int (Suc r)"]
      by (intro exI [where x = ts] exI [where x = "Suc r"] exI [where x = p])
        (simp add: replicate_append_same)
    ultimately show ?thesis using wc by simp
  next
    case False
    from rle_write_flush_ok [OF W(1)] W(5) cap(2) obtain s1 us where
      F: "rle_write_flush m s = Inr s1" "bits_written m B p 0 s1 (stream_bits ts @ stream_bits us)"
        "list_all token_ok us" "\<forall>q. expand q us = replicate r q \<and> last_color q us = q"
        "length (stream_bits us) \<le> 8 * r" by auto
    have c4: "unat (word_of_int c :: 32 word) < 2 ^ 2" using assms(2) by (auto simp: good_color_def)
    from writeint_ok [OF F(2) c4] F(5) W(5) cap(2) obtain s2 where
      w: "writeint m (word_of_int c) 2 s1 = Inr s2"
        "bits_written m B p 0 s2 (stream_bits (ts @ us @ [Lit c]))" by auto
    have "rle_write m c s = Inr (s2\<lparr>prev_color := c\<rparr>)"
      using False s F(1) w(1) assms(2) by (auto simp: rle_write_def good_color_def)
    moreover have "colors_written m B (s2\<lparr>prev_color := c\<rparr>) (cs @ [c])"
      unfolding colors_written_def using bits_written_prev [OF w(2), of c] W F assms(2)
      by (intro exI [where x = "ts @ us @ [Lit c]"] exI [where x = 0] exI [where x = c])
        (simp add: expand_append last_color_append)
    ultimately show ?thesis using wc by simp
  qed
qed

section \<open>Reading\<close>

definition colors_left :: "enc \<Rightarrow> int list \<Rightarrow> bool" where
  "colors_left s cs \<longleftrightarrow>
     (\<exists>ts r p. bits_left p (int r) s (stream_bits ts) \<and> list_all token_ok ts \<and>
        good_color p \<and> cs = replicate r p @ expand p ts)"

lemma bits_left_self: "bits_left p r s bs \<Longrightarrow> prev_color s = p \<and> repeat_count s = r"
  by (auto simp: bits_left_def)

lemma bits_left_count: "bits_left p r s bs \<Longrightarrow> bits_left p r' (s\<lparr>repeat_count := r'\<rparr>) bs"
  by (auto simp: bits_left_def)

lemma bits_left_prev: "bits_left p r s bs \<Longrightarrow> bits_left p' r (s\<lparr>prev_color := p'\<rparr>) bs"
  by (auto simp: bits_left_def)

text \<open>A repeat token turns into a positive \<open>repeat_count\<close>.\<close>

definition token_count :: "token \<Rightarrow> nat" where
  "token_count t = (case t of Lit c \<Rightarrow> 1 | Rep n \<Rightarrow> n | RepPow k \<Rightarrow> 2 ^ k)"

lemma read_repeat_token:
  assumes "bits_left p r s (token_bits t @ bs)" "token_ok t" "\<forall>c. t \<noteq> Lit c"
  shows "\<exists>s1 rk s2 s3. readint 2 s = Inr (2, s1) \<and> readint 1 s1 = Inr (rk, s2) \<and>
    rle_read_count rk s2 = Inr s3 \<and> bits_left p (int (token_count t)) s3 bs"
proof -
  define y :: "32 word" where "y = (case t of RepPow _ \<Rightarrow> 1 | _ \<Rightarrow> 0)"
  define w :: nat where "w = (case t of RepPow _ \<Rightarrow> 4 | _ \<Rightarrow> 5)"
  define z :: "32 word" where "z = (case t of RepPow k \<Rightarrow> of_nat k | Rep n \<Rightarrow> of_nat n | _ \<Rightarrow> 0)"
  have b: "token_bits t = int_bits 2 2 @ int_bits 1 y @ int_bits w z"
    using assms(3) by (cases t) (auto simp: y_def w_def z_def)
  have z: "unat z < 2 ^ w" "0 < w" "w \<le> 32"
    using assms(2,3) by (cases t; simp add: z_def w_def unat_of_nat)+
  have y: "unat y < 2 ^ 1" by (cases t) (simp_all add: y_def)
  from readint_ok [of p r s 2 2 "int_bits 1 y @ int_bits w z @ bs"] assms(1) b obtain s1 where
    1: "readint 2 s = Inr (2, s1)" "bits_left p r s1 (int_bits 1 y @ int_bits w z @ bs)" by auto
  from readint_ok [OF 1(2) y] obtain s2 where
    2: "readint 1 s1 = Inr (y, s2)" "bits_left p r s2 (int_bits w z @ bs)" by auto
  from readint_ok [OF 2(2) z] obtain s3 where
    3: "readint w s2 = Inr (z, s3)" "bits_left p r s3 bs" by auto
  have "sint (of_nat n :: 32 word) = int n" if "n < 32" for n
    using that by (simp add: signed_of_nat signed_take_bit_int_eq_self)
  then have "rle_read_count y s2 = Inr (s3\<lparr>repeat_count := int (token_count t)\<rparr>)"
    using 3(1) assms(2,3)
    by (cases t) (auto simp: rle_read_count_def y_def w_def z_def token_count_def unat_of_nat)
  with 1 2 3 bits_left_count [OF 3(2)] show ?thesis by auto
qed

lemma rle_read_repeated:
  assumes "colors_left s (c # cs)" "repeat_count s > 0"
  shows "\<exists>s'. rle_read s = Inr (c, s') \<and> colors_left s' cs \<and> good_color c"
proof -
  from assms(1) obtain ts r p where L: "bits_left p (int r) s (stream_bits ts)"
    "list_all token_ok ts" "good_color p" "c # cs = replicate r p @ expand p ts"
    by (auto simp: colors_left_def)
  with assms(2) obtain r' where r: "r = Suc r'" by (cases r) (auto simp: bits_left_self)
  have "colors_left (s\<lparr>repeat_count := int r'\<rparr>) cs"
    unfolding colors_left_def using L r bits_left_count [OF L(1), of "int r'"] by auto
  moreover have "rle_read s = Inr (c, s\<lparr>repeat_count := int r'\<rparr>)"
    using L r by (subst rle_read.simps) (auto simp: bits_left_self)
  ultimately show ?thesis using L r by auto
qed

lemma rle_read_ok:
  assumes "colors_left s (c # cs)"
  shows "\<exists>s'. rle_read s = Inr (c, s') \<and> colors_left s' cs \<and> good_color c"
proof (cases "repeat_count s > 0")
  case True
  with assms show ?thesis by (rule rle_read_repeated)
next
  case False
  from assms obtain ts r p where L: "bits_left p (int r) s (stream_bits ts)"
    "list_all token_ok ts" "good_color p" "c # cs = replicate r p @ expand p ts"
    by (auto simp: colors_left_def)
  with False have r: "r = 0" by (simp add: bits_left_self)
  with L obtain t us where ts: "ts = t # us" by (cases ts) auto
  show ?thesis
  proof (cases "\<exists>d. t = Lit d")
    case True
    with L r ts have t: "t = Lit c" "good_color c" "cs = expand c us" by auto
    have "unat (word_of_int c :: 32 word) < 2 ^ 2" "sint (word_of_int c :: 32 word) = c"
      using t(2) by (auto simp: good_color_def)
    with readint_ok [of p 0 s 2 "word_of_int c" "stream_bits us"] L(1) ts t r obtain s1 where
      s1: "readint 2 s = Inr (word_of_int c, s1)" "bits_left p 0 s1 (stream_bits us)" by auto
    have "rle_read s = Inr (c, s1\<lparr>prev_color := c\<rparr>)"
      using False s1(1) t(2) \<open>sint (word_of_int c :: 32 word) = c\<close>
      by (subst rle_read.simps) (auto simp: good_color_def Let_def)
    moreover have "colors_left (s1\<lparr>prev_color := c\<rparr>) cs"
      unfolding colors_left_def using bits_left_prev [OF s1(2), of c] L(2) ts t
      by (intro exI [where x = us] exI [where x = 0] exI [where x = c]) auto
    ultimately show ?thesis using t(2) by auto
  next
    case rep: False
    have pos: "0 < token_count t" using L(2) ts rep by (cases t) (auto simp: token_count_def)
    from read_repeat_token [of p "int r" s t "stream_bits us"] L(1,2) ts rep obtain s1 rk s2 s3 where
      R: "readint 2 s = Inr (2, s1)" "readint 1 s1 = Inr (rk, s2)" "rle_read_count rk s2 = Inr s3"
        "bits_left p (int (token_count t)) s3 (stream_bits us)" by auto
    have "colors_left s3 (c # cs)"
      unfolding colors_left_def using R(4) L(2-4) ts rep r
      by (intro exI [where x = us] exI [where x = "token_count t"] exI [where x = p])
        (cases t; simp add: token_count_def)
    moreover have "repeat_count s3 > 0" using R(4) pos by (simp add: bits_left_self)
    moreover have "rle_read s = rle_read s3"
      using False R \<open>repeat_count s3 > 0\<close> by (subst rle_read.simps) (simp add: Let_def)
    ultimately show ?thesis using rle_read_repeated by simp
  qed
qed

lemma readcolor_law:
  assumes "colors_left s (c # cs)"
  shows "\<exists>s'. readcolor s = Inr (c, s') \<and> colors_left s' cs"
  using rle_read_ok [OF assms] by (auto simp: readcolor_def good_color_def)

section \<open>The colours form a channel\<close>

definition rle_turn :: "cmem \<Rightarrow> enc \<Rightarrow> c_fault + enc" where
  "rle_turn m s = rbind (rle_write_flush m s) (\<lambda>s. Inr (rle_init s))"

lemma rle_turn_law:
  assumes "colors_written m B s cs" "length cs \<le> color_cap B"
  shows "\<exists>s'. rle_turn m s = Inr s' \<and> colors_left s' cs"
proof -
  from assms(1) obtain ts r p where W: "bits_written m B p (int r) s (stream_bits ts)"
    "list_all token_ok ts" "p = last_color 0 ts" "cs = expand 0 ts @ replicate r p"
    "length (stream_bits ts) + 8 * r \<le> 10 * length cs"
    by (auto simp: colors_written_def)
  from assms(2) W(5) have "length (stream_bits ts) + 8 * r \<le> 4 * B"
    by (auto simp: color_cap_def)
  from rle_write_flush_ok [OF W(1) this] obtain s1 us where
    F: "rle_write_flush m s = Inr s1" "bits_written m B p 0 s1 (stream_bits (ts @ us))"
      "list_all token_ok us" "\<forall>q. expand q us = replicate r q \<and> last_color q us = q" by auto
  have "bits_left 0 0 (rle_init s1) (stream_bits (ts @ us))"
    using bits_turn [OF F(2)] by (auto simp: rle_init_def bits_left_def)
  then have "colors_left (rle_init s1) cs"
    unfolding colors_left_def using W F
    by (intro exI [where x = "ts @ us"] exI [where x = 0])
      (auto simp: good_color_def expand_append)
  with F(1) show ?thesis by (simp add: rle_turn_def)
qed

interpretation colors: channel "writecolor m" good_color
  "\<lambda>s cs. colors_written m B s cs \<and> length cs \<le> color_cap B" "color_cap B" readcolor colors_left
  "rle_turn m"
  for m B
  by unfold_locales (auto dest: writecolor_law readcolor_law rle_turn_law)

lemma rle_read_flush_ok:
  assumes "colors_left s []"
  shows "rle_read_flush s = Inr s"
proof -
  from assms obtain ts r p where L: "bits_left p (int r) s (stream_bits ts)"
    "list_all token_ok ts" "replicate r p @ expand p ts = []" by (auto simp: colors_left_def)
  then have r: "r = 0" "ts = []"
    by (auto elim: expand.elims) 
  with L(1) show ?thesis
    by (auto simp: rle_read_flush_def bits_left_def bitarr.contents_def)
qed

lemma put_all_written:
  assumes "colors_written m B s []" "list_all good_color cs" "length cs \<le> color_cap B"
  shows "\<exists>s'. put_all (writecolor m) cs s = Inr s' \<and> colors_written m B s' cs"
  using colors.put_all_ok [of m B s "[]" cs] assms by auto

section \<open>Properties\<close>

text \<open>C5: the colours of the visited blocks come back unchanged and in the order in which they were
  written, with nothing left over: \<open>c_objsize\<close> may walk the heap a second time and hand every block
  the next colour of the stream. It holds for every list of up to \<open>color_cap B\<close> colours, where \<open>B\<close>
  is the largest block the allocator serves.\<close>

theorem colors_round_trip:
  assumes "mem_upto m B" "colors s = None" "list_all good_color cs" "length cs \<le> color_cap B"
  shows "\<exists>s0 s1 s2 s3. colors_init m s = Inr s0 \<and>
    put_all (writecolor m) cs (rle_init s0) = Inr s1 \<and> rle_write_flush m s1 = Inr s2 \<and>
    get_n readcolor (length cs) (rle_init s2) = Inr (cs, s3) \<and> rle_read_flush s3 = Inr s3"
proof -
  from colors_init_ok [OF assms(1,2)] obtain s0 where
    0: "colors_init m s = Inr s0" "colors_written m B (rle_init s0) []"
    by (blast intro: rle_init_written)
  from colors.deliver [of m B "rle_init s0" cs] 0(2) assms(3,4) obtain s1 s2 s3 where
    "put_all (writecolor m) cs (rle_init s0) = Inr s1" "rle_turn m s1 = Inr s2"
    "get_n readcolor (length cs) s2 = Inr (cs, s3)" "colors_left s3 []" by auto
  with 0(1) rle_read_flush_ok [of s3] show ?thesis by (auto simp: rle_turn_def rbind_Inr_iff)
qed

definition fresh_enc :: enc where
  "fresh_enc = \<lparr>colors = None, colors_bitcap = 0, colors_writeindex = 0, colors_readindex = 0,
     prev_color = 0, repeat_count = 0\<rparr>"

theorem colors_round_trip_witness:
  "\<exists>s0 s1 s2 s3. colors_init small_mem fresh_enc = Inr s0 \<and>
    put_all (writecolor small_mem) [0, 0, 3, 1, 1, 1] (rle_init s0) = Inr s1 \<and>
    rle_write_flush small_mem s1 = Inr s2 \<and>
    get_n readcolor (length [0, 0, 3, 1, 1, 1 :: int]) (rle_init s2) = Inr ([0, 0, 3, 1, 1, 1], s3) \<and>
    rle_read_flush s3 = Inr s3"
  by (rule colors_round_trip [OF mem_upto_small])
    (simp_all add: fresh_enc_def good_color_def color_cap_def)

text \<open>The coded stream takes at most ten bits per colour, so a walk over \<open>n\<close> blocks needs no more
  than \<open>10 * n\<close> bits of the buffer.\<close>

lemma stream_size_bound:
  assumes "mem_upto m B" "colors s = None" "list_all good_color cs" "length cs \<le> color_cap B"
  shows "\<exists>s0 s1 s2. colors_init m s = Inr s0 \<and>
    put_all (writecolor m) cs (rle_init s0) = Inr s1 \<and> rle_write_flush m s1 = Inr s2 \<and>
    colors_writeindex s2 \<le> 10 * length cs"
proof -
  from colors_init_ok [OF assms(1,2)] obtain s0 where
    0: "colors_init m s = Inr s0" "colors_written m B (rle_init s0) []"
    by (blast intro: rle_init_written)
  from put_all_written [OF 0(2) assms(3,4)] obtain s1 where
    1: "put_all (writecolor m) cs (rle_init s0) = Inr s1" "colors_written m B s1 cs" by blast
  then obtain ts r p where W: "bits_written m B p (int r) s1 (stream_bits ts)"
    "length (stream_bits ts) + 8 * r \<le> 10 * length cs" by (auto simp: colors_written_def)
  moreover from this assms(4) have "length (stream_bits ts) + 8 * r \<le> 4 * B"
    by (auto simp: color_cap_def)
  ultimately obtain s2 us where "rle_write_flush m s1 = Inr s2"
    "bits_written m B p 0 s2 (stream_bits ts @ stream_bits us)" "length (stream_bits us) \<le> 8 * r"
    using rle_write_flush_ok by meson
  with 0 1 W(2) show ?thesis by (auto simp: bits_written_def)
qed

lemma stream_size_bound_example:
  "\<exists>s0 s1 s2. colors_init small_mem fresh_enc = Inr s0 \<and>
    put_all (writecolor small_mem) [3, 3, 0] (rle_init s0) = Inr s1 \<and>
    rle_write_flush small_mem s1 = Inr s2 \<and> colors_writeindex s2 \<le> 10 * length [3, 3, 0 :: int]"
  by (rule stream_size_bound [OF mem_upto_small])
    (simp_all add: fresh_enc_def good_color_def color_cap_def)

end
