(* ===== verification/ObjHeap.thy ===== *)
theory ObjHeap imports Rle begin

text \<open>
  The OCaml heap as libs/objsize/c_objsize.c sees it: header words and their colour bits, blocks and
  their fields, and the page table that tells which pointers lead into the heap.
\<close>

section \<open>Header words\<close>

definition Caml_black :: "64 word" where "Caml_black = push_bit 8 3"

definition Colornum_hd :: "64 word \<Rightarrow> int" where
  "Colornum_hd h = uint (drop_bit 8 h AND 3)"

definition Coloredhd_hd :: "64 word \<Rightarrow> int \<Rightarrow> 64 word" where
  "Coloredhd_hd h colnum = (h AND NOT Caml_black) OR push_bit 8 (word_of_int colnum)"

lemma Colornum_range: "0 \<le> Colornum_hd h" "Colornum_hd h \<le> 3"
proof -
  have "drop_bit 8 h AND 3 \<le> 3" by (rule word_and_le1)
  then show "Colornum_hd h \<le> 3" by (simp add: Colornum_hd_def word_le_def)
qed (simp add: Colornum_hd_def)

lemma bit_3: "bit (3 :: 64 word) n \<longleftrightarrow> n < 2"
proof -
  have "(3 :: 64 word) = mask 2" by (simp add: mask_eq_exp_minus_1)
  then show ?thesis by (simp only: bit_mask_iff) auto
qed

lemma color_word: "0 \<le> c \<Longrightarrow> c \<le> 3 \<Longrightarrow> (word_of_int c :: 64 word) = word_of_int c AND 3"
proof -
  assume "0 \<le> c" "c \<le> 3"
  then consider "c = 0" | "c = 1" | "c = 2" | "c = 3" by linarith
  then show ?thesis by cases simp_all
qed

lemma bit_color_word:
  "0 \<le> c \<Longrightarrow> c \<le> 3 \<Longrightarrow> bit (word_of_int c :: 64 word) n \<Longrightarrow> n < 2"
  by (metis bit_3 bit_and_iff color_word)

lemma bit_Caml_black: "bit Caml_black n \<longleftrightarrow> n = 8 \<or> n = 9"
  unfolding Caml_black_def bit_push_bit_iff bit_3 by auto

lemma bit_off_black: "bit (h AND NOT Caml_black) n \<longleftrightarrow> bit h n \<and> n \<noteq> 8 \<and> n \<noteq> 9"
  unfolding bit_and_iff bit_not_iff bit_Caml_black using bit_imp_le_length [of h n] by auto

lemma bit_Coloredhd:
  assumes "0 \<le> c" "c \<le> 3"
  shows "bit (Coloredhd_hd h c) n \<longleftrightarrow>
    (if n = 8 \<or> n = 9 then bit (word_of_int c :: 64 word) (n - 8) else bit h n)"
  unfolding Coloredhd_hd_def bit_or_iff bit_off_black bit_push_bit_iff
  using bit_color_word [OF assms, of "n - 8"] by auto

lemma bit_Colornum_word: "bit (drop_bit 8 h AND 3 :: 64 word) n \<longleftrightarrow> n < 2 \<and> bit h (8 + n)"
  unfolding bit_and_iff bit_3 bit_drop_bit_eq by auto

lemma Colornum_Coloredhd:
  assumes "0 \<le> c" "c \<le> 3"
  shows "Colornum_hd (Coloredhd_hd h c) = c"
proof -
  have "drop_bit 8 (Coloredhd_hd h c) AND 3 = (word_of_int c :: 64 word)"
    by (rule bit_word_eqI, unfold bit_Colornum_word bit_Coloredhd [OF assms])
      (auto dest: bit_color_word [OF assms] simp: less_2_cases_iff)
  moreover have "uint (word_of_int c :: 64 word) = c"
    using assms by (simp add: uint_word_of_int)
  ultimately show ?thesis by (simp only: Colornum_hd_def)
qed

lemma Coloredhd_other:
  assumes "0 \<le> c" "c \<le> 3"
  shows "Coloredhd_hd h c AND NOT Caml_black = h AND NOT Caml_black"
  by (rule bit_word_eqI, unfold bit_off_black bit_Coloredhd [OF assms]) auto

lemma Coloredhd_restore:
  assumes "h' AND NOT Caml_black = h AND NOT Caml_black"
  shows "Coloredhd_hd h' (Colornum_hd h) = h"
proof -
  have "bit h' n = bit h n" if "n \<noteq> 8" "n \<noteq> 9" for n
    using that assms by (metis bit_off_black)
  moreover have "word_of_int (Colornum_hd h) = drop_bit 8 h AND 3" by (simp only: Colornum_hd_def word_of_int_uint)
  ultimately show ?thesis
    by (intro bit_word_eqI, unfold bit_Coloredhd [OF Colornum_range]) (auto simp: bit_Colornum_word)
qed

section \<open>Blocks\<close>

text \<open>
  A heap is a list of blocks, an address its index; an access through an immediate value or past
  the list is undefined. The runtime is a parameter: the allocator, the page table
  (\<open>caml_page_table_lookup\<close>), and how a header encodes the size and the tag of its block.
\<close>

datatype val = Imm int | Ptr nat

record block =
  header :: "64 word"
  slots :: "val list"

record crt =
  memory :: cmem
  page_table_lookup :: "nat \<Rightarrow> 32 word"
  Wosize_hd :: "64 word \<Rightarrow> nat"
  Tag_hd :: "64 word \<Rightarrow> nat"
  No_scan_tag :: nat

abbreviation Val_unit :: val where "Val_unit \<equiv> Imm 0"
abbreviation In_heap :: "32 word" where "In_heap \<equiv> 1"
abbreviation In_young :: "32 word" where "In_young \<equiv> 2"

definition is_in_heap_or_young :: "crt \<Rightarrow> nat \<Rightarrow> bool" where
  "is_in_heap_or_young rt a \<longleftrightarrow> page_table_lookup rt a AND (In_heap OR In_young) \<noteq> 0"

definition cond_block :: "crt \<Rightarrow> val \<Rightarrow> bool" where
  "cond_block rt q = (case q of Imm _ \<Rightarrow> False | Ptr a \<Rightarrow> is_in_heap_or_young rt a)"

definition deref :: "block list \<Rightarrow> val \<Rightarrow> c_fault + block" where
  "deref heap v =
     (case v of Imm _ \<Rightarrow> Inl (Undef ''not a block'')
      | Ptr a \<Rightarrow> if a < length heap then Inr (heap ! a) else Inl (Undef ''bad address''))"

definition Hd_val :: "block list \<Rightarrow> val \<Rightarrow> c_fault + 64 word" where
  "Hd_val heap v = rbind (deref heap v) (\<lambda>b. Inr (header b))"

definition Field :: "block list \<Rightarrow> val \<Rightarrow> nat \<Rightarrow> c_fault + val" where
  "Field heap v i = rbind (deref heap v) (\<lambda>b.
     if i < length (slots b) then Inr (slots b ! i) else Inl (Undef ''field out of range''))"

definition store_explicit :: "64 word \<Rightarrow> val \<Rightarrow> int \<Rightarrow> block list \<Rightarrow> c_fault + block list" where
  "store_explicit h v col heap =
     (case v of Imm _ \<Rightarrow> Inl (Undef ''not a block'')
      | Ptr a \<Rightarrow> if a < length heap
                 then Inr (heap[a := (heap ! a)\<lparr>header := Coloredhd_hd h col\<rparr>])
                 else Inl (Undef ''bad address''))"

text \<open>What the runtime documents: size and tag do not depend on the two colour bits.\<close>

definition runtime_ok :: "crt \<Rightarrow> bool" where
  "runtime_ok rt \<longleftrightarrow> (\<forall>h h'. h AND NOT Caml_black = h' AND NOT Caml_black \<longrightarrow>
     Wosize_hd rt h = Wosize_hd rt h' \<and> Tag_hd rt h = Tag_hd rt h')"

lemma runtime_ok_color:
  "runtime_ok rt \<Longrightarrow> 0 \<le> c \<Longrightarrow> c \<le> 3 \<Longrightarrow>
     Wosize_hd rt (Coloredhd_hd h c) = Wosize_hd rt h \<and> Tag_hd rt (Coloredhd_hd h c) = Tag_hd rt h"
  unfolding runtime_ok_def by (blast dest: Coloredhd_other)

section \<open>The heap with some blocks coloured blue\<close>

definition blue_on :: "nat set \<Rightarrow> block list \<Rightarrow> block list" where
  "blue_on A heap = map (\<lambda>a. if a \<in> A
     then (heap ! a)\<lparr>header := Coloredhd_hd (header (heap ! a)) Col_blue\<rparr> else heap ! a) [0..<length heap]"

lemma blue_on_simps [simp]:
  "length (blue_on A heap) = length heap"
  "a < length heap \<Longrightarrow> slots (blue_on A heap ! a) = slots (heap ! a)"
  by (auto simp: blue_on_def)

lemma blue_on_empty [simp]: "blue_on {} heap = heap"
  by (simp add: blue_on_def map_nth)

lemma header_blue_on:
  "a < length heap \<Longrightarrow> header (blue_on A heap ! a) =
     (if a \<in> A then Coloredhd_hd (header (heap ! a)) Col_blue else header (heap ! a))"
  by (simp add: blue_on_def)

definition color_of :: "block list \<Rightarrow> nat \<Rightarrow> int" where
  "color_of heap a = Colornum_hd (header (heap ! a))"

definition no_blue :: "block list \<Rightarrow> bool" where
  "no_blue heap \<longleftrightarrow> (\<forall>b \<in> set heap. Colornum_hd (header b) \<noteq> Col_blue)"

lemma color_blue_on:
  "no_blue heap \<Longrightarrow> a < length heap \<Longrightarrow>
     Colornum_hd (header (blue_on A heap ! a)) = Col_blue \<longleftrightarrow> a \<in> A"
  by (auto simp: header_blue_on Colornum_Coloredhd no_blue_def)

lemma color_unmarked:
  "a < length heap \<Longrightarrow> a \<notin> A \<Longrightarrow> Colornum_hd (header (blue_on A heap ! a)) = color_of heap a"
  by (simp add: header_blue_on color_of_def)

lemma good_color_of: "no_blue heap \<Longrightarrow> a < length heap \<Longrightarrow> good_color (color_of heap a)"
proof -
  assume "no_blue heap" "a < length heap"
  then have "color_of heap a \<noteq> 2" by (simp add: no_blue_def color_of_def)
  moreover have "0 \<le> color_of heap a" "color_of heap a \<le> 3"
    by (simp_all add: color_of_def Colornum_range)
  ultimately show ?thesis unfolding good_color_def by linarith
qed

lemma mark_blue:
  "a < length heap \<Longrightarrow> a \<notin> A \<Longrightarrow>
     store_explicit (header (blue_on A heap ! a)) (Ptr a) Col_blue (blue_on A heap) =
     Inr (blue_on (insert a A) heap)"
  by (auto simp: store_explicit_def blue_on_def intro!: nth_equalityI simp: nth_list_update)

lemma unmark_blue:
  assumes "a < length heap" "a \<in> A"
  shows "store_explicit (header (blue_on A heap ! a)) (Ptr a) (color_of heap a) (blue_on A heap) =
     Inr (blue_on (A - {a}) heap)"
proof -
  have "Coloredhd_hd (header (blue_on A heap ! a)) (color_of heap a) = header (heap ! a)"
    using assms unfolding color_of_def
    by (intro Coloredhd_restore) (simp add: header_blue_on Coloredhd_other)
  then show ?thesis using assms
    by (auto simp: store_explicit_def intro!: nth_equalityI simp: nth_list_update blue_on_def)
qed

lemma Hd_val_blue_on [simp]:
  "a < length heap \<Longrightarrow> Hd_val (blue_on A heap) (Ptr a) = Inr (header (blue_on A heap ! a))"
  by (simp add: Hd_val_def deref_def)

lemma Field_blue_on: "Field (blue_on A heap) v i = Field heap v i"
  by (auto simp: Field_def deref_def split: val.split)

lemma sizes_blue_on:
  assumes "runtime_ok rt" "a < length heap"
  shows "Wosize_hd rt (header (blue_on A heap ! a)) = Wosize_hd rt (header (heap ! a))"
    and "Tag_hd rt (header (blue_on A heap ! a)) = Tag_hd rt (header (heap ! a))"
  using runtime_ok_color [OF assms(1), of 2] assms(2) by (simp_all add: header_blue_on)

end
