(* ===== verification/Dfs.thy ===== *)
theory Dfs imports Main begin

text \<open>
  Depth-first traversal of a finite graph as a specification: \<open>visit adj U d v ord\<close> says that the
  traversal from \<open>v\<close> at depth \<open>d\<close>, restricted to the unvisited nodes \<open>U\<close>, meets the nodes \<open>ord\<close>
  (with their depths) in that order. It always exists, it lists exactly the nodes reachable inside
  \<open>U\<close>, each once, and shrinking \<open>U\<close> to a superset of the visited nodes changes nothing.
\<close>

inductive visit :: "('a \<Rightarrow> 'a list) \<Rightarrow> 'a set \<Rightarrow> nat \<Rightarrow> 'a \<Rightarrow> ('a \<times> nat) list \<Rightarrow> bool"
  and visits :: "('a \<Rightarrow> 'a list) \<Rightarrow> 'a set \<Rightarrow> nat \<Rightarrow> 'a list \<Rightarrow> ('a \<times> nat) list \<Rightarrow> bool"
  for adj where
  node: "v \<in> U \<Longrightarrow> visits adj (U - {v}) (Suc d) (adj v) ord \<Longrightarrow> visit adj U d v ((v, d) # ord)"
| nil: "visits adj U d [] []"
| skip: "c \<notin> U \<Longrightarrow> visits adj U d cs ord \<Longrightarrow> visits adj U d (c # cs) ord"
| go: "c \<in> U \<Longrightarrow> visit adj U d c o1 \<Longrightarrow> visits adj (U - fst ` set o1) d cs o2 \<Longrightarrow>
       visits adj U d (c # cs) (o1 @ o2)"

inductive_simps visit_iff: "visit adj U d v ord"
inductive_cases visitE: "visit adj U d v ord"

inductive reach_in :: "('a \<Rightarrow> 'a list) \<Rightarrow> 'a set \<Rightarrow> 'a \<Rightarrow> 'a \<Rightarrow> bool" for adj U v where
  start: "v \<in> U \<Longrightarrow> reach_in adj U v v"
| edge: "reach_in adj U v x \<Longrightarrow> y \<in> set (adj x) \<Longrightarrow> y \<in> U \<Longrightarrow> reach_in adj U v y"

lemma visit_nodes:
  "visit adj U d v ord \<Longrightarrow> v \<in> fst ` set ord \<and> fst ` set ord \<subseteq> U"
  "visits adj U d cs ord \<Longrightarrow> fst ` set ord \<subseteq> U"
  by (induction rule: visit_visits.inducts) auto

lemma visit_distinct:
  "visit adj U d v ord \<Longrightarrow> distinct (map fst ord)"
  "visits adj U d cs ord \<Longrightarrow> distinct (map fst ord)"
proof (induction rule: visit_visits.inducts)
  case (node v U d ord)
  then show ?case using visit_nodes(2) [of adj "U - {v}"] by force
next
  case (go c U d o1 cs o2)
  then show ?case using visit_nodes(2) [OF go.IH(3)] by auto
qed simp_all

lemma visit_exists:
  assumes "finite U"
  shows "(v \<in> U \<longrightarrow> (\<exists>ord. visit adj U d v ord)) \<and> (\<exists>ord. visits adj U d cs ord)"
  using assms
proof (induction U arbitrary: v d cs rule: finite_psubset_induct)
  case (psubset U)
  have one: "\<exists>ord. visit adj U d c ord" if "c \<in> U" for c d
    using psubset.IH [of "U - {c}" c "Suc d" "adj c"] that by (auto intro: visit_visits.node)
  have "\<exists>ord. visits adj U d cs ord"
  proof (induction cs)
    case Nil
    show ?case by (auto intro: visit_visits.nil)
  next
    case (Cons c cs)
    show ?case
    proof (cases "c \<in> U")
      case True
      then obtain o1 where o1: "visit adj U d c o1" using one by blast
      from visit_nodes(1) [OF o1] True have "U - fst ` set o1 \<subset> U" by auto
      from psubset.IH [OF this, of c d cs] obtain o2
        where "visits adj (U - fst ` set o1) d cs o2" by blast
      with True o1 show ?thesis by (blast intro: visit_visits.go)
    next
      case False
      with Cons.IH show ?thesis by (blast intro: visit_visits.skip)
    qed
  qed
  with one show ?case by blast
qed

text \<open>Everything a visited node points to, inside \<open>U\<close>, is visited too.\<close>

lemma visit_closed:
  "visit adj U d v ord \<Longrightarrow> \<forall>x \<in> fst ` set ord. set (adj x) \<inter> U \<subseteq> fst ` set ord"
  "visits adj U d cs ord \<Longrightarrow> set cs \<inter> U \<subseteq> fst ` set ord \<and>
     (\<forall>x \<in> fst ` set ord. set (adj x) \<inter> U \<subseteq> fst ` set ord)"
proof (induction rule: visit_visits.inducts)
  case (go c U d o1 cs o2)
  from visit_nodes(1) [OF go.IH(1)] have "c \<in> fst ` set o1" by blast
  with go.IH show ?case unfolding set_append image_Un by auto
qed auto

lemma visit_reachable:
  "visit adj U d v ord \<Longrightarrow> w \<in> fst ` set ord \<Longrightarrow> reach_in adj U v w"
  "visits adj U d cs ord \<Longrightarrow> w \<in> fst ` set ord \<Longrightarrow> \<exists>c \<in> set cs. c \<in> U \<and> reach_in adj U c w"
proof (induction arbitrary: w and w rule: visit_visits.inducts)
  case (node v U d ord)
  show ?case
  proof (cases "w = v")
    case True
    with node.hyps(1) show ?thesis by (simp add: reach_in.start)
  next
    case False
    with node.prems have "w \<in> fst ` set ord" by auto
    then obtain c where c: "c \<in> set (adj v)" "c \<in> U" "reach_in adj (U - {v}) c w"
      using node.IH(2) by blast
    from c(3) show ?thesis
    proof (induction rule: reach_in.induct)
      case start
      from node.hyps(1) c(1,2) show ?case by (blast intro: reach_in.intros)
    next
      case (edge x y)
      then show ?case by (blast intro: reach_in.edge)
    qed
  qed
next
  case (go c U d o1 cs o2)
  from go.prems consider "w \<in> fst ` set o1" | "w \<in> fst ` set o2" by auto
  then show ?case
  proof cases
    case 1
    with go.IH(2) go.hyps(1) show ?thesis by auto
  next
    case 2
    then obtain e where e: "e \<in> set cs" "e \<in> U" "reach_in adj (U - fst ` set o1) e w"
      using go.IH(4) by blast
    from e(3) have "reach_in adj U e w"
      by (induction rule: reach_in.induct) (use e(2) in \<open>auto intro: reach_in.intros\<close>)
    with e show ?thesis by auto
  qed
qed auto

theorem visit_set:
  assumes "visit adj U d v ord"
  shows "fst ` set ord = {w. reach_in adj U v w}"
proof
  show "fst ` set ord \<subseteq> {w. reach_in adj U v w}" using visit_reachable(1) [OF assms] by blast
  have "w \<in> fst ` set ord" if "reach_in adj U v w" for w
    using that
  proof (induction rule: reach_in.induct)
    case start
    show ?case using visit_nodes(1) [OF assms] by blast
  next
    case (edge x y)
    then show ?case using visit_closed(1) [OF assms] by blast
  qed
  then show "{w. reach_in adj U v w} \<subseteq> fst ` set ord" by blast
qed

text \<open>Only the visited part of \<open>U\<close> matters.\<close>

lemma visit_restrict:
  "visit adj U d v ord \<Longrightarrow> fst ` set ord \<subseteq> S \<Longrightarrow> visit adj (U \<inter> S) d v ord"
  "visits adj U d cs ord \<Longrightarrow> fst ` set ord \<subseteq> S \<Longrightarrow> visits adj (U \<inter> S) d cs ord"
proof (induction arbitrary: S and S rule: visit_visits.inducts)
  case (node v U d ord)
  have "visits adj ((U - {v}) \<inter> S) (Suc d) (adj v) ord" using node.prems by (intro node.IH(2)) auto
  moreover have "(U - {v}) \<inter> S = U \<inter> S - {v}" by blast
  ultimately show ?case using node.hyps(1) node.prems by (auto intro: visit_visits.node)
next
  case (go c U d o1 cs o2)
  have "visit adj (U \<inter> S) d c o1" using go.prems by (intro go.IH(2)) auto
  moreover have "visits adj ((U - fst ` set o1) \<inter> S) d cs o2" using go.prems by (intro go.IH(4)) auto
  moreover have "(U - fst ` set o1) \<inter> S = U \<inter> S - fst ` set o1" by blast
  moreover have "c \<in> S" using visit_nodes(1) [OF go.IH(1)] go.prems by auto
  ultimately show ?case using go.hyps(1) by (auto intro: visit_visits.go)
qed (auto intro: visit_visits.nil visit_visits.skip)

text \<open>Depths stay below the number of visited nodes.\<close>

lemma visit_depth:
  "visit adj U d v ord \<Longrightarrow> \<forall>(x, e) \<in> set ord. d \<le> e \<and> e < d + length ord"
  "visits adj U d cs ord \<Longrightarrow> \<forall>(x, e) \<in> set ord. d \<le> e \<and> e < d + length ord"
  by (induction rule: visit_visits.inducts) fastforce+

end
