(* ===== verification/ObjWalk.thy ===== *)
theory ObjWalk imports ObjHeap Dfs begin

text \<open>
  The two recursive walks of libs/objsize/c_objsize.c: \<open>c_rec_objsize\<close> marks a block blue, records
  its colour and goes on to the fields that are unmarked blocks of the heap; \<open>restore_colors\<close> walks
  the same way and gives every block its colour back. Both follow \<open>Dfs.visit\<close>.
\<close>

section \<open>The walks\<close>

record objs =
  g_enc :: enc
  g_heap :: "block list"
  acc_hdrs :: "64 word"
  acc_data :: "64 word"
  acc_depth :: "64 word"

definition cond_notvisited :: "(int \<Rightarrow> bool) \<Rightarrow> val \<Rightarrow> objs \<Rightarrow> c_fault + bool" where
  "cond_notvisited p v s = rbind (Hd_val (g_heap s) v) (\<lambda>h. Inr (p (Colornum_hd h)))"

text \<open>\<open>GEN_COND_NOTVISITED\<close> with \<open>!= Col_blue\<close> and with \<open>== Col_blue\<close>.\<close>

abbreviation entering :: "int \<Rightarrow> bool" where "entering \<equiv> \<lambda>c. c \<noteq> Col_blue"
abbreviation restoring :: "int \<Rightarrow> bool" where "restoring \<equiv> \<lambda>c. c = Col_blue"

text \<open>
  The macro REC_WALK: a block found among the fields is visited when the next one is found, the
  last one after the loop (there the code jumps instead of calling). No statement of the loop
  writes a field, so the fields still to be looked at are passed as a list.
\<close>

definition walk_block ::
  "(int \<Rightarrow> bool) \<Rightarrow> (val \<Rightarrow> objs \<Rightarrow> c_fault + objs) \<Rightarrow> val \<Rightarrow> objs \<Rightarrow> c_fault + objs" where
  "walk_block p rec_call prev s =
     (if prev \<noteq> Val_unit
      then rbind (cond_notvisited p prev s) (\<lambda>b. if b then rec_call prev s else Inr s)
      else Inr s)"

fun rec_walk ::
  "crt \<Rightarrow> (int \<Rightarrow> bool) \<Rightarrow> (val \<Rightarrow> objs \<Rightarrow> c_fault + objs) \<Rightarrow> val list \<Rightarrow> val \<Rightarrow> objs \<Rightarrow> c_fault + objs" where
  "rec_walk rt p rec_call [] prev s = walk_block p rec_call prev s"
| "rec_walk rt p rec_call (f # fs) prev s =
     (if cond_block rt f
      then rbind (walk_block p rec_call prev s) (rec_walk rt p rec_call fs f)
      else rec_walk rt p rec_call fs prev s)"

fun read_fields :: "block list \<Rightarrow> val \<Rightarrow> nat \<Rightarrow> nat \<Rightarrow> c_fault + val list" where
  "read_fields heap v i 0 = Inr []"
| "read_fields heap v i (Suc n) =
     rbind (Field heap v i) (\<lambda>f. rbind (read_fields heap v (Suc i) n) (\<lambda>fs. Inr (f # fs)))"

fun c_rec_objsize :: "crt \<Rightarrow> nat \<Rightarrow> 64 word \<Rightarrow> val \<Rightarrow> objs \<Rightarrow> c_fault + objs" where
  "c_rec_objsize rt 0 depth v s = Inl Fuel"
| "c_rec_objsize rt (Suc fuel) depth v s =
     rbind (Hd_val (g_heap s) v) (\<lambda>h.
       let sz = Wosize_hd rt h; col = Colornum_hd h;
           s = s\<lparr>acc_data := acc_data s + of_nat sz, acc_hdrs := acc_hdrs s + 1,
                 acc_depth := if depth > acc_depth s then depth else acc_depth s\<rparr>
       in rbind (writecolor (memory rt) col (g_enc s)) (\<lambda>e.
          rbind (store_explicit h v Col_blue (g_heap s)) (\<lambda>heap.
          let s = s\<lparr>g_enc := e, g_heap := heap\<rparr>
          in rbind (Hd_val heap v) (\<lambda>h.
             if Tag_hd rt h < No_scan_tag rt
             then rbind (read_fields heap v 0 sz) (\<lambda>fs.
                  rec_walk rt entering (c_rec_objsize rt fuel (depth + 1)) fs Val_unit s)
             else Inr s))))"

fun restore_colors :: "crt \<Rightarrow> nat \<Rightarrow> val \<Rightarrow> objs \<Rightarrow> c_fault + objs" where
  "restore_colors rt 0 v s = Inl Fuel"
| "restore_colors rt (Suc fuel) v s =
     rbind (readcolor (g_enc s)) (\<lambda>(col, e).
     rbind (Hd_val (g_heap s) v) (\<lambda>h.
     rbind (store_explicit h v col (g_heap s)) (\<lambda>heap.
       let s = s\<lparr>g_enc := e, g_heap := heap\<rparr>
       in rbind (Hd_val heap v) (\<lambda>h.
          if Tag_hd rt h < No_scan_tag rt
          then rbind (read_fields heap v 0 (Wosize_hd rt h)) (\<lambda>fs.
               rec_walk rt restoring (restore_colors rt fuel) fs Val_unit s)
          else Inr s))))"

section \<open>The walk over the fields as a sequence of visits\<close>

fun walk_seq ::
  "(int \<Rightarrow> bool) \<Rightarrow> (val \<Rightarrow> objs \<Rightarrow> c_fault + objs) \<Rightarrow> val list \<Rightarrow> objs \<Rightarrow> c_fault + objs" where
  "walk_seq p rec_call [] s = Inr s"
| "walk_seq p rec_call (v # vs) s = rbind (walk_block p rec_call v s) (walk_seq p rec_call vs)"

lemma walk_seq_single: "walk_seq p f [v] s = walk_block p f v s"
proof -
  have "rbind r Inr = r" for r :: "c_fault + objs" by (cases r) auto
  moreover have "walk_seq p f [] = Inr" by auto
  ultimately show ?thesis by simp
qed

lemma cond_block_not_unit: "cond_block rt f \<Longrightarrow> f \<noteq> Val_unit"
  by (auto simp: cond_block_def)

lemma rec_walk_seq:
  "rec_walk rt p f fs prev s = walk_seq p f (prev # filter (cond_block rt) fs) s"
proof (induction fs arbitrary: prev s)
  case Nil
  then show ?case using walk_seq_single by simp
next
  case (Cons g fs)
  show ?case
  proof (cases "cond_block rt g")
    case True
    then have "rec_walk rt p f (g # fs) prev s =
      rbind (walk_block p f prev s) (walk_seq p f (g # filter (cond_block rt) fs))"
      using Cons.IH by (auto intro: rbind_cong)
    with True show ?thesis by simp
  next
    case False
    then show ?thesis using Cons.IH [of prev s] by simp
  qed
qed

lemma rec_walk_from_unit:
  "rec_walk rt p f fs Val_unit s = walk_seq p f (filter (cond_block rt) fs) s"
  by (simp add: rec_walk_seq walk_block_def)

section \<open>Well-formed heaps and their graph\<close>

definition heap_ok :: "crt \<Rightarrow> block list \<Rightarrow> bool" where
  "heap_ok rt heap \<longleftrightarrow>
     (\<forall>b \<in> set heap. Tag_hd rt (header b) < No_scan_tag rt \<longrightarrow>
        Wosize_hd rt (header b) \<le> length (slots b) \<and>
        (\<forall>a. Ptr a \<in> set (take (Wosize_hd rt (header b)) (slots b)) \<and> is_in_heap_or_young rt a
             \<longrightarrow> a < length heap))"

definition block_addrs :: "crt \<Rightarrow> val list \<Rightarrow> nat list" where
  "block_addrs rt vs = concat (map (\<lambda>v. case v of Imm _ \<Rightarrow> []
     | Ptr a \<Rightarrow> if is_in_heap_or_young rt a then [a] else []) vs)"

definition children :: "crt \<Rightarrow> block list \<Rightarrow> nat \<Rightarrow> nat list" where
  "children rt heap a =
     (let h = header (heap ! a)
      in if a < length heap \<and> Tag_hd rt h < No_scan_tag rt
         then block_addrs rt (take (Wosize_hd rt h) (slots (heap ! a))) else [])"

lemma filter_block_addrs: "filter (cond_block rt) vs = map Ptr (block_addrs rt vs)"
  by (induction vs) (auto simp: block_addrs_def cond_block_def split: val.splits)

lemma in_block_addrs: "a \<in> set (block_addrs rt vs) \<longleftrightarrow> Ptr a \<in> set vs \<and> is_in_heap_or_young rt a"
  by (auto simp: block_addrs_def split: val.splits if_splits)

lemma children_bound: "heap_ok rt heap \<Longrightarrow> c \<in> set (children rt heap a) \<Longrightarrow> c < length heap"
  by (auto simp: heap_ok_def children_def in_block_addrs Let_def split: if_splits)

lemma read_fields_blue_on: "read_fields (blue_on A heap) v i n = read_fields heap v i n"
  by (induction n arbitrary: i) (simp_all add: Field_blue_on)

lemma read_fields_ok:
  "a < length heap \<Longrightarrow> i + n \<le> length (slots (heap ! a)) \<Longrightarrow>
     read_fields heap (Ptr a) i n = Inr (take n (drop i (slots (heap ! a))))"
proof (induction n arbitrary: i)
  case (Suc n)
  then have "i < length (slots (heap ! a))" by simp
  then have "drop i (slots (heap ! a)) = slots (heap ! a) ! i # drop (Suc i) (slots (heap ! a))"
    by (simp add: Cons_nth_drop_Suc)
  with Suc show ?case by (simp add: Field_def deref_def)
qed simp

lemma children_nil:
  "a < length heap \<Longrightarrow> \<not> Tag_hd rt (header (heap ! a)) < No_scan_tag rt \<Longrightarrow> children rt heap a = []"
  by (simp add: children_def)

text \<open>Both walks look at exactly the children of the block.\<close>

lemma walk_children:
  assumes "heap_ok rt heap" "a < length heap" "Tag_hd rt (header (heap ! a)) < No_scan_tag rt"
  shows "\<exists>fs. read_fields heap (Ptr a) 0 (Wosize_hd rt (header (heap ! a))) = Inr fs \<and>
    filter (cond_block rt) fs = map Ptr (children rt heap a)"
proof -
  have "Wosize_hd rt (header (heap ! a)) \<le> length (slots (heap ! a))"
    using assms by (simp add: heap_ok_def)
  with read_fields_ok [OF assms(2), of 0] assms show ?thesis
    by (auto simp: filter_block_addrs children_def Let_def)
qed

section \<open>The marking walk follows the depth-first traversal\<close>

lemma walk_block_blue_on:
  "c < length heap \<Longrightarrow> g_heap s = blue_on A heap \<Longrightarrow>
     walk_block p f (Ptr c) s =
     (if p (Colornum_hd (header (blue_on A heap ! c))) then f (Ptr c) s else Inr s)"
  by (simp add: walk_block_def cond_notvisited_def)

definition block_size :: "crt \<Rightarrow> block list \<Rightarrow> nat \<Rightarrow> nat" where
  "block_size rt heap a = Wosize_hd rt (header (heap ! a))"

text \<open>
  The state after the blocks \<open>ss\<close> were marked without being counted and the walk then visited
  \<open>tr\<close>: what is blue, what the stream holds, and the three counters.
\<close>

definition entry_state ::
  "crt \<Rightarrow> nat \<Rightarrow> block list \<Rightarrow> nat list \<Rightarrow> (nat \<times> nat) list \<Rightarrow> objs \<Rightarrow> bool" where
  "entry_state rt B heap ss tr s \<longleftrightarrow>
     g_heap s = blue_on (set ss \<union> fst ` set tr) heap \<and>
     colors_written (memory rt) B (g_enc s) (map (color_of heap) (ss @ map fst tr)) \<and>
     length ss + length tr \<le> color_cap B \<and> (\<forall>(a, e) \<in> set tr. e < 2 ^ 64) \<and>
     acc_hdrs s = of_nat (length tr) \<and>
     acc_data s = of_nat (sum_list (map (block_size rt heap \<circ> fst) tr)) \<and>
     acc_depth s = of_nat (fold max (map snd tr) 0)"

lemma fold_max_bound: "(m::nat) < b \<Longrightarrow> \<forall>x \<in> set xs. x < b \<Longrightarrow> fold max xs m < b"
  by (induction xs arbitrary: m) auto

lemma depth_update:
  assumes "\<forall>(a, e) \<in> set tr. e < 2 ^ 64" "d < 2 ^ 64"
  shows "(if of_nat d > (of_nat (fold max (map snd tr) 0) :: 64 word) then of_nat d
      else of_nat (fold max (map snd tr) 0)) = (of_nat (fold max (map snd (tr @ [(v, d)])) 0) :: 64 word)"
proof -
  let ?m = "fold max (map snd tr) 0"
  have "?m < 2 ^ 64" using assms(1) by (intro fold_max_bound) auto
  with assms(2) have "(of_nat ?m < (of_nat d :: 64 word)) = (?m < d)"
    by (simp add: word_less_nat_alt unat_of_nat)
  then show ?thesis by (simp add: max_def)
qed

text \<open>One step of \<open>c_rec_objsize\<close>, up to the visits of the children.\<close>

lemma c_rec_objsize_step:
  assumes ok: "runtime_ok rt" "heap_ok rt heap" "no_blue heap"
    and s: "entry_state rt B heap ss tr s" "length ss + length tr < color_cap B"
    and v: "v < length heap" "v \<notin> set ss \<union> fst ` set tr" and d: "d < 2 ^ 64"
  shows "\<exists>s1. entry_state rt B heap ss (tr @ [(v, d)]) s1 \<and>
    c_rec_objsize rt (Suc k) (of_nat d) (Ptr v) s =
    walk_seq entering (c_rec_objsize rt k (of_nat (Suc d))) (map Ptr (children rt heap v)) s1"
proof -
  let ?A = "set ss \<union> fst ` set tr" and ?h = "header (heap ! v)"
  have heap: "g_heap s = blue_on ?A heap" using s by (simp add: entry_state_def)
  have h: "header (blue_on ?A heap ! v) = ?h" using v by (simp add: header_blue_on)
  have "colors_written (memory rt) B (g_enc s) (map (color_of heap) (ss @ map fst tr)) \<and>
      length (map (color_of heap) (ss @ map fst tr)) \<le> color_cap B"
    using s(1) by (simp add: entry_state_def)
  from colors.put_ok [OF this good_color_of [OF ok(3) v(1)]] s(2) obtain e where
    e: "writecolor (memory rt) (Colornum_hd ?h) (g_enc s) = Inr e"
      "colors_written (memory rt) B e (map (color_of heap) (ss @ map fst tr) @ [color_of heap v])"
    by (auto simp: color_of_def)
  let ?s1 = "s\<lparr>acc_data := acc_data s + of_nat (Wosize_hd rt ?h), acc_hdrs := acc_hdrs s + 1,
    acc_depth := if of_nat d > acc_depth s then of_nat d else acc_depth s,
    g_enc := e, g_heap := blue_on (insert v ?A) heap\<rparr>"
  have "acc_depth ?s1 = of_nat (fold max (map snd (tr @ [(v, d)])) 0)"
    using s(1) d depth_update [of tr d v] by (auto simp: entry_state_def split: if_splits)
  then have "entry_state rt B heap ss (tr @ [(v, d)]) ?s1"
    using s e(2) d by (auto simp: entry_state_def block_size_def)
  moreover have "store_explicit ?h (Ptr v) Col_blue (blue_on ?A heap) = Inr (blue_on (insert v ?A) heap)"
    using mark_blue [OF v] h by simp
  moreover have "Tag_hd rt (header (blue_on (insert v ?A) heap ! v)) = Tag_hd rt ?h"
    using sizes_blue_on [OF ok(1) v(1)] by simp
  moreover have "rbind (read_fields (blue_on (insert v ?A) heap) (Ptr v) 0 (Wosize_hd rt ?h))
      (\<lambda>fs. rec_walk rt entering f fs Val_unit ?s1) =
      walk_seq entering f (map Ptr (children rt heap v)) ?s1" if "Tag_hd rt ?h < No_scan_tag rt" for f
    using walk_children [OF ok(2) v(1) that]
    by (auto simp: read_fields_blue_on rec_walk_from_unit)
  ultimately show ?thesis using heap h v(1) e(1) children_nil [OF v(1), of rt]
    by (intro exI [where x = ?s1]) (simp add: Let_def add.commute)
qed

lemma c_rec_objsize_visit:
  assumes ok: "runtime_ok rt" "heap_ok rt heap" "no_blue heap"
  shows "visit (children rt heap) U d v ord \<Longrightarrow> U = {..<length heap} - (set ss \<union> fst ` set tr) \<Longrightarrow>
      entry_state rt B heap ss tr s \<Longrightarrow> length ss + length tr + length ord \<le> color_cap B \<Longrightarrow>
      length ord \<le> k \<Longrightarrow> d + length ord < 2 ^ 64 \<Longrightarrow>
      \<exists>s'. c_rec_objsize rt k (of_nat d) (Ptr v) s = Inr s' \<and> entry_state rt B heap ss (tr @ ord) s'"
    and "visits (children rt heap) U d cs ord \<Longrightarrow> U = {..<length heap} - (set ss \<union> fst ` set tr) \<Longrightarrow>
      entry_state rt B heap ss tr s \<Longrightarrow> length ss + length tr + length ord \<le> color_cap B \<Longrightarrow>
      length ord \<le> k \<Longrightarrow> d + length ord < 2 ^ 64 \<Longrightarrow> set cs \<subseteq> {..<length heap} \<Longrightarrow>
      \<exists>s'. walk_seq entering (c_rec_objsize rt k (of_nat d)) (map Ptr cs) s = Inr s' \<and>
        entry_state rt B heap ss (tr @ ord) s'"
proof (induction arbitrary: tr s k and tr s k rule: visit_visits.inducts)
  case (node v U d ord)
  then obtain k' where k: "k = Suc k'" "length ord \<le> k'" by (cases k) auto
  have v: "v < length heap" "v \<notin> set ss \<union> fst ` set tr" using node.hyps(1) node.prems(1) by auto
  from c_rec_objsize_step [OF ok node.prems(2) _ v, of d k'] node.prems(3,5) obtain s1 where
    s1: "entry_state rt B heap ss (tr @ [(v, d)]) s1"
      "c_rec_objsize rt (Suc k') (of_nat d) (Ptr v) s =
       walk_seq entering (c_rec_objsize rt k' (of_nat (Suc d))) (map Ptr (children rt heap v)) s1"
    by auto
  have "U - {v} = {..<length heap} - (set ss \<union> fst ` set (tr @ [(v, d)]))"
    using node.prems(1) by auto
  moreover have "set (children rt heap v) \<subseteq> {..<length heap}"
    using children_bound [OF ok(2)] by auto
  ultimately have "\<exists>s'. walk_seq entering (c_rec_objsize rt k' (of_nat (Suc d)))
      (map Ptr (children rt heap v)) s1 = Inr s' \<and> entry_state rt B heap ss ((tr @ [(v, d)]) @ ord) s'"
    using node.prems(3,5) k(2) s1(1) by (intro node.IH(2)) auto
  then show ?case using s1(2) k(1) by auto
next
  case (nil U d)
  then show ?case by simp
next
  case (skip c U d cs ord)
  then have "c < length heap" "c \<in> set ss \<union> fst ` set tr" by auto
  then have "walk_block entering f (Ptr c) s = Inr s" for f
    using skip.prems(2) color_blue_on [OF ok(3), of c]
    by (subst walk_block_blue_on [where heap = heap]) (auto simp: entry_state_def)
  with skip show ?case by simp
next
  case (go c U d o1 cs o2)
  then have c: "c < length heap" "c \<notin> set ss \<union> fst ` set tr" by auto
  then have "walk_block entering f (Ptr c) s = f (Ptr c) s" for f
    using go.prems(2) color_blue_on [OF ok(3), of c]
    by (subst walk_block_blue_on [where heap = heap]) (auto simp: entry_state_def)
  moreover obtain s1 where s1: "c_rec_objsize rt k (of_nat d) (Ptr c) s = Inr s1"
    "entry_state rt B heap ss (tr @ o1) s1"
    using go.IH(2) [OF go.prems(1,2), of k] go.prems(3-5) by auto
  moreover have "\<exists>s'. walk_seq entering (c_rec_objsize rt k (of_nat d)) (map Ptr cs) s1 = Inr s' \<and>
      entry_state rt B heap ss ((tr @ o1) @ o2) s'"
    using go.prems s1(2) by (intro go.IH(4)) auto
  ultimately show ?case by auto
qed

section \<open>The restoring walk\<close>

definition restore_state :: "block list \<Rightarrow> nat set \<Rightarrow> int list \<Rightarrow> objs \<Rightarrow> bool" where
  "restore_state heap R cs s \<longleftrightarrow> g_heap s = blue_on R heap \<and> colors_left (g_enc s) cs"

lemma restore_colors_step:
  assumes ok: "runtime_ok rt" "heap_ok rt heap"
    and s: "restore_state heap R (color_of heap v # cs) s" and v: "v < length heap" "v \<in> R"
  shows "\<exists>s1. restore_state heap (R - {v}) cs s1 \<and>
    restore_colors rt (Suc k) (Ptr v) s =
    walk_seq restoring (restore_colors rt k) (map Ptr (children rt heap v)) s1"
proof -
  let ?h = "header (heap ! v)" and ?R = "R - {v}"
  from s have heap: "g_heap s = blue_on R heap" by (simp add: restore_state_def)
  from s colors.get_ok obtain e where
    e: "readcolor (g_enc s) = Inr (color_of heap v, e)" "colors_left e cs"
    unfolding restore_state_def by blast
  let ?s1 = "s\<lparr>g_enc := e, g_heap := blue_on ?R heap\<rparr>"
  have "restore_state heap ?R cs ?s1" using e(2) by (simp add: restore_state_def)
  moreover have "header (blue_on ?R heap ! v) = ?h" using v by (simp add: header_blue_on)
  moreover have "rbind (read_fields (blue_on ?R heap) (Ptr v) 0 (Wosize_hd rt ?h))
      (\<lambda>fs. rec_walk rt restoring f fs Val_unit ?s1) =
      walk_seq restoring f (map Ptr (children rt heap v)) ?s1" if "Tag_hd rt ?h < No_scan_tag rt" for f
    using walk_children [OF ok(2) v(1) that]
    by (auto simp: read_fields_blue_on rec_walk_from_unit)
  ultimately show ?thesis using heap v e(1) unmark_blue [OF v] children_nil [OF v(1), of rt]
    by (intro exI [where x = ?s1]) (simp add: Let_def)
qed

lemma restore_colors_visit:
  assumes ok: "runtime_ok rt" "heap_ok rt heap" "no_blue heap"
  shows "visit (children rt heap) R d v ord \<Longrightarrow> R \<subseteq> {..<length heap} \<Longrightarrow>
      restore_state heap R (map (\<lambda>x. color_of heap (fst x)) ord @ cs) s \<Longrightarrow> length ord \<le> k \<Longrightarrow>
      \<exists>s'. restore_colors rt k (Ptr v) s = Inr s' \<and> restore_state heap (R - fst ` set ord) cs s'"
    and "visits (children rt heap) R d vs ord \<Longrightarrow> R \<subseteq> {..<length heap} \<Longrightarrow>
      restore_state heap R (map (\<lambda>x. color_of heap (fst x)) ord @ cs) s \<Longrightarrow> length ord \<le> k \<Longrightarrow>
      set vs \<subseteq> {..<length heap} \<Longrightarrow>
      \<exists>s'. walk_seq restoring (restore_colors rt k) (map Ptr vs) s = Inr s' \<and>
        restore_state heap (R - fst ` set ord) cs s'"
proof (induction arbitrary: cs s k and cs s k rule: visit_visits.inducts)
  case (node v R d ord)
  then obtain k' where k: "k = Suc k'" "length ord \<le> k'" by (cases k) auto
  have v: "v < length heap" "v \<in> R" using node.hyps(1) node.prems(1) by auto
  from node.prems(2) have "restore_state heap R
      (color_of heap v # (map (\<lambda>x. color_of heap (fst x)) ord @ cs)) s" by simp
  from restore_colors_step [OF ok(1,2) this v, of k'] obtain s1 where
    s1: "restore_state heap (R - {v}) (map (\<lambda>x. color_of heap (fst x)) ord @ cs) s1"
      "restore_colors rt (Suc k') (Ptr v) s =
       walk_seq restoring (restore_colors rt k') (map Ptr (children rt heap v)) s1" by blast
  have "set (children rt heap v) \<subseteq> {..<length heap}" using children_bound [OF ok(2)] by auto
  then have "\<exists>s'. walk_seq restoring (restore_colors rt k') (map Ptr (children rt heap v)) s1 = Inr s' \<and>
      restore_state heap (R - {v} - fst ` set ord) cs s'"
    using node.prems(1) k(2) s1(1) by (intro node.IH(2)) auto
  moreover have "R - {v} - fst ` set ord = R - fst ` set ((v, d) # ord)" by auto
  ultimately show ?case using s1(2) k(1) by auto
next
  case (nil R d)
  then show ?case by simp
next
  case (skip c R d vs ord)
  then have "walk_block restoring f (Ptr c) s = Inr s" for f
    using color_blue_on [OF ok(3), of c R]
    by (subst walk_block_blue_on [where heap = heap]) (auto simp: restore_state_def)
  with skip show ?case by simp
next
  case (go c R d o1 vs o2)
  then have "walk_block restoring f (Ptr c) s = f (Ptr c) s" for f
    using color_blue_on [OF ok(3), of c R]
    by (subst walk_block_blue_on [where heap = heap]) (auto simp: restore_state_def)
  moreover obtain s1 where s1: "restore_colors rt k (Ptr c) s = Inr s1"
    "restore_state heap (R - fst ` set o1) (map (\<lambda>x. color_of heap (fst x)) o2 @ cs) s1"
    using go.IH(2) [of "map (\<lambda>x. color_of heap (fst x)) o2 @ cs" s k] go.prems by auto
  moreover have "\<exists>s'. walk_seq restoring (restore_colors rt k) (map Ptr vs) s1 = Inr s' \<and>
      restore_state heap (R - fst ` set o1 - fst ` set o2) cs s'"
    using go.prems s1(2) by (intro go.IH(4)) auto
  moreover have "R - fst ` set o1 - fst ` set o2 = R - fst ` set (o1 @ o2)" by auto
  ultimately show ?case by auto
qed

end
