(* ===== verification/ObjSize.thy ===== *)
theory ObjSize imports ObjWalk begin

text \<open>
  \<open>c_objsize\<close> and \<open>ml_objsize\<close> of libs/objsize/c_objsize.c: mark the excluded blocks, walk from the
  root, give the excluded blocks their colours back, look for a wanted block among the visited
  ones, and restore the visited blocks.
\<close>

section \<open>The loops over OCaml lists\<close>

text \<open>
  A list cell is a block with the element and the rest in its first two fields; the loops stop at
  the first value that is not a block of the heap. A cyclic list keeps them running, so they carry
  fuel.
\<close>

fun mark_scan :: "crt \<Rightarrow> nat \<Rightarrow> val \<Rightarrow> objs \<Rightarrow> c_fault + objs" where
  "mark_scan rt 0 cell s = (if cond_block rt cell then Inl Fuel else Inr s)"
| "mark_scan rt (Suc fuel) cell s =
     (if cond_block rt cell
      then rbind (Field (g_heap s) cell 0) (\<lambda>v.
           rbind (Hd_val (g_heap s) v) (\<lambda>h.
           rbind (Field (g_heap s) cell 1) (\<lambda>next_cell.
             let col = Colornum_hd h
             in if col = Col_blue then mark_scan rt fuel next_cell s
                else rbind (writecolor (memory rt) col (g_enc s)) (\<lambda>e.
                     rbind (store_explicit h v Col_blue (g_heap s)) (\<lambda>heap.
                     mark_scan rt fuel next_cell (s\<lparr>g_enc := e, g_heap := heap\<rparr>))))))
      else Inr s)"

fun restore_scan :: "crt \<Rightarrow> nat \<Rightarrow> val \<Rightarrow> objs \<Rightarrow> c_fault + objs" where
  "restore_scan rt 0 cell s = (if cond_block rt cell then Inl Fuel else Inr s)"
| "restore_scan rt (Suc fuel) cell s =
     (if cond_block rt cell
      then rbind (Field (g_heap s) cell 0) (\<lambda>v.
           rbind (Field (g_heap s) cell 1) (\<lambda>next_cell.
           rbind (Hd_val (g_heap s) v) (\<lambda>h.
             if Colornum_hd h \<noteq> Col_blue then restore_scan rt fuel next_cell s
             else rbind (readcolor (g_enc s)) (\<lambda>(col, e).
                  rbind (store_explicit h v col (g_heap s)) (\<lambda>heap.
                  restore_scan rt fuel next_cell (s\<lparr>g_enc := e, g_heap := heap\<rparr>))))))
      else Inr s)"

fun reach_scan :: "crt \<Rightarrow> nat \<Rightarrow> val \<Rightarrow> objs \<Rightarrow> c_fault + int" where
  "reach_scan rt 0 cell s = (if cond_block rt cell then Inl Fuel else Inr 0)"
| "reach_scan rt (Suc fuel) cell s =
     (if cond_block rt cell
      then rbind (Field (g_heap s) cell 0) (\<lambda>v.
           rbind (Hd_val (g_heap s) v) (\<lambda>h.
             if Colornum_hd h = Col_blue then Inr 1
             else rbind (Field (g_heap s) cell 1) (\<lambda>next_cell.
                  reach_scan rt fuel next_cell s)))
      else Inr 0)"

section \<open>The whole operation\<close>

record measured =
  m_reached :: int
  m_headers :: "64 word"
  m_data :: "64 word"
  m_depth :: "64 word"

definition measure_root :: "crt \<Rightarrow> nat \<Rightarrow> val \<Rightarrow> objs \<Rightarrow> c_fault + objs" where
  "measure_root rt fuel v s =
     (if cond_block rt v
      then rbind (Hd_val (g_heap s) v) (\<lambda>h.
             if Colornum_hd h \<noteq> Col_blue then c_rec_objsize rt fuel 0 v s else Inr s)
      else Inr s)"

definition restore_root :: "crt \<Rightarrow> nat \<Rightarrow> val \<Rightarrow> objs \<Rightarrow> c_fault + objs" where
  "restore_root rt fuel v s =
     (if cond_block rt v
      then rbind (Hd_val (g_heap s) v) (\<lambda>h.
             if Colornum_hd h = Col_blue then restore_colors rt fuel v s else Inr s)
      else Inr s)"

definition c_objsize :: "crt \<Rightarrow> nat \<Rightarrow> val \<Rightarrow> val \<Rightarrow> val \<Rightarrow> objs \<Rightarrow> c_fault + measured \<times> objs" where
  "c_objsize rt fuel v scan reach s =
     rbind (colors_init (memory rt) (g_enc s)) (\<lambda>e.
     rbind (mark_scan rt fuel scan (s\<lparr>g_enc := rle_init e\<rparr>)) (\<lambda>s.
     rbind (measure_root rt fuel v (s\<lparr>acc_data := 0, acc_hdrs := 0, acc_depth := 0\<rparr>)) (\<lambda>s.
       let headers = acc_hdrs s; data = acc_data s; depth = acc_depth s
       in rbind (rle_write_flush (memory rt) (g_enc s)) (\<lambda>e.
          rbind (restore_scan rt fuel scan (s\<lparr>g_enc := rle_init e\<rparr>)) (\<lambda>s.
          rbind (reach_scan rt fuel reach s) (\<lambda>reached.
          rbind (restore_root rt fuel v s) (\<lambda>s.
          rbind (rle_read_flush (g_enc s)) (\<lambda>e.
          Inr (\<lparr>m_reached = reached, m_headers = headers, m_data = data, m_depth = depth\<rparr>,
               s\<lparr>g_enc := colors_deinit e\<rparr>)))))))))"

text \<open>\<open>Val_int\<close> and \<open>Val_bool\<close>: an OCaml integer keeps the low 63 bits.\<close>

definition Val_int :: "64 word \<Rightarrow> val" where
  "Val_int w = Imm (signed_take_bit 62 (uint w))"

definition Val_bool :: "int \<Rightarrow> val" where
  "Val_bool b = Imm (if b \<noteq> 0 then 1 else 0)"

definition ml_objsize :: "crt \<Rightarrow> nat \<Rightarrow> val \<Rightarrow> val \<Rightarrow> val \<Rightarrow> objs \<Rightarrow> c_fault + val list \<times> objs" where
  "ml_objsize rt fuel start scan reach s =
     rbind (c_objsize rt fuel start scan reach s) (\<lambda>(r, s).
       Inr ([Val_int (m_data r), Val_int (m_headers r), Val_int (m_depth r), Val_bool (m_reached r)], s))"

section \<open>Lists in the heap\<close>

fun list_at :: "crt \<Rightarrow> block list \<Rightarrow> val \<Rightarrow> nat list \<Rightarrow> bool" where
  "list_at rt heap cell [] \<longleftrightarrow> \<not> cond_block rt cell"
| "list_at rt heap cell (x # xs) \<longleftrightarrow>
     cond_block rt cell \<and> Field heap cell 0 = Inr (Ptr x) \<and> x < length heap \<and>
     (case Field heap cell 1 of Inl _ \<Rightarrow> False | Inr rest \<Rightarrow> list_at rt heap rest xs)"

lemma list_at_bound: "list_at rt heap cell xs \<Longrightarrow> set xs \<subseteq> {..<length heap}"
  by (induction rt heap cell xs rule: list_at.induct) (auto split: sum.splits)

text \<open>The first occurrences in \<open>xs\<close> of elements of \<open>U\<close>: what a pass over the list acts on.\<close>

fun firsts :: "nat set \<Rightarrow> nat list \<Rightarrow> nat list" where
  "firsts U [] = []"
| "firsts U (x # xs) = (if x \<in> U then x # firsts (U - {x}) xs else firsts U xs)"

lemma set_firsts: "set (firsts U xs) = U \<inter> set xs"
  by (induction U xs rule: firsts.induct) auto

lemma distinct_firsts: "distinct (firsts U xs)"
  by (induction U xs rule: firsts.induct) (auto simp: set_firsts)

lemma firsts_restrict: "U \<inter> set xs \<subseteq> S \<Longrightarrow> firsts (U \<inter> S) xs = firsts U xs"
proof (induction U xs arbitrary: S rule: firsts.induct)
  case (2 U x xs)
  show ?case
  proof (cases "x \<in> U")
    case True
    have "(U - {x}) \<inter> S = U \<inter> S - {x}" by blast
    moreover have "firsts ((U - {x}) \<inter> S) xs = firsts (U - {x}) xs"
      using True "2.prems" by (intro "2.IH"(1)) auto
    ultimately show ?thesis using True "2.prems" by auto
  next
    case False
    with 2 show ?thesis by auto
  qed
qed simp

section \<open>The passes\<close>

definition mark_state :: "crt \<Rightarrow> nat \<Rightarrow> block list \<Rightarrow> nat list \<Rightarrow> objs \<Rightarrow> bool" where
  "mark_state rt B heap ss s \<longleftrightarrow>
     g_heap s = blue_on (set ss) heap \<and>
     colors_written (memory rt) B (g_enc s) (map (color_of heap) ss)"

lemma mark_scan_ok:
  assumes "no_blue heap"
  shows "list_at rt heap cell xs \<Longrightarrow> length xs \<le> fuel \<Longrightarrow> mark_state rt B heap ss s \<Longrightarrow>
    length ss + length (firsts ({..<length heap} - set ss) xs) \<le> color_cap B \<Longrightarrow>
    \<exists>s'. mark_scan rt fuel cell s = Inr s' \<and>
      mark_state rt B heap (ss @ firsts ({..<length heap} - set ss) xs) s'"
proof (induction xs arbitrary: cell fuel ss s)
  case Nil
  then show ?case by (cases fuel) auto
next
  case (Cons x xs)
  from Cons.prems(2) obtain k where k: "fuel = Suc k" "length xs \<le> k" by (cases fuel) auto
  from Cons.prems(1) obtain rest where L: "cond_block rt cell" "Field heap cell 0 = Inr (Ptr x)"
    "x < length heap" "Field heap cell 1 = Inr rest" "list_at rt heap rest xs"
    by (auto split: sum.splits)
  have heap: "g_heap s = blue_on (set ss) heap" using Cons.prems(3) by (simp add: mark_state_def)
  let ?U = "{..<length heap} - set ss"
  show ?case
  proof (cases "x \<in> set ss")
    case True
    then have f: "firsts ?U (x # xs) = firsts ?U xs" by simp
    with Cons.IH [OF L(5) k(2) Cons.prems(3)] Cons.prems(4) True L heap k(1)
      color_blue_on [OF assms L(3)]
    show ?thesis by (simp add: Field_blue_on Let_def)
  next
    case False
    with L(3) have f: "firsts ?U (x # xs) = x # firsts ({..<length heap} - set (ss @ [x])) xs"
      by (simp add: Diff_insert2 [symmetric]) (metis Diff_insert)
    have "colors_written (memory rt) B (g_enc s) (map (color_of heap) ss) \<and>
        length (map (color_of heap) ss) \<le> color_cap B"
      using Cons.prems(3,4) by (simp add: mark_state_def)
    from colors.put_ok [OF this good_color_of [OF assms L(3)]] Cons.prems(4) f obtain e where
      e: "writecolor (memory rt) (color_of heap x) (g_enc s) = Inr e"
        "colors_written (memory rt) B e (map (color_of heap) (ss @ [x]))" by auto
    let ?s1 = "s\<lparr>g_enc := e, g_heap := blue_on (set (ss @ [x])) heap\<rparr>"
    have "mark_state rt B heap (ss @ [x]) ?s1" using e(2) by (simp add: mark_state_def)
    from Cons.IH [OF L(5) k(2) this] Cons.prems(4) f obtain s' where
      "mark_scan rt k rest ?s1 = Inr s'"
      "mark_state rt B heap ((ss @ [x]) @ firsts ({..<length heap} - set (ss @ [x])) xs) s'" by auto
    moreover have "color_of heap x \<noteq> Col_blue"
      using good_color_of [OF assms L(3)] by (auto simp: good_color_def)
    then have "mark_scan rt fuel cell s = mark_scan rt k rest ?s1"
      using L heap k(1) e(1) mark_blue [OF L(3) False] color_unmarked [OF L(3) False]
      by (simp add: Field_blue_on Let_def)
    ultimately show ?thesis using f by simp
  qed
qed

lemma restore_scan_ok:
  assumes "no_blue heap"
  shows "list_at rt heap cell xs \<Longrightarrow> length xs \<le> fuel \<Longrightarrow>
    restore_state heap R (map (color_of heap) (firsts R xs) @ cs) s \<Longrightarrow>
    \<exists>s'. restore_scan rt fuel cell s = Inr s' \<and> restore_state heap (R - set xs) cs s' \<and>
      acc_hdrs s' = acc_hdrs s"
proof (induction xs arbitrary: cell fuel R s)
  case Nil
  then show ?case by (cases fuel) auto
next
  case (Cons x xs)
  from Cons.prems(2) obtain k where k: "fuel = Suc k" "length xs \<le> k" by (cases fuel) auto
  from Cons.prems(1) obtain rest where L: "cond_block rt cell" "Field heap cell 0 = Inr (Ptr x)"
    "x < length heap" "Field heap cell 1 = Inr rest" "list_at rt heap rest xs"
    by (auto split: sum.splits)
  have heap: "g_heap s = blue_on R heap" using Cons.prems(3) by (simp add: restore_state_def)
  show ?case
  proof (cases "x \<in> R")
    case False
    then have "restore_state heap R (map (color_of heap) (firsts R xs) @ cs) s" "R - set (x # xs) = R - set xs"
      using Cons.prems(3) by auto
    with Cons.IH [OF L(5) k(2)] False L heap k(1) color_blue_on [OF assms L(3)]
    show ?thesis by (simp add: Field_blue_on)
  next
    case True
    then have "colors_left (g_enc s) (color_of heap x # map (color_of heap) (firsts (R - {x}) xs) @ cs)"
      using Cons.prems(3) by (simp add: restore_state_def)
    from colors.get_ok [OF this] obtain e where
      e: "readcolor (g_enc s) = Inr (color_of heap x, e)"
        "colors_left e (map (color_of heap) (firsts (R - {x}) xs) @ cs)" by blast
    let ?s1 = "s\<lparr>g_enc := e, g_heap := blue_on (R - {x}) heap\<rparr>"
    have "restore_state heap (R - {x}) (map (color_of heap) (firsts (R - {x}) xs) @ cs) ?s1"
      using e(2) by (simp add: restore_state_def)
    from Cons.IH [OF L(5) k(2) this] obtain s' where "restore_scan rt k rest ?s1 = Inr s'"
      "restore_state heap (R - {x} - set xs) cs s'" "acc_hdrs s' = acc_hdrs ?s1" by blast
    moreover have "restore_scan rt fuel cell s = restore_scan rt k rest ?s1"
      using L heap k(1) e(1) unmark_blue [OF L(3) True] True color_blue_on [OF assms L(3)]
      by (simp add: Field_blue_on)
    moreover have "R - {x} - set xs = R - set (x # xs)" by auto
    ultimately show ?thesis by simp
  qed
qed

lemma reach_scan_ok:
  assumes "no_blue heap" "g_heap s = blue_on T heap"
  shows "list_at rt heap cell xs \<Longrightarrow> length xs \<le> fuel \<Longrightarrow>
    reach_scan rt fuel cell s = Inr (if T \<inter> set xs = {} then 0 else 1)"
proof (induction xs arbitrary: cell fuel)
  case Nil
  then show ?case by (cases fuel) auto
next
  case (Cons x xs)
  from Cons.prems(2) obtain k where k: "fuel = Suc k" "length xs \<le> k" by (cases fuel) auto
  from Cons.prems(1) obtain rest where L: "cond_block rt cell" "Field heap cell 0 = Inr (Ptr x)"
    "x < length heap" "Field heap cell 1 = Inr rest" "list_at rt heap rest xs"
    by (auto split: sum.splits)
  with Cons.IH [OF L(5) k(2)] k(1) assms(2) color_blue_on [OF assms(1) L(3), of T]
  show ?case by (simp add: Field_blue_on)
qed

section \<open>The specification\<close>

text \<open>
  The blocks an object consists of: those reachable from it through blocks of the heap without
  passing through an excluded block.
\<close>

definition traversed :: "crt \<Rightarrow> block list \<Rightarrow> nat list \<Rightarrow> val \<Rightarrow> nat set" where
  "traversed rt heap xs v =
     (case v of Imm _ \<Rightarrow> {}
      | Ptr r \<Rightarrow> if is_in_heap_or_young rt r
                 then {w. reach_in (children rt heap) ({..<length heap} - set xs) r w} else {})"

text \<open>An order in which the walk meets them.\<close>

definition walk_order :: "crt \<Rightarrow> block list \<Rightarrow> nat list \<Rightarrow> val \<Rightarrow> (nat \<times> nat) list \<Rightarrow> bool" where
  "walk_order rt heap xs v ord \<longleftrightarrow>
     (if \<exists>r. v = Ptr r \<and> is_in_heap_or_young rt r \<and> r \<notin> set xs
      then \<exists>r. v = Ptr r \<and> visit (children rt heap) ({..<length heap} - set xs) 0 r ord
      else ord = [])"

definition root_ok :: "crt \<Rightarrow> block list \<Rightarrow> val \<Rightarrow> bool" where
  "root_ok rt heap v \<longleftrightarrow> (\<forall>r. v = Ptr r \<and> is_in_heap_or_young rt r \<longrightarrow> r < length heap)"

lemma reach_in_start: "reach_in adj U v w \<Longrightarrow> v \<in> U"
  by (induction rule: reach_in.induct)

lemma walk_order_exists:
  assumes "root_ok rt heap v"
  shows "\<exists>ord. walk_order rt heap xs v ord"
proof (cases "\<exists>r. v = Ptr r \<and> is_in_heap_or_young rt r \<and> r \<notin> set xs")
  case True
  then obtain r where r: "v = Ptr r" "is_in_heap_or_young rt r" "r \<notin> set xs" by blast
  with assms have "r \<in> {..<length heap} - set xs" by (auto simp: root_ok_def)
  then obtain ord where "visit (children rt heap) ({..<length heap} - set xs) 0 r ord"
    using visit_exists [of "{..<length heap} - set xs"] by blast
  with r show ?thesis by (auto simp: walk_order_def)
qed (auto simp: walk_order_def)

lemma walk_order_facts:
  assumes "walk_order rt heap xs v ord"
  shows "fst ` set ord = traversed rt heap xs v" "distinct (map fst ord)"
    "fst ` set ord \<subseteq> {..<length heap} - set xs" "\<forall>(a, e) \<in> set ord. e < length ord"
proof -
  have "fst ` set ord = traversed rt heap xs v \<and> distinct (map fst ord) \<and>
    fst ` set ord \<subseteq> {..<length heap} - set xs \<and> (\<forall>(a, e) \<in> set ord. e < length ord)"
  proof (cases "\<exists>r. v = Ptr r \<and> is_in_heap_or_young rt r \<and> r \<notin> set xs")
    case True
    with assms obtain r where r: "v = Ptr r" "is_in_heap_or_young rt r"
      "visit (children rt heap) ({..<length heap} - set xs) 0 r ord" by (auto simp: walk_order_def)
    then show ?thesis
      using visit_set [OF r(3)] visit_distinct(1) [OF r(3)] visit_nodes(1) [OF r(3)]
        visit_depth(1) [OF r(3)] by (auto simp: traversed_def)
  next
    case False
    then have "traversed rt heap xs v = {}"
      by (cases v) (auto simp: traversed_def dest: reach_in_start)
    with False assms show ?thesis by (auto simp: walk_order_def)
  qed
  then show "fst ` set ord = traversed rt heap xs v" "distinct (map fst ord)"
    "fst ` set ord \<subseteq> {..<length heap} - set xs" "\<forall>(a, e) \<in> set ord. e < length ord" by blast+
qed

section \<open>The two walks from the root\<close>

lemma measure_root_ok:
  assumes "runtime_ok rt" "heap_ok rt heap" "no_blue heap" "root_ok rt heap v"
    and "set ss = set xs" "walk_order rt heap xs v ord" "length ord \<le> fuel" "length ord < 2 ^ 64"
    and s: "entry_state rt B heap ss [] s" "length ss + length ord \<le> color_cap B"
  shows "\<exists>s'. measure_root rt fuel v s = Inr s' \<and> entry_state rt B heap ss ord s'"
proof (cases "\<exists>r. v = Ptr r \<and> is_in_heap_or_young rt r \<and> r \<notin> set xs")
  case True
  with assms obtain r where r: "v = Ptr r" "is_in_heap_or_young rt r" "r \<notin> set xs" "r < length heap"
    "visit (children rt heap) ({..<length heap} - set xs) 0 r ord"
    by (auto simp: walk_order_def root_ok_def)
  then have "Colornum_hd (header (blue_on (set ss) heap ! r)) \<noteq> Col_blue"
    using assms(5) color_blue_on [OF assms(3)] by auto
  then have "measure_root rt fuel v s = c_rec_objsize rt fuel (of_nat 0) (Ptr r) s"
    using r s(1) by (simp add: measure_root_def cond_block_def entry_state_def)
  moreover have "\<exists>s'. c_rec_objsize rt fuel (of_nat 0) (Ptr r) s = Inr s' \<and>
      entry_state rt B heap ss ([] @ ord) s'"
    using assms r by (intro c_rec_objsize_visit(1)) auto
  ultimately show ?thesis by simp
next
  case False
  have "measure_root rt fuel v s = Inr s"
  proof (cases "cond_block rt v")
    case True
    then obtain r where r: "v = Ptr r" "is_in_heap_or_young rt r" by (auto simp: cond_block_def split: val.splits)
    with False assms(4,5) have "r \<in> set ss" "r < length heap" by (auto simp: root_ok_def)
    with r s(1) color_blue_on [OF assms(3)] show ?thesis
      by (simp add: measure_root_def entry_state_def)
  qed (simp add: measure_root_def)
  with False assms(6) s show ?thesis by (auto simp: walk_order_def)
qed

lemma restore_root_ok:
  assumes "runtime_ok rt" "heap_ok rt heap" "no_blue heap" "root_ok rt heap v"
    and "walk_order rt heap xs v ord" "length ord \<le> fuel"
    and s: "restore_state heap (fst ` set ord) (map (color_of heap) (map fst ord)) s"
  shows "\<exists>s'. restore_root rt fuel v s = Inr s' \<and> restore_state heap {} [] s'"
proof (cases "\<exists>r. v = Ptr r \<and> is_in_heap_or_young rt r \<and> r \<notin> set xs")
  case True
  with assms obtain r where r: "v = Ptr r" "is_in_heap_or_young rt r" "r < length heap"
    "visit (children rt heap) ({..<length heap} - set xs) 0 r ord"
    by (auto simp: walk_order_def root_ok_def)
  have sub: "({..<length heap} - set xs) \<inter> fst ` set ord = fst ` set ord"
    using visit_nodes(1) [OF r(4)] by blast
  have V: "visit (children rt heap) (fst ` set ord) 0 r ord"
    using visit_restrict(1) [OF r(4), of "fst ` set ord"] sub by simp
  have "r \<in> fst ` set ord" using visit_nodes(1) [OF r(4)] by blast
  then have "restore_root rt fuel v s = restore_colors rt fuel (Ptr r) s"
    using r s color_blue_on [OF assms(3) r(3)]
    by (simp add: restore_root_def cond_block_def restore_state_def)
  moreover have "\<exists>s'. restore_colors rt fuel (Ptr r) s = Inr s' \<and>
      restore_state heap (fst ` set ord - fst ` set ord) [] s'"
    using assms(1-3,6) s visit_nodes(1) [OF r(4)]
    by (intro restore_colors_visit(1) [OF _ _ _ V]) (auto simp: comp_def)
  ultimately show ?thesis by simp
next
  case False
  with assms(5) have "ord = []" by (simp add: walk_order_def)
  have "restore_root rt fuel v s = Inr s"
  proof (cases "cond_block rt v")
    case True
    then obtain r where r: "v = Ptr r" "is_in_heap_or_young rt r"
      by (auto simp: cond_block_def split: val.splits)
    with assms(4) have "r < length heap" by (auto simp: root_ok_def)
    with r s \<open>ord = []\<close> color_blue_on [OF assms(3), of r "{}"] show ?thesis
      by (simp add: restore_root_def restore_state_def Hd_val_def deref_def)
  qed (simp add: restore_root_def)
  with s \<open>ord = []\<close> show ?thesis by simp
qed

section \<open>Correctness\<close>

definition inputs_ok ::
  "crt \<Rightarrow> nat \<Rightarrow> nat \<Rightarrow> val \<Rightarrow> val \<Rightarrow> nat list \<Rightarrow> val \<Rightarrow> nat list \<Rightarrow> objs \<Rightarrow> bool" where
  "inputs_ok rt B fuel v scan xs reach rs s \<longleftrightarrow>
     runtime_ok rt \<and> heap_ok rt (g_heap s) \<and> no_blue (g_heap s) \<and> root_ok rt (g_heap s) v \<and>
     list_at rt (g_heap s) scan xs \<and> list_at rt (g_heap s) reach rs \<and>
     colors (g_enc s) = None \<and> mem_upto (memory rt) B \<and> length (g_heap s) \<le> color_cap B \<and>
     length (g_heap s) \<le> fuel \<and> length xs \<le> fuel \<and> length rs \<le> fuel"

lemma mark_phase:
  assumes "inputs_ok rt B fuel v scan xs reach rs s"
  shows "\<exists>e s1. colors_init (memory rt) (g_enc s) = Inr e \<and>
    mark_scan rt fuel scan (s\<lparr>g_enc := rle_init e\<rparr>) = Inr s1 \<and>
    mark_state rt B (g_heap s) (firsts {..<length (g_heap s)} xs) s1"
proof -
  let ?heap = "g_heap s"
  from assms have ok: "no_blue ?heap" "list_at rt ?heap scan xs" "length xs \<le> fuel"
    "mem_upto (memory rt) B" "colors (g_enc s) = None" "length ?heap \<le> color_cap B"
    by (auto simp: inputs_ok_def)
  from colors_init_ok [OF ok(4,5)] obtain e where
    e: "colors_init (memory rt) (g_enc s) = Inr e"
      "bits_written (memory rt) B (prev_color (g_enc s)) (repeat_count (g_enc s)) e []" by blast
  then have "mark_state rt B ?heap [] (s\<lparr>g_enc := rle_init e\<rparr>)"
    using rle_init_written by (auto simp: mark_state_def)
  moreover have "length (firsts {..<length ?heap} xs) \<le> length ?heap"
    using distinct_card [OF distinct_firsts [of "{..<length ?heap}" xs]]
      card_mono [of "{..<length ?heap}" "set (firsts {..<length ?heap} xs)"] by (simp add: set_firsts)
  ultimately show ?thesis
    using mark_scan_ok [OF ok(1,2,3), of B "[]" "s\<lparr>g_enc := rle_init e\<rparr>"] ok(6) e(1) by auto
qed

lemma restore_phase:
  assumes ok: "no_blue heap" "list_at rt heap scan xs" "length xs \<le> fuel" "length heap \<le> color_cap B"
    and ord: "fst ` set ord \<subseteq> {..<length heap} - set xs"
    and s: "entry_state rt B heap (firsts {..<length heap} xs) ord s"
  shows "\<exists>e s2. rle_write_flush (memory rt) (g_enc s) = Inr e \<and>
    restore_scan rt fuel scan (s\<lparr>g_enc := rle_init e\<rparr>) = Inr s2 \<and>
    restore_state heap (fst ` set ord) (map (color_of heap) (map fst ord)) s2"
proof -
  let ?ss = "firsts {..<length heap} xs"
  have xs: "set xs \<subseteq> {..<length heap}" using list_at_bound [OF ok(2)] .
  from s have "colors_written (memory rt) B (g_enc s) (map (color_of heap) (?ss @ map fst ord))"
    "length (map (color_of heap) (?ss @ map fst ord)) \<le> color_cap B" "g_heap s = blue_on (set ?ss \<union> fst ` set ord) heap"
    by (auto simp: entry_state_def)
  with rle_turn_law obtain e where
    e: "rle_write_flush (memory rt) (g_enc s) = Inr e"
      "colors_left (rle_init e) (map (color_of heap) (?ss @ map fst ord))"
    unfolding rle_turn_def rbind_Inr_iff by blast
  let ?R = "set xs \<union> fst ` set ord"
  have "firsts ?R xs = firsts (set xs) xs" using firsts_restrict [of ?R xs "set xs"]
    by (simp add: Int_absorb1)
  also have "\<dots> = ?ss" using firsts_restrict [of "{..<length heap}" xs "set xs"] xs
    by (simp add: Int_absorb1)
  finally have "restore_state heap ?R (map (color_of heap) (firsts ?R xs) @ map (color_of heap) (map fst ord))
      (s\<lparr>g_enc := rle_init e\<rparr>)"
    using e(2) xs \<open>g_heap s = _\<close> by (simp add: restore_state_def set_firsts Int_absorb1 Int_absorb2)
  from restore_scan_ok [OF ok(1,2,3) this] obtain s2 where
    "restore_scan rt fuel scan (s\<lparr>g_enc := rle_init e\<rparr>) = Inr s2"
    "restore_state heap (?R - set xs) (map (color_of heap) (map fst ord)) s2" by blast
  moreover have "?R - set xs = fst ` set ord" using ord by auto
  ultimately show ?thesis using e(1) by auto
qed

theorem c_objsize_run:
  assumes "inputs_ok rt B fuel v scan xs reach rs s" "walk_order rt (g_heap s) xs v ord"
  shows "\<exists>s'. c_objsize rt fuel v scan reach s =
      Inr (\<lparr>m_reached = (if fst ` set ord \<inter> set rs = {} then 0 else 1),
            m_headers = of_nat (length ord),
            m_data = of_nat (sum_list (map (block_size rt (g_heap s) \<circ> fst) ord)),
            m_depth = of_nat (fold max (map snd ord) 0)\<rparr>, s') \<and>
    g_heap s' = g_heap s \<and> colors (g_enc s') = None"
proof -
  let ?heap = "g_heap s" and ?ss = "firsts {..<length (g_heap s)} xs"
  from assms(1) have ok: "runtime_ok rt" "heap_ok rt ?heap" "no_blue ?heap" "root_ok rt ?heap v"
    "list_at rt ?heap scan xs" "list_at rt ?heap reach rs" "length xs \<le> fuel" "length rs \<le> fuel"
    "length ?heap \<le> color_cap B" "length ?heap \<le> fuel"
    by (auto simp: inputs_ok_def)
  have xs: "set ?ss = set xs" using list_at_bound [OF ok(5)] by (auto simp: set_firsts)
  note W = walk_order_facts [OF assms(2)]
  have len: "length ?ss + length ord \<le> length ?heap"
  proof -
    have "length ?ss + length ord = card (set xs \<union> fst ` set ord)"
      using W(2,3) distinct_card [OF distinct_firsts, of "{..<length ?heap}" xs] xs
        distinct_card [OF W(2)] by (subst card_Un_disjoint) auto
    also have "\<dots> \<le> card {..<length ?heap}"
      using W(3) list_at_bound [OF ok(5)] by (intro card_mono) auto
    finally show ?thesis by simp
  qed
  then have small: "length ord \<le> fuel" "length ?ss + length ord \<le> color_cap B" "length ord < 2 ^ 64"
    using ok(9,10) by (auto simp: color_cap_def)
  from mark_phase [OF assms(1)] obtain e s1 where
    1: "colors_init (memory rt) (g_enc s) = Inr e" "mark_scan rt fuel scan (s\<lparr>g_enc := rle_init e\<rparr>) = Inr s1"
      "mark_state rt B ?heap ?ss s1" by blast
  let ?s1 = "s1\<lparr>acc_data := 0, acc_hdrs := 0, acc_depth := 0\<rparr>"
  have "entry_state rt B ?heap ?ss [] ?s1"
    using 1(3) small(2) by (simp add: entry_state_def mark_state_def)
  from measure_root_ok [OF ok(1-4) xs assms(2) small(1,3) this small(2)] obtain s2 where
    2: "measure_root rt fuel v ?s1 = Inr s2" "entry_state rt B ?heap ?ss ord s2" by blast
  from restore_phase [OF ok(3,5,7,9) W(3) 2(2)] obtain e' s3 where
    3: "rle_write_flush (memory rt) (g_enc s2) = Inr e'"
      "restore_scan rt fuel scan (s2\<lparr>g_enc := rle_init e'\<rparr>) = Inr s3"
      "restore_state ?heap (fst ` set ord) (map (color_of ?heap) (map fst ord)) s3" by blast
  from 3(3) have "reach_scan rt fuel reach s3 = Inr (if fst ` set ord \<inter> set rs = {} then 0 else 1)"
    by (intro reach_scan_ok [OF ok(3) _ ok(6,8)]) (simp add: restore_state_def)
  moreover from restore_root_ok [OF ok(1-4) assms(2) small(1) 3(3)] obtain s4 where
    4: "restore_root rt fuel v s3 = Inr s4" "restore_state ?heap {} [] s4" by blast
  moreover have "rle_read_flush (g_enc s4) = Inr (g_enc s4)"
    using 4(2) by (intro rle_read_flush_ok) (simp add: restore_state_def)
  ultimately show ?thesis using 1(1,2) 2 3(1,2)
    by (simp add: c_objsize_def Let_def entry_state_def restore_state_def colors_deinit_def)
qed

lemma walk_totals:
  assumes "walk_order rt heap xs v ord"
  shows "length ord = card (traversed rt heap xs v)"
    and "sum_list (map (f \<circ> fst) ord) = (\<Sum>a \<in> traversed rt heap xs v. f a)"
    and "fold max (map snd ord) 0 \<le> card (traversed rt heap xs v) - 1"
proof -
  note W = walk_order_facts [OF assms]
  show card: "length ord = card (traversed rt heap xs v)"
    using distinct_card [OF W(2)] W(1) by simp
  have "sum_list (map f (map fst ord)) = (\<Sum>a \<in> set (map fst ord). f a)"
    using W(2) by (rule sum_list_distinct_conv_sum_set)
  with W(1) show "sum_list (map (f \<circ> fst) ord) = (\<Sum>a \<in> traversed rt heap xs v. f a)" by simp
  show "fold max (map snd ord) 0 \<le> card (traversed rt heap xs v) - 1"
  proof (cases ord)
    case (Cons p ps)
    have "fold max (map snd ord) 0 < length ord"
      using W(4) Cons by (intro fold_max_bound) auto
    with card show ?thesis by simp
  qed simp
qed

section \<open>A concrete heap\<close>

text \<open>
  The documented header layout: the size from bit 10 on, the tag in the low 8 bits. Block 0 is the
  root, block 2 is on the exclusion list (cell 3) and block 1 on the list of wanted blocks (cell 4).
\<close>

definition ex_rt :: crt where
  "ex_rt = \<lparr>memory = \<lparr>malloc_ok = (\<lambda>_. True), junk = (\<lambda>_. 0)\<rparr>, page_table_lookup = (\<lambda>_. 1),
     Wosize_hd = (\<lambda>h. unat (drop_bit 10 h)), Tag_hd = (\<lambda>h. unat (h AND 255)), No_scan_tag = 251\<rparr>"

definition ex_objs :: objs where
  "ex_objs = \<lparr>g_enc = \<lparr>colors = None, colors_bitcap = 0, colors_writeindex = 0, colors_readindex = 0,
       prev_color = 0, repeat_count = 0\<rparr>,
     g_heap = [\<lparr>header = 3072, slots = [Ptr 1, Ptr 2, Ptr 0]\<rparr>, \<lparr>header = 1024 + 768, slots = [Imm 7]\<rparr>,
       \<lparr>header = 1024 + 256, slots = [Ptr 1]\<rparr>, \<lparr>header = 2048, slots = [Ptr 2, Imm 0]\<rparr>,
       \<lparr>header = 2048, slots = [Ptr 1, Imm 0]\<rparr>],
     acc_hdrs = 0, acc_data = 0, acc_depth = 0\<rparr>"

lemma drop_10_off_black: "drop_bit 10 (h AND NOT Caml_black) = drop_bit 10 h"
  by (rule bit_word_eqI, unfold bit_drop_bit_eq comp_def bit_off_black) auto

lemma low_8_off_black: "(h AND NOT Caml_black) AND 255 = h AND 255"
proof -
  have m: "(255 :: 64 word) = mask 8" by (simp add: mask_eq_exp_minus_1)
  show ?thesis
    unfolding m by (rule bit_word_eqI, unfold bit_and_iff [of _ "mask 8"] bit_off_black bit_mask_iff) auto
qed

lemma ex_runtime_ok: "runtime_ok ex_rt"
  unfolding runtime_ok_def
proof (intro allI impI)
  fix h h' :: "64 word"
  assume eq: "h AND NOT Caml_black = h' AND NOT Caml_black"
  have "drop_bit 10 h = drop_bit 10 h'" using drop_10_off_black [of h] drop_10_off_black [of h'] eq by metis
  moreover have "h AND 255 = h' AND 255" using low_8_off_black [of h] low_8_off_black [of h'] eq by metis
  ultimately show "Wosize_hd ex_rt h = Wosize_hd ex_rt h' \<and> Tag_hd ex_rt h = Tag_hd ex_rt h'"
    by (simp add: ex_rt_def)
qed

lemma ex_inputs_ok: "inputs_ok ex_rt 64 5 (Ptr 0) (Ptr 3) [2] (Ptr 4) [1] ex_objs"
proof -
  have "heap_ok ex_rt (g_heap ex_objs)"
    by (auto simp: heap_ok_def ex_rt_def ex_objs_def take_Cons')
  moreover have "no_blue (g_heap ex_objs)"
    by (simp add: no_blue_def ex_objs_def Colornum_hd_def)
  moreover have "list_at ex_rt (g_heap ex_objs) (Ptr 3) [2]" "list_at ex_rt (g_heap ex_objs) (Ptr 4) [1]"
    by (simp_all add: cond_block_def is_in_heap_or_young_def Field_def deref_def ex_rt_def ex_objs_def)
  moreover have "mem_upto (memory ex_rt) 64" "length (g_heap ex_objs) \<le> color_cap 64"
    by (simp_all add: mem_upto_def ex_rt_def ex_objs_def color_cap_def)
  ultimately show ?thesis using ex_runtime_ok
    by (simp add: inputs_ok_def root_ok_def ex_objs_def)
qed

section \<open>Properties\<close>

text \<open>C1: measuring leaves the heap as it was. For every well-formed heap without blue blocks and every
  valid root and lists, \<open>c_objsize\<close> returns (no ASSERT fails, no access is out of range, the fuel is
  enough), every header has its original colour again, and the colour buffer is released.\<close>

theorem c_objsize_restores_heap:
  assumes "inputs_ok rt B fuel v scan xs reach rs s"
  shows "\<exists>r s'. c_objsize rt fuel v scan reach s = Inr (r, s') \<and>
    g_heap s' = g_heap s \<and> colors (g_enc s') = None"
proof -
  from assms have "root_ok rt (g_heap s) v" by (simp add: inputs_ok_def)
  then obtain ord where "walk_order rt (g_heap s) xs v ord" using walk_order_exists by blast
  from c_objsize_run [OF assms this] show ?thesis by blast
qed

theorem c_objsize_restores_heap_witness:
  "\<exists>r s'. c_objsize ex_rt 5 (Ptr 0) (Ptr 3) (Ptr 4) ex_objs = Inr (r, s') \<and>
    g_heap s' = g_heap ex_objs \<and> colors (g_enc s') = None"
  using c_objsize_restores_heap [OF ex_inputs_ok] .

text \<open>C2: what the OCaml caller gets. The result record holds the words of data and the number of
  headers of exactly the blocks reachable from the root outside the excluded ones, each counted
  once, a depth below their number, and whether a wanted block is among them.\<close>

theorem ml_objsize_measures:
  assumes "inputs_ok rt B fuel v scan xs reach rs s"
    and "(\<Sum>a \<in> traversed rt (g_heap s) xs v. block_size rt (g_heap s) a) < 2 ^ 62"
  shows "\<exists>depth s'. ml_objsize rt fuel v scan reach s =
      Inr ([Imm (int (\<Sum>a \<in> traversed rt (g_heap s) xs v. block_size rt (g_heap s) a)),
            Imm (int (card (traversed rt (g_heap s) xs v))), Imm (int depth),
            Imm (if traversed rt (g_heap s) xs v \<inter> set rs = {} then 0 else 1)], s') \<and>
    depth \<le> card (traversed rt (g_heap s) xs v) - 1"
proof -
  let ?T = "traversed rt (g_heap s) xs v"
  from assms(1) have "root_ok rt (g_heap s) v" by (simp add: inputs_ok_def)
  then obtain ord where ord: "walk_order rt (g_heap s) xs v ord" using walk_order_exists by blast
  note W = walk_order_facts [OF ord] and totals = walk_totals [OF ord]
  have "card ?T \<le> length (g_heap s)"
    using card_mono [OF finite_lessThan, of ?T "length (g_heap s)"] W(1,3) by auto
  then have small: "card ?T < 2 ^ 62" using assms(1) by (auto simp: inputs_ok_def color_cap_def)
  have V: "Val_int (of_nat n) = Imm (int n)" if "n < 2 ^ 62" for n
    using that by (simp add: Val_int_def unsigned_of_nat take_bit_nat_eq_self signed_take_bit_int_eq_self
      flip: of_nat_take_bit)
  from c_objsize_run [OF assms(1) ord] obtain s' where run: "c_objsize rt fuel v scan reach s =
      Inr (\<lparr>m_reached = (if ?T \<inter> set rs = {} then 0 else 1), m_headers = of_nat (card ?T),
            m_data = of_nat (\<Sum>a \<in> ?T. block_size rt (g_heap s) a),
            m_depth = of_nat (fold max (map snd ord) 0)\<rparr>, s')"
    using totals(1) totals(2) [of "block_size rt (g_heap s)"] W(1) by (auto simp del: of_nat_sum)
  from totals(3) small have d: "fold max (map snd ord) 0 < 2 ^ 62" by linarith
  show ?thesis
    by (rule exI [of _ "fold max (map snd ord) 0"], rule exI [of _ s'], rule conjI [OF _ totals(3)],
        simp add: ml_objsize_def run V [OF d] V [OF small] V [OF assms(2)] Val_bool_def del: of_nat_sum)
qed

theorem ml_objsize_measures_witness:
  "\<exists>depth s'. ml_objsize ex_rt 5 (Ptr 0) (Ptr 3) (Ptr 4) ex_objs =
      Inr ([Imm (int (\<Sum>a \<in> traversed ex_rt (g_heap ex_objs) [2] (Ptr 0). block_size ex_rt (g_heap ex_objs) a)),
            Imm (int (card (traversed ex_rt (g_heap ex_objs) [2] (Ptr 0)))), Imm (int depth),
            Imm (if traversed ex_rt (g_heap ex_objs) [2] (Ptr 0) \<inter> set [1] = {} then 0 else 1)], s') \<and>
    depth \<le> card (traversed ex_rt (g_heap ex_objs) [2] (Ptr 0)) - 1"
proof (rule ml_objsize_measures [OF ex_inputs_ok])
  have "traversed ex_rt (g_heap ex_objs) [2] (Ptr 0) \<subseteq> {..<5}"
    using ex_inputs_ok walk_order_exists [of ex_rt "g_heap ex_objs" "Ptr 0" "[2]"] walk_order_facts(1,3)
    by (fastforce simp: inputs_ok_def ex_objs_def)
  then have "(\<Sum>a \<in> traversed ex_rt (g_heap ex_objs) [2] (Ptr 0). block_size ex_rt (g_heap ex_objs) a) \<le>
      (\<Sum>a \<in> {..<5}. block_size ex_rt (g_heap ex_objs) a)" by (intro sum_mono2) auto
  also have "\<dots> < 2 ^ 62"
    by (simp add: lessThan_nat_numeral lessThan_Suc block_size_def ex_rt_def ex_objs_def)
  finally show "(\<Sum>a \<in> traversed ex_rt (g_heap ex_objs) [2] (Ptr 0). block_size ex_rt (g_heap ex_objs) a) < 2 ^ 62" .
qed



end
