(* ===== verification/ProcBuffer.thy ===== *)
theory ProcBuffer imports Bitarray begin

text \<open>
  The string buffer of libs/extc/process_stubs.c: a list of blocks of growing size, newest first,
  whose contents \<open>buffer_to_string\<close> joins. The allocator is the one of \<open>Bitarray\<close>; a failed malloc
  is not checked by the code and ends in a write through null. Signed overflow is undefined in C and
  a fault here.
\<close>

section \<open>Data and operations\<close>

text \<open>\<open>str\<close> holds all \<open>size\<close> bytes of the block; the first \<open>len\<close> of them are in use.\<close>

record stringitem =
  str :: string
  size_of_item :: int
  len_of_item :: int

record buffer =
  totlen :: int
  blen :: int
  data :: "stringitem list"

definition junk_char :: "cmem \<Rightarrow> nat \<Rightarrow> char" where
  "junk_char m i = char_of (unat (junk m i))"

text \<open>\<open>malloc\<close> of an int: a negative size becomes one of at least \<open>2 ^ 63\<close>, which never succeeds.\<close>

definition malloc_chars :: "cmem \<Rightarrow> int \<Rightarrow> string option" where
  "malloc_chars m n =
     (if 0 \<le> n \<and> malloc_ok m (nat n) then Some (map (junk_char m) [0..<nat n]) else None)"

definition int_result :: "int \<Rightarrow> c_fault + int" where
  "int_result x = (if - (2 ^ 31) \<le> x \<and> x < 2 ^ 31 then Inr x else Inl (Undef ''signed overflow''))"

text \<open>\<open>memcpy(dst + off, src, n)\<close>\<close>

definition memcpy :: "string \<Rightarrow> int \<Rightarrow> string \<Rightarrow> int \<Rightarrow> c_fault + string" where
  "memcpy dst off src n =
     (if 0 \<le> n \<and> 0 \<le> off \<and> off + n \<le> int (length dst) \<and> n \<le> int (length src)
      then Inr (take (nat off) dst @ take (nat n) src @ drop (nat (off + n)) dst)
      else Inl (Undef ''memcpy''))"

text \<open>The loop \<open>while( b->totlen >= (b->blen << 2) ) b->blen <<= 1\<close>, with fuel.\<close>

fun grow_blen :: "nat \<Rightarrow> int \<Rightarrow> int \<Rightarrow> c_fault + int" where
  "grow_blen 0 tot bl = Inl Fuel"
| "grow_blen (Suc fuel) tot bl =
     rbind (int_result (bl * 4)) (\<lambda>lim.
       if tot \<ge> lim then rbind (int_result (bl * 2)) (grow_blen fuel tot) else Inr bl)"

definition buffer_append_new :: "cmem \<Rightarrow> buffer \<Rightarrow> string \<Rightarrow> int \<Rightarrow> c_fault + buffer" where
  "buffer_append_new m b s len =
     rbind (grow_blen 32 (totlen b) (blen b)) (\<lambda>bl.
       let size = (if len < bl then bl else len)
       in if \<not> malloc_ok m 24 then Inl (Undef ''null write'') else
          case malloc_chars m size of
            None \<Rightarrow> Inl (Undef ''null write'')
          | Some block \<Rightarrow> rbind (memcpy block 0 s len) (\<lambda>block.
              Inr (b\<lparr>blen := bl,
                     data := \<lparr>str = block, size_of_item = size, len_of_item = len\<rparr> # data b\<rparr>)))"

text \<open>\<open>s\<close> is \<open>None\<close> for a null pointer, else the bytes it points to.\<close>

definition buffer_append_sub :: "cmem \<Rightarrow> buffer \<Rightarrow> string option \<Rightarrow> int \<Rightarrow> c_fault + buffer" where
  "buffer_append_sub m b s len =
     (case s of None \<Rightarrow> Inr b
      | Some s \<Rightarrow>
          if len \<le> 0 then Inr b
          else rbind (int_result (totlen b + len)) (\<lambda>tot.
            let b = b\<lparr>totlen := tot\<rparr>
            in case data b of [] \<Rightarrow> buffer_append_new m b s len
               | it # rest \<Rightarrow>
                   let free = size_of_item it - len_of_item it
                   in if free \<ge> len
                      then rbind (memcpy (str it) (len_of_item it) s len) (\<lambda>block.
                           Inr (b\<lparr>data := it\<lparr>str := block, len_of_item := len_of_item it + len\<rparr> # rest\<rparr>))
                      else rbind (memcpy (str it) (len_of_item it) s free) (\<lambda>block.
                           buffer_append_new m
                             (b\<lparr>data := it\<lparr>str := block, len_of_item := len_of_item it + free\<rparr> # rest\<rparr>)
                             (drop (nat free) s) (len - free))))"

text \<open>A C string is cut at its first zero byte.\<close>

definition c_str :: "string \<Rightarrow> string" where
  "c_str s = takeWhile (\<lambda>c. c \<noteq> CHR 0x00) s"

definition buffer_append_str :: "cmem \<Rightarrow> buffer \<Rightarrow> string option \<Rightarrow> c_fault + buffer" where
  "buffer_append_str m b s =
     (case s of None \<Rightarrow> Inr b | Some t \<Rightarrow> buffer_append_sub m b s (int (length (c_str t))))"

definition alloc_buffer :: "cmem \<Rightarrow> string option \<Rightarrow> c_fault + buffer" where
  "alloc_buffer m init =
     (if \<not> malloc_ok m 16 then Inl (Undef ''null write'')
      else let b = \<lparr>totlen = 0, blen = 16, data = []\<rparr>
           in case init of None \<Rightarrow> Inr b | Some t \<Rightarrow> buffer_append_str m b init)"

definition buffer_append_char :: "cmem \<Rightarrow> buffer \<Rightarrow> char \<Rightarrow> c_fault + buffer" where
  "buffer_append_char m b c =
     rbind (int_result (totlen b + 1)) (\<lambda>tot.
       let b = b\<lparr>totlen := tot\<rparr>
       in case data b of
            it # rest \<Rightarrow>
              if len_of_item it \<noteq> size_of_item it
              then rbind (memcpy (str it) (len_of_item it) [c] 1) (\<lambda>block.
                   Inr (b\<lparr>data := it\<lparr>str := block, len_of_item := len_of_item it + 1\<rparr> # rest\<rparr>))
              else buffer_append_new m b [c] 1
          | [] \<Rightarrow> buffer_append_new m b [c] 1)"

text \<open>\<open>buffer_to_string\<close> fills the block from its end, newest item first.\<close>

fun copy_items :: "stringitem list \<Rightarrow> int \<Rightarrow> string \<Rightarrow> c_fault + string" where
  "copy_items [] s v = Inr v"
| "copy_items (it # rest) s v =
     (let s = s - len_of_item it
      in rbind (memcpy v s (str it) (len_of_item it)) (copy_items rest s))"

definition buffer_to_string :: "cmem \<Rightarrow> buffer \<Rightarrow> c_fault + string" where
  "buffer_to_string m b =
     rbind (int_result (totlen b + 1)) (\<lambda>n.
       case malloc_chars m n of
         None \<Rightarrow> Inl (Undef ''null write'')
       | Some v \<Rightarrow> rbind (memcpy v (totlen b) [CHR 0x00] 1) (copy_items (data b) (totlen b)))"

definition buffer_length :: "buffer \<Rightarrow> int" where
  "buffer_length b = totlen b"

section \<open>The text a buffer holds\<close>

definition item_text :: "stringitem \<Rightarrow> string" where
  "item_text it = take (nat (len_of_item it)) (str it)"

definition items_text :: "stringitem list \<Rightarrow> string" where
  "items_text its = concat (map item_text (rev its))"

lemma items_text_simps [simp]:
  "items_text [] = []"
  "items_text (it # its) = items_text its @ item_text it"
  by (simp_all add: items_text_def)

definition item_ok :: "stringitem \<Rightarrow> bool" where
  "item_ok it \<longleftrightarrow> 0 \<le> len_of_item it \<and> len_of_item it \<le> size_of_item it \<and>
     size_of_item it = int (length (str it))"

text \<open>\<open>B\<close> bounds what malloc can serve, as in \<open>ColorStream\<close>; 24 is the larger of the two structs.\<close>

definition holds :: "cmem \<Rightarrow> nat \<Rightarrow> buffer \<Rightarrow> string \<Rightarrow> bool" where
  "holds m B b t \<longleftrightarrow>
     24 \<le> B \<and> (\<forall>n \<le> B. malloc_ok m n) \<and> items_text (data b) = t \<and> totlen b = int (length t) \<and>
     list_all item_ok (data b) \<and> 16 \<le> blen b \<and> 2 * blen b \<le> max 32 (totlen b)"

definition text_cap :: "nat \<Rightarrow> nat" where
  "text_cap B = min (2 ^ 30 - 1) (B - 1)"

lemma grow_blen_ok:
  "0 < bl \<Longrightarrow> tot < 2 ^ 30 \<Longrightarrow> bl < 2 ^ 29 \<Longrightarrow> tot < bl * 2 ^ fuel \<Longrightarrow>
   \<exists>bl'. grow_blen (Suc fuel) tot bl = Inr bl' \<and> bl \<le> bl' \<and> 2 * bl' \<le> max (2 * bl) tot"
proof (induction fuel arbitrary: bl)
  case 0
  then show ?case by (simp add: int_result_def)
next
  case (Suc fuel)
  show ?case
  proof (cases "bl * 4 \<le> tot")
    case True
    with Suc.IH [of "bl * 2"] Suc.prems obtain bl' where
      "grow_blen (Suc fuel) tot (bl * 2) = Inr bl'" "bl * 2 \<le> bl'" "2 * bl' \<le> max (2 * (bl * 2)) tot"
      by (auto simp: mult.assoc)
    with True Suc.prems show ?thesis by (intro exI [where x = bl']) (simp add: int_result_def)
  next
    case False
    with Suc.prems show ?thesis by (simp add: int_result_def)
  qed
qed

lemma append_new_ok:
  assumes "holds m B (b\<lparr>totlen := int (length t)\<rparr>) t" "0 < len" "len \<le> int (length s)"
    and "totlen b = int (length t) + len" "length t + nat len \<le> text_cap B"
  shows "\<exists>b'. buffer_append_new m b s len = Inr b' \<and> holds m B b' (t @ take (nat len) s)"
proof -
  from assms(1) have H: "24 \<le> B" "\<forall>n \<le> B. malloc_ok m n" "items_text (data b) = t"
    "list_all item_ok (data b)" "16 \<le> blen b" "2 * blen b \<le> max 32 (int (length t))"
    by (auto simp: holds_def)
  have tot: "totlen b < 2 ^ 30" "totlen b < int B"
    using assms(2,4,5) by (auto simp: text_cap_def)
  have "totlen b < blen b * 2 ^ 31" using tot(1) H(5) by simp
  moreover have "blen b < 2 ^ 29" using H(6) tot(1) assms(2,4) by simp
  ultimately obtain bl where
    g: "grow_blen 32 (totlen b) (blen b) = Inr bl" "blen b \<le> bl" "2 * bl \<le> max (2 * blen b) (totlen b)"
    using grow_blen_ok [of "blen b" "totlen b" 31] H(5) tot(1) by auto
  have bl: "2 * bl \<le> max 32 (totlen b)" using g(3) H(6) assms(2,4) by auto
  let ?size = "if len < bl then bl else len"
  have size: "0 \<le> ?size" "nat ?size \<le> B" "len \<le> ?size" using g bl H tot assms(2,4) by auto
  let ?block = "take (nat len) s @ drop (nat len) (map (junk_char m) [0..<nat ?size])"
  have "buffer_append_new m b s len =
      Inr (b\<lparr>blen := bl, data := \<lparr>str = ?block, size_of_item = ?size, len_of_item = len\<rparr> # data b\<rparr>)"
    using size H(1,2) g(1) assms(2,3)
    by (simp add: buffer_append_new_def malloc_chars_def memcpy_def Let_def del: upt_Suc)
  moreover have "holds m B (b\<lparr>blen := bl, data := \<lparr>str = ?block, size_of_item = ?size, len_of_item = len\<rparr> # data b\<rparr>)
      (t @ take (nat len) s)"
    using size H g(2) bl assms(2-4)
    by (simp add: holds_def item_ok_def item_text_def min_absorb2 nat_le_iff)
  ultimately show ?thesis by blast
qed

lemma fill_item_ok:
  assumes "holds m B (b\<lparr>totlen := int (length t)\<rparr>) t" "data b = it # rest"
    and "0 \<le> n" "n \<le> size_of_item it - len_of_item it" "n \<le> int (length s)"
  shows "\<exists>block. memcpy (str it) (len_of_item it) s n = Inr block \<and>
    holds m B (b\<lparr>totlen := int (length t) + n,
        data := it\<lparr>str := block, len_of_item := len_of_item it + n\<rparr> # rest\<rparr>)
      (t @ take (nat n) s)"
proof -
  from assms(1,2) have it: "item_ok it" "t = items_text rest @ item_text it" by (auto simp: holds_def)
  then have len: "length (item_text it) = nat (len_of_item it)" "0 \<le> len_of_item it"
    "len_of_item it + n \<le> int (length (str it))" "nat n \<le> length s"
    using assms(4,5) by (auto simp: item_ok_def item_text_def)
  let ?block = "item_text it @ take (nat n) s @ drop (nat (len_of_item it + n)) (str it)"
  have "memcpy (str it) (len_of_item it) s n = Inr ?block"
    using len(2,3) assms(3,5) by (simp add: memcpy_def item_text_def)
  moreover have "take (nat (len_of_item it + n)) ?block = item_text it @ take (nat n) s"
    using len assms(3,5) by (simp add: nat_add_distrib min_def)
  moreover have "length ?block = length (str it)" using len assms(3,5) by (simp add: nat_add_distrib min_def)
  ultimately show ?thesis
    using assms it by (auto simp: holds_def item_ok_def item_text_def)
qed

lemma append_sub_ok:
  assumes "holds m B b t" "0 \<le> len" "len \<le> int (length s)" "length t + nat len \<le> text_cap B"
  shows "\<exists>b'. buffer_append_sub m b (Some s) len = Inr b' \<and> holds m B b' (t @ take (nat len) s)"
proof (cases "len = 0")
  case True
  with assms(1) show ?thesis by (simp add: buffer_append_sub_def)
next
  case False
  then have pos: "0 < len" using assms(2) by simp
  from assms(1) have tl: "totlen b = int (length t)" by (simp add: holds_def)
  have tot: "int_result (totlen b + len) = Inr (int (length t) + len)"
    using assms(2,4) tl by (cases len) (simp_all add: int_result_def text_cap_def)
  let ?b = "b\<lparr>totlen := int (length t) + len\<rparr>"
  have b0: "holds m B (?b\<lparr>totlen := int (length t)\<rparr>) t" using assms(1) tl by (simp add: holds_def)
  show ?thesis
  proof (cases "data b")
    case Nil
    with append_new_ok [OF b0 pos assms(3) _ assms(4)] pos tot show ?thesis
      by (simp add: buffer_append_sub_def)
  next
    case (Cons it rest)
    from assms(1) Cons have it: "item_ok it" by (simp add: holds_def)
    let ?free = "size_of_item it - len_of_item it"
    show ?thesis
    proof (cases "?free \<ge> len")
      case True
      from fill_item_ok [OF b0 _ assms(2) True assms(3)] Cons pos tot True show ?thesis
        by (auto simp: buffer_append_sub_def Let_def)
    next
      case False
      let ?f = "nat ?free"
      have free: "0 \<le> ?free" "?free \<le> int (length s)" using it False assms(3) by (auto simp: item_ok_def)
      from fill_item_ok [OF b0 _ free(1) order_refl free(2)] Cons obtain block where
        1: "memcpy (str it) (len_of_item it) s ?free = Inr block"
          "holds m B (?b\<lparr>totlen := int (length t) + ?free,
             data := it\<lparr>str := block, len_of_item := len_of_item it + ?free\<rparr> # rest\<rparr>) (t @ take ?f s)"
        by auto
      let ?b2 = "?b\<lparr>data := it\<lparr>str := block, len_of_item := len_of_item it + ?free\<rparr> # rest\<rparr>"
      have lens: "length (t @ take ?f s) = length t + ?f" using free by simp
      have "holds m B (?b2\<lparr>totlen := int (length (t @ take ?f s))\<rparr>) (t @ take ?f s)"
        using 1(2) free by (simp add: lens holds_def)
      moreover have "0 < len - ?free" using False by simp
      moreover have "len - ?free \<le> int (length (drop ?f s))" using assms(3) free by simp
      moreover have "totlen ?b2 = int (length (t @ take ?f s)) + (len - ?free)"
        using lens free by simp
      moreover have "length (t @ take ?f s) + nat (len - ?free) \<le> text_cap B"
        using lens free assms(4) False by linarith
      ultimately obtain b' where
        2: "buffer_append_new m ?b2 (drop ?f s) (len - ?free) = Inr b'"
          "holds m B b' ((t @ take ?f s) @ take (nat (len - ?free)) (drop ?f s))"
        using append_new_ok by blast
      have "?f + nat (len - ?free) = nat len" using free False by linarith
      then have "take ?f s @ take (nat (len - ?free)) (drop ?f s) = take (nat len) s"
        by (simp add: take_add [symmetric])
      with 1 2 Cons pos tot False show ?thesis by (auto simp: buffer_append_sub_def Let_def)
    qed
  qed
qed

lemma append_str_ok:
  assumes "holds m B b t" "length t + length (c_str u) \<le> text_cap B"
  shows "\<exists>b'. buffer_append_str m b (Some u) = Inr b' \<and> holds m B b' (t @ c_str u)"
proof -
  have "length (c_str u) \<le> length u" by (simp add: c_str_def length_takeWhile_le)
  moreover have "take (length (c_str u)) u = c_str u" by (simp add: c_str_def takeWhile_eq_take [symmetric])
  ultimately show ?thesis
    using append_sub_ok [OF assms(1), of "int (length (c_str u))" u] assms(2)
    by (simp add: buffer_append_str_def)
qed

lemma append_char_ok:
  assumes "holds m B b t" "length t < text_cap B"
  shows "\<exists>b'. buffer_append_char m b c = Inr b' \<and> holds m B b' (t @ [c])"
proof -
  from assms(1) have tl: "totlen b = int (length t)" by (simp add: holds_def)
  have tot: "int_result (totlen b + 1) = Inr (int (length t) + 1)"
    using assms(2) tl by (simp add: int_result_def text_cap_def)
  let ?b = "b\<lparr>totlen := int (length t) + 1\<rparr>"
  have b0: "holds m B (?b\<lparr>totlen := int (length t)\<rparr>) t" using assms(1) tl by (simp add: holds_def)
  have new: "\<exists>b'. buffer_append_new m ?b [c] 1 = Inr b' \<and> holds m B b' (t @ [c])"
    using append_new_ok [OF b0, of 1 "[c]"] assms(2) by simp
  show ?thesis
  proof (cases "data b")
    case Nil
    with new tot show ?thesis by (simp add: buffer_append_char_def)
  next
    case (Cons it rest)
    from assms(1) Cons have it: "item_ok it" by (simp add: holds_def)
    show ?thesis
    proof (cases "len_of_item it = size_of_item it")
      case True
      with new tot Cons show ?thesis by (simp add: buffer_append_char_def)
    next
      case False
      with it have "1 \<le> size_of_item it - len_of_item it" by (simp add: item_ok_def)
      from fill_item_ok [OF b0 _ _ this, of rest "[c]"] Cons False tot show ?thesis
        by (auto simp: buffer_append_char_def Let_def)
    qed
  qed
qed

lemma alloc_buffer_ok:
  assumes "24 \<le> B" "\<forall>n \<le> B. malloc_ok m n"
  shows "\<exists>b. alloc_buffer m None = Inr b \<and> holds m B b []"
  using assms by (simp add: alloc_buffer_def holds_def)

lemma copy_items_ok:
  "list_all item_ok its \<Longrightarrow> s = int (length (items_text its)) \<Longrightarrow> length (items_text its) \<le> length v \<Longrightarrow>
     copy_items its s v = Inr (items_text its @ drop (length (items_text its)) v)"
proof (induction its arbitrary: s v)
  case (Cons it its)
  let ?t = "items_text its" and ?n = "len_of_item it"
  from Cons.prems(1) have it: "0 \<le> ?n" "?n \<le> int (length (str it))" "length (item_text it) = nat ?n"
    by (auto simp: item_ok_def item_text_def)
  let ?v = "take (length ?t) v @ item_text it @ drop (length ?t + nat ?n) v"
  have s: "s - ?n = int (length ?t)" using Cons.prems(2) it by simp
  have "int (length ?t) + ?n \<le> int (length v)" using Cons.prems(3) it by simp
  then have "memcpy v (s - ?n) (str it) ?n = Inr ?v"
    using it s by (simp add: memcpy_def item_text_def nat_add_distrib)
  moreover have "copy_items its (s - ?n) ?v = Inr (?t @ drop (length ?t) ?v)"
    using Cons.prems s it by (intro Cons.IH) auto
  ultimately show ?case using Cons.prems(3) it(3) by simp
qed simp

lemma to_string_ok:
  assumes "holds m B b t" "length t < B" "length t < 2 ^ 31 - 1"
  shows "buffer_to_string m b = Inr (t @ [CHR 0x00])"
proof -
  let ?v = "map (junk_char m) [0..<Suc (length t)]"
  let ?w = "take (length t) ?v @ [CHR 0x00]"
  from assms(1) have H: "totlen b = int (length t)" "items_text (data b) = t" "list_all item_ok (data b)"
    "malloc_ok m (Suc (length t))" using assms(2) by (auto simp: holds_def)
  have "copy_items (data b) (totlen b) ?w = Inr (t @ [CHR 0x00])"
    using copy_items_ok [OF H(3), of "totlen b" ?w] H(1,2) by simp
  moreover have "memcpy ?v (totlen b) [CHR 0x00] 1 = Inr ?w"
    by (simp add: memcpy_def H(1) nat_add_distrib)
  moreover have "malloc_chars m (totlen b + 1) = Some ?v"
    using H(1,4) by (simp add: malloc_chars_def nat_add_distrib del: upt_Suc)
  moreover have "int_result (totlen b + 1) = Inr (totlen b + 1)"
    using H(1) assms(3) by (simp add: int_result_def)
  ultimately show ?thesis by (simp add: buffer_to_string_def)
qed

section \<open>The interface of a text writer\<close>

text \<open>What the clients of the buffer rely on: characters and C strings are appended in order.\<close>

locale text_writer = writer put_char "\<lambda>_. True" wrep cap
  for put_char :: "char \<Rightarrow> 's \<Rightarrow> c_fault + 's" and wrep :: "'s \<Rightarrow> string \<Rightarrow> bool" and cap :: nat +
  fixes put_str :: "string \<Rightarrow> 's \<Rightarrow> c_fault + 's"
  assumes put_str_ok: "wrep s t \<Longrightarrow> length t + length (c_str u) \<le> cap \<Longrightarrow>
    \<exists>s'. put_str u s = Inr s' \<and> wrep s' (t @ c_str u)"
begin

lemma put_repeat:
  "wrep s t \<Longrightarrow> length t + n \<le> cap \<Longrightarrow>
     \<exists>s'. put_all put_char (replicate n c) s = Inr s' \<and> wrep s' (t @ replicate n c)"
  using put_all_ok [of s t "replicate n c"] by (simp add: list_all_iff)

end

interpretation buf: text_writer "\<lambda>c b. buffer_append_char m b c" "holds m B" "text_cap B"
  "\<lambda>u b. buffer_append_str m b (Some u)"
  for m B
  by unfold_locales (auto intro: append_char_ok append_str_ok)

section \<open>Properties\<close>

datatype piece = Chr char | Text string

definition append_piece :: "cmem \<Rightarrow> piece \<Rightarrow> buffer \<Rightarrow> c_fault + buffer" where
  "append_piece m p b =
     (case p of Chr c \<Rightarrow> buffer_append_char m b c | Text u \<Rightarrow> buffer_append_str m b (Some u))"

definition piece_text :: "piece \<Rightarrow> string" where
  "piece_text p = (case p of Chr c \<Rightarrow> [c] | Text u \<Rightarrow> c_str u)"

lemma append_pieces_ok:
  "holds m B b t \<Longrightarrow> length t + length (concat (map piece_text ps)) \<le> text_cap B \<Longrightarrow>
     \<exists>b'. put_all (append_piece m) ps b = Inr b' \<and> holds m B b' (t @ concat (map piece_text ps))"
proof (induction ps arbitrary: b t)
  case (Cons p ps)
  have "\<exists>b1. append_piece m p b = Inr b1 \<and> holds m B b1 (t @ piece_text p)"
    using buf.put_ok [OF Cons.prems(1)] buf.put_str_ok [OF Cons.prems(1)] Cons.prems(2)
    by (cases p) (simp_all add: append_piece_def piece_text_def)
  then obtain b1 where b1: "append_piece m p b = Inr b1" "holds m B b1 (t @ piece_text p)" by blast
  with Cons.IH [OF b1(2)] Cons.prems(2) show ?case by auto
qed simp

text \<open>C12: a buffer filled by any sequence of character and string appends yields the concatenation of
  what was appended (each string up to its first zero byte), terminated by a zero, and its length.\<close>

theorem buffer_builds_string:
  assumes "24 \<le> B" "\<forall>n \<le> B. malloc_ok m n"
    and "length (concat (map piece_text ps)) \<le> text_cap B"
  shows "\<exists>b b'. alloc_buffer m None = Inr b \<and> put_all (append_piece m) ps b = Inr b' \<and>
    buffer_length b' = int (length (concat (map piece_text ps))) \<and>
    buffer_to_string m b' = Inr (concat (map piece_text ps) @ [CHR 0x00])"
proof -
  let ?t = "concat (map piece_text ps)"
  from alloc_buffer_ok [OF assms(1,2)] obtain b where b: "alloc_buffer m None = Inr b" "holds m B b []"
    by blast
  from append_pieces_ok [OF b(2), of ps] assms(3) obtain b' where
    b': "put_all (append_piece m) ps b = Inr b'" "holds m B b' ?t" by auto
  have "length ?t < B" "length ?t < 2 ^ 31 - 1" using assms(1,3) by (auto simp: text_cap_def)
  with to_string_ok [OF b'(2)] b b' show ?thesis by (simp add: buffer_length_def holds_def)
qed

theorem buffer_builds_string_witness:
  "\<exists>b b'. alloc_buffer \<lparr>malloc_ok = (\<lambda>n. n \<le> 24), junk = (\<lambda>_. 0)\<rparr> None = Inr b \<and>
    put_all (append_piece \<lparr>malloc_ok = (\<lambda>n. n \<le> 24), junk = (\<lambda>_. 0)\<rparr>) [Chr CHR ''a'', Text ''bc''] b = Inr b' \<and>
    buffer_length b' = int (length (concat (map piece_text [Chr CHR ''a'', Text ''bc'']))) \<and>
    buffer_to_string \<lparr>malloc_ok = (\<lambda>n. n \<le> 24), junk = (\<lambda>_. 0)\<rparr> b' =
      Inr (concat (map piece_text [Chr CHR ''a'', Text ''bc'']) @ [CHR 0x00])"
  by (rule buffer_builds_string [where B = 24]) (simp_all add: piece_text_def c_str_def text_cap_def)

text \<open>A block size that is a power of two cannot pass a total of \<open>2 ^ 30\<close> before it overflows.\<close>

lemma grow_blen_overflows:
  "k < 31 \<Longrightarrow> 31 - k \<le> fuel \<Longrightarrow> 2 ^ 30 \<le> tot \<Longrightarrow>
     grow_blen (Suc fuel) tot (2 ^ k) = Inl (Undef ''signed overflow'')"
proof (induction fuel arbitrary: k)
  case (Suc fuel)
  show ?case
  proof (cases "k < 29")
    case True
    then have le: "(2::int) ^ k * 4 \<le> 2 ^ 30"
      using power_increasing [of "k + 2" 30 "2::int"] by (simp add: power_add)
    have pos: "0 < (2::int) ^ k" by simp
    have r: "int_result x = Inr x" if "0 < x" "x \<le> 2 ^ 30" for x
      using that by (simp add: int_result_def)
    have "int_result (2 ^ k * 4) = Inr (2 ^ k * 4)" "int_result (2 ^ k * 2) = Inr (2 ^ Suc k)"
      using r [of "2 ^ k * 4"] r [of "2 ^ k * 2"] le pos by (simp_all add: mult.commute)
    moreover have "tot \<ge> 2 ^ k * 4" using le Suc.prems(3) by linarith
    moreover have "grow_blen (Suc fuel) tot (2 ^ Suc k) = Inl (Undef ''signed overflow'')"
      using Suc.IH [of "Suc k"] Suc.prems True by linarith
    ultimately show ?thesis by (subst grow_blen.simps(2)) (simp del: grow_blen.simps power_Suc)
  next
    case False
    then have "(2::int) ^ 31 \<le> 2 ^ k * 4" using power_increasing [of 31 "k + 2" "2::int"] by (simp add: power_add)
    then show ?thesis by (simp add: int_result_def)
  qed
qed simp

text \<open>A buffer cannot hold a gigabyte. Once the total has reached \<open>2 ^ 30\<close>, the loop that adjusts the
  block size shifts into the sign bit of an int: undefined behaviour, and with wrap-around a block
  size of 0 with which the loop never ends.\<close>

lemma buffer_gigabyte_overflows:
  assumes "blen b = 2 ^ k" "k < 31" "2 ^ 30 \<le> totlen b"
  shows "buffer_append_new m b s len = Inl (Undef ''signed overflow'')"
proof -
  have "grow_blen 32 (totlen b) (2 ^ k) = Inl (Undef ''signed overflow'')"
    using grow_blen_overflows [of k 31 "totlen b"] assms(2,3) unfolding Suc_numeral by simp
  then show ?thesis using assms(1) by (simp add: buffer_append_new_def)
qed

lemma buffer_gigabyte_overflows_example:
  "buffer_append_new \<lparr>malloc_ok = (\<lambda>_. True), junk = (\<lambda>_. 0)\<rparr>
     \<lparr>totlen = 2 ^ 30, blen = 16, data = []\<rparr> ''x'' 1 = Inl (Undef ''signed overflow'')"
  by (rule buffer_gigabyte_overflows [where k = 4]) simp_all

end
