(* ===== verification/ProcQuote.thy ===== *)
theory ProcQuote imports ProcBuffer begin

text \<open>
  The Windows half of \<open>process_run\<close> in libs/extc/process_stubs.c: building the command line that
  CreateProcess receives. It works on the string buffer of \<open>ProcBuffer\<close>. The rules by which the
  started program splits the line again (the C runtime's documented argument parsing) are stated as
  the abstract specification \<open>split_line\<close>.
\<close>

section \<open>Operations\<close>

abbreviation QUOTE :: char where "QUOTE \<equiv> CHR 0x22"
abbreviation BACKSLASH :: char where "BACKSLASH \<equiv> CHR 0x5C"

text \<open>The loop \<open>for (k=0;k<n;k++) buffer_append_char(b,c)\<close>.\<close>

definition repeat_char :: "cmem \<Rightarrow> char \<Rightarrow> 32 word \<Rightarrow> buffer \<Rightarrow> c_fault + buffer" where
  "repeat_char m c n b = put_all (\<lambda>c b. buffer_append_char m b c) (replicate (unat n) c) b"

fun arg_chars :: "cmem \<Rightarrow> string \<Rightarrow> 32 word \<Rightarrow> buffer \<Rightarrow> c_fault + 32 word \<times> buffer" where
  "arg_chars m [] bs_count b = Inr (bs_count, b)"
| "arg_chars m (c # cs) bs_count b =
     (if c = QUOTE
      then rbind (repeat_char m BACKSLASH (bs_count * 2) b) (\<lambda>b.
           rbind (buffer_append_str m b (Some [BACKSLASH, QUOTE])) (arg_chars m cs 0))
      else if c = BACKSLASH then arg_chars m cs (bs_count + 1) b
      else rbind (repeat_char m BACKSLASH bs_count b) (\<lambda>b.
           rbind (buffer_append_char m b c) (arg_chars m cs 0)))"

text \<open>The length of the argument is kept in an \<open>int\<close>.\<close>

definition append_arg :: "cmem \<Rightarrow> string \<Rightarrow> buffer \<Rightarrow> c_fault + buffer" where
  "append_arg m v b =
     (let len = s32 (int (length v))
      in rbind (buffer_append_str m b (Some [CHR '' '', QUOTE])) (\<lambda>b.
         rbind (arg_chars m (take (nat len) v) 0 b) (\<lambda>(bs_count, b).
         rbind (repeat_char m BACKSLASH (bs_count * 2) b) (\<lambda>b.
         buffer_append_char m b QUOTE))))"

definition quoted_line :: "cmem \<Rightarrow> string \<Rightarrow> string list \<Rightarrow> buffer \<Rightarrow> c_fault + buffer" where
  "quoted_line m cmd args b =
     rbind (buffer_append_char m b QUOTE) (\<lambda>b.
     rbind (buffer_append_str m b (Some cmd)) (\<lambda>b.
     rbind (buffer_append_char m b QUOTE) (\<lambda>b.
     put_all (append_arg m) args b)))"

text \<open>\<open>comspec\<close> is what getenv("COMSPEC") returns.\<close>

definition raw_line :: "cmem \<Rightarrow> string option \<Rightarrow> string \<Rightarrow> buffer \<Rightarrow> c_fault + buffer" where
  "raw_line m comspec cmd b =
     (let cmdexe = (case comspec of None \<Rightarrow> ''cmd.exe'' | Some s \<Rightarrow> s)
      in rbind (buffer_append_char m b QUOTE) (\<lambda>b.
         rbind (buffer_append_str m b (Some cmdexe)) (\<lambda>b.
         rbind (buffer_append_char m b QUOTE) (\<lambda>b.
         rbind (buffer_append_str m b (Some (''/C '' @ [QUOTE]))) (\<lambda>b.
         rbind (buffer_append_str m b (Some cmd)) (\<lambda>b.
         buffer_append_char m b QUOTE))))))"

definition win_command_line ::
  "cmem \<Rightarrow> string option \<Rightarrow> string \<Rightarrow> string list option \<Rightarrow> c_fault + string" where
  "win_command_line m comspec cmd vargs =
     rbind (alloc_buffer m None) (\<lambda>b.
     rbind (case vargs of None \<Rightarrow> raw_line m comspec cmd b | Some args \<Rightarrow> quoted_line m cmd args b)
       (buffer_to_string m))"

section \<open>The text that is written\<close>

fun escaped :: "nat \<Rightarrow> string \<Rightarrow> string" where
  "escaped n [] = replicate (2 * n) BACKSLASH"
| "escaped n (c # cs) =
     (if c = QUOTE then replicate (2 * n) BACKSLASH @ [BACKSLASH, QUOTE] @ escaped 0 cs
      else if c = BACKSLASH then escaped (Suc n) cs
      else replicate n BACKSLASH @ c # escaped 0 cs)"

definition arg_text :: "string \<Rightarrow> string" where
  "arg_text v = [CHR '' '', QUOTE] @ escaped 0 v @ [QUOTE]"

definition line_text :: "string \<Rightarrow> string list \<Rightarrow> string" where
  "line_text cmd args = QUOTE # c_str cmd @ QUOTE # concat (map arg_text args)"

lemma length_escaped: "n + length cs \<le> length (escaped n cs)"
  by (induction n cs rule: escaped.induct) auto

lemma c_str_lit [simp]:
  "c_str [BACKSLASH, QUOTE] = [BACKSLASH, QUOTE]"
  "c_str [CHR '' '', QUOTE] = [CHR '' '', QUOTE]"
  "c_str (''/C '' @ [QUOTE]) = ''/C '' @ [QUOTE]"
  by (simp_all add: c_str_def)

lemma repeat_char_ok:
  assumes "holds m B b t" "length t + unat n \<le> text_cap B"
  shows "\<exists>b'. repeat_char m c n b = Inr b' \<and> holds m B b' (t @ replicate (unat n) c)"
  using buf.put_repeat [OF assms] by (simp add: repeat_char_def)

lemma bs_count_facts:
  assumes "n < 2 ^ 30"
  shows "unat (of_nat n :: 32 word) = n" "unat (of_nat n * 2 :: 32 word) = 2 * n"
    "(of_nat n :: 32 word) + 1 = of_nat (Suc n)"
proof -
  have small: "unat (of_nat k :: 32 word) = k" if "k < 2 ^ 32" for k
    using that by (simp add: unsigned_of_nat take_bit_nat_eq_self)
  have "of_nat n * 2 = (of_nat (2 * n) :: 32 word)" by (simp add: mult.commute)
  then show "unat (of_nat n * 2 :: 32 word) = 2 * n"
    using small [of "2 * n"] assms by (simp del: of_nat_mult)
  show "unat (of_nat n :: 32 word) = n" using small assms by simp
qed simp

lemma arg_chars_ok:
  "holds m B b t \<Longrightarrow> length t + length (escaped n cs) \<le> text_cap B \<Longrightarrow>
     \<exists>k u b'. arg_chars m cs (of_nat n) b = Inr (of_nat k, b') \<and> k < 2 ^ 30 \<and>
       escaped n cs = u @ replicate (2 * k) BACKSLASH \<and> holds m B b' (t @ u)"
proof (induction n cs arbitrary: b t rule: escaped.induct)
  case (1 n)
  then have "n < 2 ^ 30" by (auto simp: text_cap_def)
  with 1 show ?case by (intro exI [of _ n] exI [of _ "[]"] exI [of _ b]) simp
next
  case (2 n c cs)
  have "n < 2 ^ 30" using "2.prems"(2) length_escaped [of n "c # cs"] by (simp add: text_cap_def)
  note bs = bs_count_facts [OF this]
  consider "c = QUOTE" | "c = BACKSLASH" | "c \<noteq> QUOTE" "c \<noteq> BACKSLASH" by blast
  then show ?case
  proof cases
    case 1
    with repeat_char_ok [OF "2.prems"(1), of "of_nat n * 2" BACKSLASH] "2.prems"(2) bs obtain b1 where
      b1: "repeat_char m BACKSLASH (of_nat n * 2) b = Inr b1"
        "holds m B b1 (t @ replicate (2 * n) BACKSLASH)" by auto
    with buf.put_str_ok [OF b1(2), of "[BACKSLASH, QUOTE]"] "2.prems"(2) 1 obtain b2 where
      b2: "buffer_append_str m b1 (Some [BACKSLASH, QUOTE]) = Inr b2"
        "holds m B b2 (t @ replicate (2 * n) BACKSLASH @ [BACKSLASH, QUOTE])" by auto
    with "2.IH"(1) [OF 1 b2(2)] "2.prems"(2) 1 obtain k u b' where
      "arg_chars m cs (of_nat 0) b2 = Inr (of_nat k, b')" "k < 2 ^ 30"
      "escaped 0 cs = u @ replicate (2 * k) BACKSLASH"
      "holds m B b' ((t @ replicate (2 * n) BACKSLASH @ [BACKSLASH, QUOTE]) @ u)" by auto
    with 1 b1 b2 show ?thesis
      by (intro exI [of _ k] exI [of _ "replicate (2 * n) BACKSLASH @ [BACKSLASH, QUOTE] @ u"] exI [of _ b'])
        simp
  next
    case 2
    with "2.IH"(2) [OF _ _ "2.prems"(1)] "2.prems"(2) bs(3) show ?thesis by (simp add: add.commute)
  next
    case 3
    with repeat_char_ok [OF "2.prems"(1), of "of_nat n" BACKSLASH] "2.prems"(2) bs obtain b1 where
      b1: "repeat_char m BACKSLASH (of_nat n) b = Inr b1" "holds m B b1 (t @ replicate n BACKSLASH)"
      by auto
    with buf.put_ok [OF b1(2), of c] "2.prems"(2) 3 obtain b2 where
      b2: "buffer_append_char m b1 c = Inr b2" "holds m B b2 (t @ replicate n BACKSLASH @ [c])" by auto
    with "2.IH"(3) [OF 3 b2(2)] "2.prems"(2) 3 obtain k u b' where
      "arg_chars m cs (of_nat 0) b2 = Inr (of_nat k, b')" "k < 2 ^ 30"
      "escaped 0 cs = u @ replicate (2 * k) BACKSLASH"
      "holds m B b' ((t @ replicate n BACKSLASH @ [c]) @ u)" by auto
    with 3 b1 b2 show ?thesis
      by (intro exI [of _ k] exI [of _ "replicate n BACKSLASH @ c # u"] exI [of _ b']) simp
  qed
qed

lemma append_arg_ok:
  assumes "holds m B b t" "length t + length (arg_text v) \<le> text_cap B"
  shows "\<exists>b'. append_arg m v b = Inr b' \<and> holds m B b' (t @ arg_text v)"
proof -
  have len: "length v < 2 ^ 30" "length t + 3 + length (escaped 0 v) \<le> text_cap B"
    using assms(2) length_escaped [of 0 v] by (auto simp: arg_text_def text_cap_def)
  then have v: "take (nat (s32 (int (length v)))) v = v" by simp
  from buf.put_str_ok [OF assms(1), of "[CHR '' '', QUOTE]"] len(2) obtain b1 where
    1: "buffer_append_str m b (Some [CHR '' '', QUOTE]) = Inr b1" "holds m B b1 (t @ [CHR '' '', QUOTE])"
    by auto
  from arg_chars_ok [OF 1(2), of 0 v] len(2) obtain k u b2 where
    2: "arg_chars m v 0 b1 = Inr (of_nat k, b2)" "k < 2 ^ 30"
      "escaped 0 v = u @ replicate (2 * k) BACKSLASH" "holds m B b2 ((t @ [CHR '' '', QUOTE]) @ u)"
    by auto
  from repeat_char_ok [OF 2(4), of "of_nat k * 2" BACKSLASH] len(2) 2(3) bs_count_facts [OF 2(2)]
  obtain b3 where
    3: "repeat_char m BACKSLASH (of_nat k * 2) b2 = Inr b3"
      "holds m B b3 (((t @ [CHR '' '', QUOTE]) @ u) @ replicate (2 * k) BACKSLASH)" by auto
  from append_char_ok [OF 3(2), of QUOTE] len(2) 2(3) 1(1) 2(1) 3(1) v show ?thesis
    by (auto simp: append_arg_def arg_text_def Let_def simp del: s32_id)
qed

lemma quoted_line_ok:
  assumes "holds m B b []" "length (line_text cmd args) \<le> text_cap B"
  shows "\<exists>b'. quoted_line m cmd args b = Inr b' \<and> holds m B b' (line_text cmd args)"
proof -
  have args: "\<exists>b'. put_all (append_arg m) args b = Inr b' \<and> holds m B b' (t @ concat (map arg_text args))"
    if "holds m B b t" "length t + length (concat (map arg_text args)) \<le> text_cap B" for b t
    using that
  proof (induction args arbitrary: b t)
    case (Cons v args)
    from append_arg_ok [OF Cons.prems(1), of v] Cons.prems(2) obtain b1 where
      "append_arg m v b = Inr b1" "holds m B b1 (t @ arg_text v)" by auto
    with Cons.IH [of b1 "t @ arg_text v"] Cons.prems(2) show ?case by auto
  qed simp
  have len: "length (c_str cmd) + 2 + length (concat (map arg_text args)) \<le> text_cap B"
    using assms(2) by (simp add: line_text_def)
  from append_char_ok [OF assms(1), of QUOTE] len obtain b1 where
    1: "buffer_append_char m b QUOTE = Inr b1" "holds m B b1 [QUOTE]" by auto
  from append_str_ok [OF 1(2), of cmd] len obtain b2 where
    2: "buffer_append_str m b1 (Some cmd) = Inr b2" "holds m B b2 (QUOTE # c_str cmd)" by auto
  from append_char_ok [OF 2(2), of QUOTE] len obtain b3 where
    3: "buffer_append_char m b2 QUOTE = Inr b3" "holds m B b3 (QUOTE # c_str cmd @ [QUOTE])" by auto
  from args [OF 3(2)] len 1 2 3 show ?thesis by (simp add: quoted_line_def line_text_def)
qed

section \<open>How the started program splits its command line\<close>

text \<open>
  The documented rules: the program name ends at the quote that closes it; the arguments are
  separated by blanks outside quotes; backslashes are literal unless they precede a quote, where a
  pair stands for one backslash and an odd one makes the quote literal.
\<close>

definition is_blank :: "char \<Rightarrow> bool" where
  "is_blank c \<longleftrightarrow> c = CHR '' '' \<or> c = CHR 0x09"

text \<open>Inside an argument: whether a quote is open, the pending backslashes, the text so far.\<close>

definition eat :: "char \<Rightarrow> bool \<times> nat \<times> string \<Rightarrow> bool \<times> nat \<times> string" where
  "eat c st = (case st of (q, n, a) \<Rightarrow>
     if c = BACKSLASH then (q, Suc n, a)
     else if c = QUOTE
     then (if even n then (\<not> q, 0, a @ replicate (n div 2) BACKSLASH)
           else (q, 0, a @ replicate (n div 2) BACKSLASH @ [QUOTE]))
     else (q, 0, a @ replicate n BACKSLASH @ [c]))"

fun split_from :: "(bool \<times> nat \<times> string) option \<Rightarrow> string \<Rightarrow> string list" where
  "split_from None [] = []"
| "split_from None (c # cs) =
     (if is_blank c then split_from None cs else split_from (Some (eat c (False, 0, []))) cs)"
| "split_from (Some (q, n, a)) [] = [a @ replicate n BACKSLASH]"
| "split_from (Some (q, n, a)) (c # cs) =
     (if is_blank c \<and> \<not> q then (a @ replicate n BACKSLASH) # split_from None cs
      else split_from (Some (eat c (q, n, a))) cs)"

definition split_line :: "string \<Rightarrow> string list" where
  "split_line s =
     (case s of
        c # cs \<Rightarrow>
          if c = QUOTE
          then takeWhile (\<lambda>c. c \<noteq> QUOTE) cs # split_from None (drop 1 (dropWhile (\<lambda>c. c \<noteq> QUOTE) cs))
          else takeWhile (\<lambda>c. \<not> is_blank c) s # split_from None (dropWhile (\<lambda>c. \<not> is_blank c) s)
      | [] \<Rightarrow> [])"

lemma split_backslashes:
  "split_from (Some (True, n, a)) (replicate k BACKSLASH @ cs) = split_from (Some (True, n + k, a)) cs"
  by (induction k arbitrary: n) (simp_all add: eat_def)

lemma split_escaped:
  "split_from (Some (True, 0, a)) (escaped n v @ QUOTE # cs) =
     split_from (Some (False, 0, a @ replicate n BACKSLASH @ v)) cs"
proof (induction n v arbitrary: a rule: escaped.induct)
  case (1 n)
  then show ?case by (simp add: split_backslashes eat_def)
next
  case (2 n c v)
  consider "c = QUOTE" | "c = BACKSLASH" | "c \<noteq> QUOTE" "c \<noteq> BACKSLASH" by blast
  then show ?case
  proof cases
    case 1
    with "2.IH"(1) [OF 1] show ?thesis by (simp add: split_backslashes eat_def)
  next
    case 2
    with "2.IH"(2) show ?thesis by (simp add: replicate_app_Cons_same)
  next
    case 3
    with "2.IH"(3) [OF 3] show ?thesis by (simp add: split_backslashes eat_def)
  qed
qed

lemma split_args:
  "split_from None (concat (map arg_text args)) = args \<and>
   split_from (Some (False, 0, a)) (concat (map arg_text args)) = a # args"
proof (induction args arbitrary: a)
  case (Cons v args)
  have "split_from None (arg_text v @ cs) = split_from (Some (False, 0, v)) cs"
    "split_from (Some (False, 0, a)) (arg_text v @ cs) = a # split_from (Some (False, 0, v)) cs" for cs
    using split_escaped [of "[]" 0 v cs] by (simp_all add: arg_text_def is_blank_def eat_def)
  with Cons show ?case by simp
qed simp

lemma split_line_text:
  assumes "QUOTE \<notin> set (c_str cmd)"
  shows "split_line (line_text cmd args) = c_str cmd # args"
proof -
  have "takeWhile (\<lambda>c. c \<noteq> QUOTE) (c_str cmd @ QUOTE # cs) = c_str cmd"
    "dropWhile (\<lambda>c. c \<noteq> QUOTE) (c_str cmd @ QUOTE # cs) = QUOTE # cs" for cs
    using assms by simp_all
  then show ?thesis using split_args by (simp add: split_line_def line_text_def)
qed

lemma escaped_no_nul: "CHR 0x00 \<notin> set v \<Longrightarrow> CHR 0x00 \<notin> set (escaped n v)"
  by (induction n v rule: escaped.induct) auto

lemma c_str_id: "CHR 0x00 \<notin> set s \<Longrightarrow> c_str s = s"
  by (simp add: c_str_def)

lemma line_text_no_nul:
  assumes "\<forall>v \<in> set args. CHR 0x00 \<notin> set v"
  shows "CHR 0x00 \<notin> set (line_text cmd args)"
proof -
  have "CHR 0x00 \<notin> set (c_str cmd)" by (auto simp: c_str_def dest: set_takeWhileD)
  with assms show ?thesis by (auto simp: line_text_def arg_text_def dest: escaped_no_nul)
qed

lemma win_command_line_ok:
  assumes "24 \<le> B" "\<forall>n \<le> B. malloc_ok m n" "length (line_text cmd args) \<le> text_cap B"
  shows "win_command_line m comspec cmd (Some args) = Inr (line_text cmd args @ [CHR 0x00])"
proof -
  from alloc_buffer_ok [OF assms(1,2)] obtain b where b: "alloc_buffer m None = Inr b" "holds m B b []"
    by blast
  from quoted_line_ok [OF b(2) assms(3)] obtain b' where
    b': "quoted_line m cmd args b = Inr b'" "holds m B b' (line_text cmd args)" by blast
  have "length (line_text cmd args) < B" "length (line_text cmd args) < 2 ^ 31 - 1"
    using assms(1,3) by (auto simp: text_cap_def)
  with to_string_ok [OF b'(2)] b(1) b'(1) show ?thesis by (simp add: win_command_line_def)
qed

section \<open>Properties\<close>

text \<open>C10: the quoting of the Windows command line is exact. Whatever quotes, backslashes and blanks the
  arguments contain, the started program gets the same program name and arguments back (no quote in
  the name, no zero byte in the arguments).\<close>

theorem win_command_line_round_trip:
  assumes "24 \<le> B" "\<forall>n \<le> B. malloc_ok m n" "length (line_text cmd args) \<le> text_cap B"
    and "QUOTE \<notin> set (c_str cmd)" "\<forall>v \<in> set args. CHR 0x00 \<notin> set v"
  shows "\<exists>line. win_command_line m comspec cmd (Some args) = Inr line \<and>
    split_line (c_str line) = c_str cmd # args"
proof -
  have "CHR 0x00 \<notin> set (line_text cmd args)" using line_text_no_nul [OF assms(5)] .
  then have "c_str (line_text cmd args @ [CHR 0x00]) = line_text cmd args"
    by (simp add: c_str_def)
  with win_command_line_ok [OF assms(1-3)] split_line_text [OF assms(4)] show ?thesis by simp
qed

definition mem_1k :: cmem where
  "mem_1k = \<lparr>malloc_ok = (\<lambda>n. n \<le> 1024), junk = (\<lambda>_. 0)\<rparr>"

theorem win_command_line_round_trip_witness:
  "\<exists>line. win_command_line mem_1k None ''a b'' (Some [[QUOTE, BACKSLASH], '''', ''c d'']) = Inr line \<and>
    split_line (c_str line) = c_str ''a b'' # [[QUOTE, BACKSLASH], '''', ''c d'']"
  by (rule win_command_line_round_trip [where B = 1024])
    (simp_all add: mem_1k_def line_text_def arg_text_def c_str_def text_cap_def)

text \<open>The program name is not escaped, although the documentation of \<open>process_run\<close> says that cmd and
  args are: a quote in it ends the name and changes the arguments.\<close>

lemma win_command_name_not_escaped:
  "\<exists>line. win_command_line mem_1k None [CHR ''a'', QUOTE, CHR '' '', QUOTE, CHR ''b''] (Some []) = Inr line \<and>
    split_line (c_str line) = [''a'', ''b'']"
proof -
  let ?cmd = "[CHR ''a'', QUOTE, CHR '' '', QUOTE, CHR ''b'']"
  have "win_command_line mem_1k None ?cmd (Some []) = Inr (line_text ?cmd [] @ [CHR 0x00])"
    by (rule win_command_line_ok [where B = 1024])
      (simp_all add: mem_1k_def line_text_def arg_text_def c_str_def text_cap_def)
  then show ?thesis
    by (simp add: line_text_def c_str_def split_line_def is_blank_def eat_def)
qed

text \<open>Without arguments the command goes to the command processor verbatim, inside the quotes that
  follow \<open>/C\<close>.\<close>

lemma win_raw_command_line:
  assumes "24 \<le> B" "\<forall>n \<le> B. malloc_ok m n"
    and "length (c_str (case comspec of None \<Rightarrow> ''cmd.exe'' | Some s \<Rightarrow> s)) + length (c_str cmd) + 7 \<le> text_cap B"
  shows "win_command_line m comspec cmd None =
    Inr ([QUOTE] @ c_str (case comspec of None \<Rightarrow> ''cmd.exe'' | Some s \<Rightarrow> s) @ [QUOTE] @ ''/C '' @ [QUOTE] @
      c_str cmd @ [QUOTE] @ [CHR 0x00])"
proof -
  let ?exe = "case comspec of None \<Rightarrow> ''cmd.exe'' | Some s \<Rightarrow> s"
  let ?ps = "[Chr QUOTE, Text ?exe, Chr QUOTE, Text (''/C '' @ [QUOTE]), Text cmd, Chr QUOTE]"
  have raw: "raw_line m comspec cmd b = put_all (append_piece m) ?ps b" for b
    by (simp add: raw_line_def append_piece_def Let_def cong: rbind_cong)
  from alloc_buffer_ok [OF assms(1,2)] obtain b where b: "alloc_buffer m None = Inr b" "holds m B b []"
    by blast
  have len: "length (concat (map piece_text ?ps)) \<le> text_cap B"
    using assms(3) by (simp add: piece_text_def c_str_def)
  from append_pieces_ok [OF b(2), of ?ps] len obtain b' where
    b': "put_all (append_piece m) ?ps b = Inr b'" "holds m B b' (concat (map piece_text ?ps))" by auto
  have "length (concat (map piece_text ?ps)) < B" "length (concat (map piece_text ?ps)) < 2 ^ 31 - 1"
    using assms(1) len by (auto simp: text_cap_def)
  with to_string_ok [OF b'(2)] have "buffer_to_string m b' = Inr (concat (map piece_text ?ps) @ [CHR 0x00])"
    by blast
  then show ?thesis using b(1) b'(1) raw
    by (simp add: win_command_line_def piece_text_def c_str_def)
qed

lemma win_raw_command_line_example:
  "win_command_line mem_1k None ''dir'' None =
    Inr ([QUOTE] @ c_str (case None of None \<Rightarrow> ''cmd.exe'' | Some s \<Rightarrow> s) @ [QUOTE] @ ''/C '' @ [QUOTE] @
      c_str ''dir'' @ [QUOTE] @ [CHR 0x00])"
  by (rule win_raw_command_line [where B = 1024]) (simp_all add: mem_1k_def c_str_def text_cap_def)

end
