(* ===== verification/Posix.thy ===== *)
theory Posix imports ProcBuffer begin

text \<open>
  The POSIX calls that libs/extc/process_stubs.c makes on Linux and macOS: pipe, close, dup2, read,
  write, waitpid, kill. A \<open>world\<close> is what the kernel keeps for the calling process, with the choices
  of the environment (interrupts, how much a call transfers, what arrives) as data.
\<close>

section \<open>The state\<close>

datatype errno = EINTR | EBADF | EMFILE | ENFILE | EPIPE | ECHILD

datatype pipe_end = RdEnd nat | WrEnd nat | Other_file nat

text \<open>
  \<open>fds\<close>: the descriptor table; \<open>intr\<close>: for the coming interruptible calls, whether a signal interrupts
  them; \<open>keep_on_intr\<close>: whether an interrupted close leaves the descriptor open (POSIX leaves that
  open; on Linux it does not); \<open>inflow k\<close>: the chunks that the reads of pipe \<open>k\<close> will find, the end
  of the list being the end of file; \<open>room k\<close>: how many bytes the writes to pipe \<open>k\<close> will take, the
  end of the list being a pipe without readers; \<open>sent k\<close>: what was written to it.
\<close>

record world =
  fds :: "nat \<Rightarrow> pipe_end option"
  open_max :: nat
  pipes_left :: nat
  next_pipe :: nat
  fork_result :: int
  intr :: "bool list"
  keep_on_intr :: bool
  inflow :: "nat \<Rightarrow> string list"
  room :: "nat \<Rightarrow> nat list"
  sent :: "nat \<Rightarrow> string"
  wait_status :: "int \<Rightarrow> int option"
  signals :: "(int \<times> int) list"

section \<open>Calls\<close>

definition free_fds :: "world \<Rightarrow> nat list" where
  "free_fds w = filter (\<lambda>i. fds w i = None) [0..<open_max w]"

definition sys_pipe :: "world \<Rightarrow> (errno + nat \<times> nat) \<times> world" where
  "sys_pipe w =
     (if pipes_left w = 0 then (Inl ENFILE, w)
      else case free_fds w of
        r # v # _ \<Rightarrow>
          (Inr (r, v), w\<lparr>fds := (fds w)(r \<mapsto> RdEnd (next_pipe w), v \<mapsto> WrEnd (next_pipe w)),
             next_pipe := next_pipe w + 1, pipes_left := pipes_left w - 1\<rparr>)
      | _ \<Rightarrow> (Inl EMFILE, w))"

definition fd_entry :: "int \<Rightarrow> world \<Rightarrow> pipe_end option" where
  "fd_entry fd w = (if fd < 0 then None else fds w (nat fd))"

definition interrupted :: "world \<Rightarrow> bool" where
  "interrupted w = (case intr w of b # _ \<Rightarrow> b | [] \<Rightarrow> False)"

definition drop_fd :: "int \<Rightarrow> world \<Rightarrow> world" where
  "drop_fd fd w = w\<lparr>fds := (fds w)(nat fd := None)\<rparr>"

definition tick :: "world \<Rightarrow> world" where
  "tick w = w\<lparr>intr := tl (intr w)\<rparr>"

definition sys_close :: "int \<Rightarrow> world \<Rightarrow> errno option \<times> world" where
  "sys_close fd w =
     (if fd_entry fd w = None then (Some EBADF, w)
      else if interrupted w then (Some EINTR, if keep_on_intr w then tick w else drop_fd fd (tick w))
      else (None, drop_fd fd (tick w)))"

definition sys_read :: "int \<Rightarrow> int \<Rightarrow> world \<Rightarrow> (errno + string) \<times> world" where
  "sys_read fd n w =
     (case fd_entry fd w of
        Some (RdEnd k) \<Rightarrow>
          if interrupted w then (Inl EINTR, tick w)
          else (case inflow w k of
                  [] \<Rightarrow> (Inr [], tick w)
                | chunk # rest \<Rightarrow>
                    (Inr (take (nat n) chunk),
                     (tick w)\<lparr>inflow := (inflow w)(k :=
                        (if length chunk \<le> nat n then rest else drop (nat n) chunk # rest))\<rparr>))
      | _ \<Rightarrow> (Inl EBADF, w))"

definition sys_write :: "int \<Rightarrow> string \<Rightarrow> world \<Rightarrow> (errno + nat) \<times> world" where
  "sys_write fd s w =
     (case fd_entry fd w of
        Some (WrEnd k) \<Rightarrow>
          if s = [] then (Inr 0, w)
          else if interrupted w then (Inl EINTR, tick w)
          else (case room w k of
                  [] \<Rightarrow> (Inl EPIPE, tick w)
                | n # rest \<Rightarrow>
                    (Inr (min n (length s)),
                     (tick w)\<lparr>room := (room w)(k := rest), sent := (sent w)(k := sent w k @ take n s)\<rparr>))
      | _ \<Rightarrow> (Inl EBADF, w))"

text \<open>A child that was waited for is gone.\<close>

definition sys_waitpid :: "int \<Rightarrow> world \<Rightarrow> (errno + int) \<times> world" where
  "sys_waitpid p w =
     (if interrupted w then (Inl EINTR, tick w)
      else case wait_status w p of
             None \<Rightarrow> (Inl ECHILD, tick w)
           | Some st \<Rightarrow> (Inr st, (tick w)\<lparr>wait_status := (wait_status w)(p := None)\<rparr>))"

definition sys_kill :: "int \<Rightarrow> int \<Rightarrow> world \<Rightarrow> world" where
  "sys_kill p sig w = w\<lparr>signals := signals w @ [(p, sig)]\<rparr>"

text \<open>On the descriptor table of the forked child.\<close>

definition child_close :: "nat \<Rightarrow> (nat \<Rightarrow> pipe_end option) \<Rightarrow> (nat \<Rightarrow> pipe_end option)" where
  "child_close fd t = t(fd := None)"

definition child_dup2 :: "nat \<Rightarrow> nat \<Rightarrow> (nat \<Rightarrow> pipe_end option) \<Rightarrow> (nat \<Rightarrow> pipe_end option)" where
  "child_dup2 old new t = (if t old = None then t else t(new := t old))"

section \<open>Facts\<close>

lemma interrupted_tick: "interrupted w \<Longrightarrow> length (intr (tick w)) < length (intr w)"
  by (auto simp: interrupted_def tick_def split: list.splits)

lemma tick_simps [simp]:
  "fds (tick w) = fds w" "open_max (tick w) = open_max w" "pipes_left (tick w) = pipes_left w"
  "next_pipe (tick w) = next_pipe w" "fork_result (tick w) = fork_result w"
  "keep_on_intr (tick w) = keep_on_intr w" "inflow (tick w) = inflow w" "room (tick w) = room w"
  "sent (tick w) = sent w" "wait_status (tick w) = wait_status w" "signals (tick w) = signals w"
  "fd_entry fd (tick w) = fd_entry fd w"
  by (simp_all add: tick_def fd_entry_def)

lemma fd_entry_nat [simp]: "fd_entry (int n) w = fds w n"
  by (simp add: fd_entry_def)

text \<open>The two descriptors of a new pipe are the lowest free ones, in order.\<close>

lemma sys_pipe_ok:
  assumes "sys_pipe w = (Inr (r, v), w')"
  shows "r < v" "fds w r = None" "fds w v = None" "\<forall>i < v. i \<noteq> r \<longrightarrow> fds w i \<noteq> None"
    "w' = w\<lparr>fds := (fds w)(r \<mapsto> RdEnd (next_pipe w), v \<mapsto> WrEnd (next_pipe w)),
       next_pipe := next_pipe w + 1, pipes_left := pipes_left w - 1\<rparr>"
proof -
  from assms obtain rest where f: "free_fds w = r # v # rest"
    and w': "w' = w\<lparr>fds := (fds w)(r \<mapsto> RdEnd (next_pipe w), v \<mapsto> WrEnd (next_pipe w)),
       next_pipe := next_pipe w + 1, pipes_left := pipes_left w - 1\<rparr>"
    by (auto simp: sys_pipe_def split: list.splits if_splits)
  show "w' = w\<lparr>fds := (fds w)(r \<mapsto> RdEnd (next_pipe w), v \<mapsto> WrEnd (next_pipe w)),
       next_pipe := next_pipe w + 1, pipes_left := pipes_left w - 1\<rparr>" by (rule w')
  have sorted: "sorted_wrt (<) (free_fds w)" by (simp add: free_fds_def sorted_wrt_filter)
  then show rv: "r < v" by (simp add: f)
  have mem: "i \<in> set (free_fds w) \<longleftrightarrow> i < open_max w \<and> fds w i = None" for i
    by (auto simp: free_fds_def)
  show "fds w r = None" "fds w v = None" using mem [of r] mem [of v] by (simp_all add: f)
  show "\<forall>i < v. i \<noteq> r \<longrightarrow> fds w i \<noteq> None"
  proof (intro allI impI notI)
    fix i assume i: "i < v" "i \<noteq> r" "fds w i = None"
    moreover have "v < open_max w" using mem [of v] by (simp add: f)
    ultimately have "i \<in> set (r # v # rest)" using mem [of i] f by simp
    then show False using i sorted by (auto simp: f)
  qed
qed

end
