(* ===== verification/Process.thy ===== *)
theory Process imports Posix begin

text \<open>
  The POSIX half of libs/extc/process_stubs.c: \<open>process_run\<close> and the operations on a process
  handle. A handle is the index of its \<open>vprocess\<close> block among those that malloc returned; a freed
  block is \<open>None\<close>.
\<close>

section \<open>State\<close>

record vprocess =
  oread :: int
  eread :: int
  iwrite :: int
  pid :: int

record pstate =
  kernel :: world
  procs :: "vprocess option list"

text \<open>All the exceptions are \<open>Failure\<close> with the function's name: \<open>caml_failwith(__FUNCTION__)\<close>.\<close>

datatype exn = Failure string

type_synonym 'a op = "(pstate, exn, 'a) prim"

definition on_kernel :: "(world \<Rightarrow> 'a \<times> world) \<Rightarrow> 'a op" where
  "on_kernel g = stateful (\<lambda>s. (fst (g (kernel s)), s\<lparr>kernel := snd (g (kernel s))\<rparr>))"

text \<open>\<open>val_process(vp)\<close> and a field of it; \<open>Int_val\<close> keeps the low 32 bits of an OCaml integer.\<close>

definition get_process :: "nat \<Rightarrow> vprocess op" where
  "get_process vp s =
     (if vp < length (procs s)
      then (case procs s ! vp of None \<Rightarrow> Inl (Undef ''use after free'') | Some p \<Rightarrow> Inr (Inr p, s))
      else Inl (Undef ''invalid handle''))"

definition put_process :: "nat \<Rightarrow> vprocess option \<Rightarrow> unit op" where
  "put_process vp p s = Inr (Inr (), s\<lparr>procs := (procs s)[vp := p]\<rparr>)"

definition Int_val :: "int \<Rightarrow> int" where
  "Int_val x = s32 x"

section \<open>Interrupted calls\<close>

lemma interrupts_used:
  "sys_close fd w = (Some EINTR, w') \<Longrightarrow> length (intr w') < length (intr w)"
  "sys_read fd n w = (Inl EINTR, w') \<Longrightarrow> length (intr w') < length (intr w)"
  "sys_write fd bs w = (Inl EINTR, w') \<Longrightarrow> length (intr w') < length (intr w)"
  "sys_waitpid p w = (Inl EINTR, w') \<Longrightarrow> length (intr w') < length (intr w)"
  using interrupted_tick [of w]
  by (auto simp: sys_close_def drop_fd_def sys_read_def sys_write_def sys_waitpid_def
    split: if_splits option.splits pipe_end.splits list.splits)

function do_close :: "int \<Rightarrow> world \<Rightarrow> int \<times> world" where
  "do_close fd w =
     (case sys_close fd w of
        (None, w') \<Rightarrow> (0, w')
      | (Some e, w') \<Rightarrow> if e = EINTR then do_close fd w' else (1, w'))"
  by pat_completeness auto
termination
  by (relation "measure (\<lambda>(fd, w). length (intr w))") (auto dest: interrupts_used sym)

function read_again :: "int \<Rightarrow> int \<Rightarrow> world \<Rightarrow> (errno + string) \<times> world" where
  "read_again fd n w =
     (case sys_read fd n w of
        (Inr bs, w') \<Rightarrow> (Inr bs, w')
      | (Inl e, w') \<Rightarrow> if e = EINTR then read_again fd n w' else (Inl e, w'))"
  by pat_completeness auto
termination
  by (relation "measure (\<lambda>(fd, n, w). length (intr w))") (auto dest: interrupts_used sym)

function write_again :: "int \<Rightarrow> string \<Rightarrow> world \<Rightarrow> (errno + nat) \<times> world" where
  "write_again fd bs w =
     (case sys_write fd bs w of
        (Inr n, w') \<Rightarrow> (Inr n, w')
      | (Inl e, w') \<Rightarrow> if e = EINTR then write_again fd bs w' else (Inl e, w'))"
  by pat_completeness auto
termination
  by (relation "measure (\<lambda>(fd, bs, w). length (intr w))") (auto dest: interrupts_used sym)

function waitpid_again :: "int \<Rightarrow> world \<Rightarrow> (errno + int) \<times> world" where
  "waitpid_again p w =
     (case sys_waitpid p w of
        (Inr st, w') \<Rightarrow> (Inr st, w')
      | (Inl e, w') \<Rightarrow> if e = EINTR then waitpid_again p w' else (Inl e, w'))"
  by pat_completeness auto
termination
  by (relation "measure (\<lambda>(p, w). length (intr w))") (auto dest: interrupts_used sym)

declare do_close.simps [simp del] read_again.simps [simp del] write_again.simps [simp del]
  waitpid_again.simps [simp del]

section \<open>Starting a process\<close>

text \<open>
  \<open>alloc_private\<close> takes the size as an int and returns that many words; the slots of \<open>argv\<close> are
  filled in order and the last one is null.
\<close>

definition alloc_private :: "int \<Rightarrow> int" where
  "alloc_private bytes = (s32 bytes + 8 - 1) div 8"

definition fill_argv :: "int \<Rightarrow> string list \<Rightarrow> c_fault + string list" where
  "fill_argv words args =
     (if int (length args) + 1 \<le> words then Inr (map c_str args) else Inl (Undef ''argv overflow''))"

definition make_argv :: "string \<Rightarrow> string list option \<Rightarrow> c_fault + string list" where
  "make_argv cmd vargs =
     (case vargs of
        None \<Rightarrow> fill_argv (alloc_private (8 * 4)) [''/bin/sh'', ''-c'', cmd]
      | Some args \<Rightarrow> fill_argv (alloc_private (8 * (int (length args) + 2))) (cmd # args))"

text \<open>
  What becomes of the child: the program of \<open>argv[0]\<close> with its arguments and descriptors, or, when
  that cannot be executed, a message on descriptor 2 and exit status 1.
\<close>

datatype child =
  Runs (argv: "string list") (child_fds: "nat \<Rightarrow> pipe_end option")
| Exits (status: int) (message: string) (child_fds: "nat \<Rightarrow> pipe_end option")

definition run_child ::
  "(string \<Rightarrow> bool) \<Rightarrow> string \<Rightarrow> string list \<Rightarrow> nat \<times> nat \<Rightarrow> nat \<times> nat \<Rightarrow> nat \<times> nat \<Rightarrow>
   (nat \<Rightarrow> pipe_end option) \<Rightarrow> child" where
  "run_child can_exec cmd av inp outp errp t =
     (let t = child_close (snd inp) t;
          t = child_close (fst outp) t;
          t = child_close (fst errp) t;
          t = child_dup2 (fst inp) 0 t;
          t = child_dup2 (snd outp) 1 t;
          t = child_dup2 (snd errp) 2 t
      in if can_exec (hd av) then Runs av t
         else Exits 1 (''Command not found : '' @ c_str cmd @ [CHR 0x0A]) t)"

text \<open>\<open>pipe(input) || pipe(output) || pipe(error)\<close>\<close>

definition three_pipes :: "world \<Rightarrow> ((nat \<times> nat) \<times> (nat \<times> nat) \<times> (nat \<times> nat)) option \<times> world" where
  "three_pipes w =
     (case sys_pipe w of (Inl _, w) \<Rightarrow> (None, w)
      | (Inr inp, w) \<Rightarrow> (case sys_pipe w of (Inl _, w) \<Rightarrow> (None, w)
        | (Inr outp, w) \<Rightarrow> (case sys_pipe w of (Inl _, w) \<Rightarrow> (None, w)
          | (Inr errp, w) \<Rightarrow> (Some (inp, outp, errp), w))))"

fun close_list :: "nat list \<Rightarrow> world \<Rightarrow> world" where
  "close_list [] w = w"
| "close_list (fd # rest) w = close_list rest (snd (do_close (int fd) w))"

definition on_fds :: "(world \<Rightarrow> world) \<Rightarrow> unit op" where
  "on_fds g = on_kernel (\<lambda>w. ((), g w))"

text \<open>The new block's descriptors are uninitialised (0 here) until the parent sets them.\<close>

definition new_process :: "int \<Rightarrow> nat op" where
  "new_process forked s =
     Inr (Inr (length (procs s)),
          s\<lparr>procs := procs s @ [Some \<lparr>oread = 0, eread = 0, iwrite = 0, pid = forked\<rparr>]\<rparr>)"

definition process_run :: "(string \<Rightarrow> bool) \<Rightarrow> string \<Rightarrow> string list option \<Rightarrow> (nat \<times> child) op" where
  "process_run can_exec cmd vargs =
     pbind (pure_c (make_argv cmd vargs)) (\<lambda>av.
     pbind (on_kernel three_pipes) (\<lambda>pipes.
       case pipes of None \<Rightarrow> raise (Failure ''process_run'')
       | Some (inp, outp, errp) \<Rightarrow>
           pbind (on_kernel (\<lambda>w. (w, w))) (\<lambda>w.
           pbind (new_process (fork_result w)) (\<lambda>vp.
             if fork_result w = - 1
             then pbind (on_fds (close_list [fst inp, snd inp, fst outp, snd outp, fst errp, snd errp])) (\<lambda>_.
                  raise (Failure ''process_run''))
             else pbind (on_fds (close_list [fst inp, snd outp, snd errp])) (\<lambda>_.
                  pbind (put_process vp (Some \<lparr>oread = int (fst outp), eread = int (fst errp),
                           iwrite = int (snd inp), pid = fork_result w\<rparr>)) (\<lambda>_.
                  ret (vp, run_child can_exec cmd av inp outp errp (fds w))))))))"

section \<open>Operations on a handle\<close>

text \<open>\<open>CHECK_ARGS\<close>: the sum of two ints, compared as an unsigned long with the length of the string.\<close>

definition check_args :: "string \<Rightarrow> string \<Rightarrow> int \<Rightarrow> int \<Rightarrow> nat \<Rightarrow> vprocess op" where
  "check_args name bs pos len vp =
     (if Int_val pos < 0 \<or> Int_val len < 0 then raise (Failure name)
      else pbind (pure_c (int_result (Int_val pos + Int_val len))) (\<lambda>sum.
           if sum > int (length bs) then raise (Failure name) else get_process vp))"

text \<open>The bytes that read put into the OCaml string, from \<open>pos\<close> on.\<close>

definition store_bytes :: "string \<Rightarrow> nat \<Rightarrow> string \<Rightarrow> string" where
  "store_bytes bs pos new = take pos bs @ new @ drop (pos + length new) bs"

definition read_fd :: "string \<Rightarrow> (vprocess \<Rightarrow> int) \<Rightarrow> nat \<Rightarrow> string \<Rightarrow> int \<Rightarrow> int \<Rightarrow> (int \<times> string) op" where
  "read_fd name fd_of vp bs pos len =
     pbind (check_args name bs pos len vp) (\<lambda>p.
     pbind (on_kernel (read_again (fd_of p) (Int_val len))) (\<lambda>r.
       case r of Inl _ \<Rightarrow> raise (Failure name)
       | Inr new \<Rightarrow>
           if length new = 0 then raise (Failure name)
           else ret (int (length new), store_bytes bs (nat (Int_val pos)) new)))"

definition process_stdout_read :: "nat \<Rightarrow> string \<Rightarrow> int \<Rightarrow> int \<Rightarrow> (int \<times> string) op" where
  "process_stdout_read = read_fd ''process_stdout_read'' oread"

definition process_stderr_read :: "nat \<Rightarrow> string \<Rightarrow> int \<Rightarrow> int \<Rightarrow> (int \<times> string) op" where
  "process_stderr_read = read_fd ''process_stderr_read'' eread"

definition process_stdin_write :: "nat \<Rightarrow> string \<Rightarrow> int \<Rightarrow> int \<Rightarrow> int op" where
  "process_stdin_write vp bs pos len =
     pbind (check_args ''process_stdin_write'' bs pos len vp) (\<lambda>p.
     pbind (on_kernel (write_again (iwrite p) (take (nat (Int_val len)) (drop (nat (Int_val pos)) bs)))) (\<lambda>r.
       case r of Inl _ \<Rightarrow> raise (Failure ''process_stdin_write'') | Inr n \<Rightarrow> ret (int n)))"

definition process_stdin_close :: "nat \<Rightarrow> unit op" where
  "process_stdin_close vp =
     pbind (get_process vp) (\<lambda>p.
     pbind (on_kernel (do_close (iwrite p))) (\<lambda>failed.
       if failed \<noteq> 0 then raise (Failure ''process_stdin_close'')
       else put_process vp (Some (p\<lparr>iwrite := - 1\<rparr>))))"

definition WIFEXITED :: "int \<Rightarrow> bool" where
  "WIFEXITED st \<longleftrightarrow> st mod 128 = 0"

definition WEXITSTATUS :: "int \<Rightarrow> int" where
  "WEXITSTATUS st = st div 256 mod 256"

definition process_exit :: "nat \<Rightarrow> int op" where
  "process_exit vp =
     pbind (get_process vp) (\<lambda>p.
     pbind (on_kernel (waitpid_again (pid p))) (\<lambda>r.
       case r of Inl _ \<Rightarrow> raise (Failure ''process_exit'')
       | Inr st \<Rightarrow> if WIFEXITED st then ret (WEXITSTATUS st) else raise (Failure ''process_exit'')))"

definition process_pid :: "nat \<Rightarrow> int op" where
  "process_pid vp = pbind (get_process vp) (\<lambda>p. ret (pid p))"

definition free_process :: "nat \<Rightarrow> unit op" where
  "free_process vp =
     pbind (get_process vp) (\<lambda>p.
     pbind (on_kernel (do_close (eread p))) (\<lambda>_.
     pbind (on_kernel (do_close (oread p))) (\<lambda>_.
     pbind (on_kernel (do_close (iwrite p))) (\<lambda>_.
     put_process vp None))))"

definition process_close :: "nat \<Rightarrow> unit op" where
  "process_close = free_process"

definition process_kill :: "nat \<Rightarrow> unit op" where
  "process_kill vp =
     pbind (get_process vp) (\<lambda>p. on_kernel (\<lambda>w. ((), sys_kill (pid p) 9 w)))"

section \<open>What the operations do\<close>

lemma pbind_read_kernel [simp]: "on_kernel g s = Inr (Inr (fst (g (kernel s))), s\<lparr>kernel := snd (g (kernel s))\<rparr>)"
  by (simp add: on_kernel_def)

text \<open>
  Whatever interrupts it, \<open>do_close\<close> closes the descriptor; it reports success exactly when it was
  open and either no signal came or an interrupted close keeps the descriptor.
\<close>

lemma do_close_effect:
  "\<exists>bs. snd (do_close fd w) =
     w\<lparr>fds := (if fd < 0 then fds w else (fds w)(nat fd := None)), intr := bs\<rparr>"
proof (induction "length (intr w)" arbitrary: w rule: less_induct)
  case less
  show ?case
  proof (cases "fd_entry fd w = None")
    case True
    then have "snd (do_close fd w) = w" by (subst do_close.simps) (simp add: sys_close_def)
    with True show ?thesis
      by (intro exI [of _ "intr w"]) (auto simp: fd_entry_def fun_upd_idem split: if_splits)
  next
    case open_fd: False
    then have pos: "0 \<le> fd" by (auto simp: fd_entry_def split: if_splits)
    show ?thesis
    proof (cases "interrupted w")
      case False
      with open_fd have "sys_close fd w = (None, drop_fd fd (tick w))" by (auto simp: sys_close_def)
      then have "snd (do_close fd w) = drop_fd fd (tick w)" by (subst do_close.simps) simp
      with pos show ?thesis
        by (intro exI [of _ "tl (intr w)"] world.equality) (simp_all add: drop_fd_def tick_def)
    next
      case True
      let ?w = "if keep_on_intr w then tick w else drop_fd fd (tick w)"
      have c: "sys_close fd w = (Some EINTR, ?w)" using True open_fd by (auto simp: sys_close_def)
      then have e: "do_close fd w = do_close fd ?w" by (subst do_close.simps) simp
      from less [OF interrupts_used(1) [OF c]] obtain bs where
        "snd (do_close fd ?w) = ?w\<lparr>fds := (fds ?w)(nat fd := None), intr := bs\<rparr>" using pos by auto
      then show ?thesis using pos
        by (intro exI [of _ bs]) (auto simp: e drop_fd_def tick_def)
    qed
  qed
qed

lemma do_close_result:
  "fst (do_close fd w) =
     (if fd_entry fd w \<noteq> None \<and> (keep_on_intr w \<or> \<not> interrupted w) then 0 else 1)"
proof (induction "length (intr w)" arbitrary: w rule: less_induct)
  case less
  show ?case
  proof (cases "fd_entry fd w \<noteq> None \<and> interrupted w")
    case False
    then show ?thesis by (subst do_close.simps) (auto simp: sys_close_def)
  next
    case True
    let ?w = "if keep_on_intr w then tick w else drop_fd fd (tick w)"
    have c: "sys_close fd w = (Some EINTR, ?w)" using True by (auto simp: sys_close_def)
    then have e: "do_close fd w = do_close fd ?w" by (subst do_close.simps) simp
    have "fd_entry fd (drop_fd fd (tick w)) = None" by (simp add: fd_entry_def drop_fd_def)
    then show ?thesis using True less [OF interrupts_used(1) [OF c]]
      by (auto simp: e)
  qed
qed

lemma close_list_effect:
  "\<exists>bs. close_list l w = w\<lparr>fds := fds w |` (- set l), intr := bs\<rparr>"
proof (induction l arbitrary: w)
  case Nil
  show ?case by (intro exI [of _ "intr w"]) simp
next
  case (Cons fd l)
  from do_close_effect [of "int fd" w] obtain bs where
    bs: "snd (do_close (int fd) w) = w\<lparr>fds := (fds w)(fd := None), intr := bs\<rparr>" by auto
  have e: "(fds w)(fd := None) |` (- set l) = fds w |` (- set (fd # l))"
    by (auto simp: restrict_map_def)
  from Cons.IH [of "w\<lparr>fds := (fds w)(fd := None), intr := bs\<rparr>"] obtain bs' where
    "close_list (fd # l) w = w\<lparr>fds := (fds w)(fd := None) |` (- set l), intr := bs'\<rparr>"
    by (auto simp: bs simp del: fun_upd_apply)
  then show ?case unfolding e by blast
qed

text \<open>The six descriptors of a successful start.\<close>

definition opened :: "world \<Rightarrow> nat \<times> nat \<Rightarrow> nat \<times> nat \<Rightarrow> nat \<times> nat \<Rightarrow> bool" where
  "opened w inp outp errp \<longleftrightarrow>
     fst inp < snd inp \<and> snd inp < fst outp \<and> fst outp < snd outp \<and>
     snd outp < fst errp \<and> fst errp < snd errp \<and>
     (\<forall>i \<in> {fst inp, snd inp, fst outp, snd outp, fst errp, snd errp}. fds w i = None)"

definition with_pipes :: "world \<Rightarrow> nat \<times> nat \<Rightarrow> nat \<times> nat \<Rightarrow> nat \<times> nat \<Rightarrow> world" where
  "with_pipes w inp outp errp =
     w\<lparr>fds := (fds w)(fst inp \<mapsto> RdEnd (next_pipe w), snd inp \<mapsto> WrEnd (next_pipe w),
         fst outp \<mapsto> RdEnd (next_pipe w + 1), snd outp \<mapsto> WrEnd (next_pipe w + 1),
         fst errp \<mapsto> RdEnd (next_pipe w + 2), snd errp \<mapsto> WrEnd (next_pipe w + 2)),
       next_pipe := next_pipe w + 3, pipes_left := pipes_left w - 3\<rparr>"

lemma three_pipes_ok:
  assumes "three_pipes w = (Some (inp, outp, errp), w')"
  shows "opened w inp outp errp" "w' = with_pipes w inp outp errp"
proof -
  from assms obtain w1 w2 where p:
    "sys_pipe w = (Inr (fst inp, snd inp), w1)" "sys_pipe w1 = (Inr (fst outp, snd outp), w2)"
    "sys_pipe w2 = (Inr (fst errp, snd errp), w')"
    by (auto simp: three_pipes_def split: prod.splits sum.splits)
  note 1 = sys_pipe_ok [OF p(1)] and 2 = sys_pipe_ok [OF p(2)] and 3 = sys_pipe_ok [OF p(3)]
  have a: "snd inp < fst outp"
  proof (rule ccontr)
    assume "\<not> snd inp < fst outp"
    moreover have "fst outp \<noteq> snd inp" "fst outp \<noteq> fst inp" using 2(2) by (auto simp: 1(5) split: if_splits)
    ultimately have "fds w (fst outp) \<noteq> None" using 1(4) by auto
    then show False using 2(2) by (auto simp: 1(5) split: if_splits)
  qed
  have b: "snd outp < fst errp"
  proof (rule ccontr)
    assume "\<not> snd outp < fst errp"
    moreover have "fst errp \<noteq> snd outp" "fst errp \<noteq> fst outp" using 3(2) by (auto simp: 2(5) split: if_splits)
    ultimately have "fds w1 (fst errp) \<noteq> None" using 2(4) by auto
    then show False using 3(2) by (auto simp: 2(5) split: if_splits)
  qed
  show "opened w inp outp errp"
    using a b 1(1-3) 2(1-3) 3(1-3) by (auto simp: opened_def 1(5) 2(5) split: if_splits)
  show "w' = with_pipes w inp outp errp"
    by (simp add: 3(5) 2(5) 1(5) with_pipes_def)
qed

text \<open>The child finds the pipes at 0, 1 and 2, whichever descriptors the parent had open.\<close>

lemma child_stdio:
  assumes "opened w inp outp errp"
  shows "child_fds (run_child ce cmd av inp outp errp (fds (with_pipes w inp outp errp))) =
    (fds w)(fst inp \<mapsto> RdEnd (next_pipe w), snd outp \<mapsto> WrEnd (next_pipe w + 1),
      snd errp \<mapsto> WrEnd (next_pipe w + 2),
      0 \<mapsto> RdEnd (next_pipe w), 1 \<mapsto> WrEnd (next_pipe w + 1), 2 \<mapsto> WrEnd (next_pipe w + 2))"
proof -
  obtain i i' o1 o' e e' where p: "inp = (i, i')" "outp = (o1, o')" "errp = (e, e')"
    by (cases inp; cases outp; cases errp) auto
  from assms have ord: "i < i'" "i' < o1" "o1 < o'" "o' < e" "e < e'"
    and free: "fds w i = None" "fds w i' = None" "fds w o1 = None" "fds w o' = None"
      "fds w e = None" "fds w e' = None"
    by (simp_all add: opened_def p)
  let ?t = "(fds w)(i \<mapsto> RdEnd (next_pipe w), o' \<mapsto> WrEnd (next_pipe w + 1), e' \<mapsto> WrEnd (next_pipe w + 2))"
  have "child_close e (child_close o1 (child_close i' (fds (with_pipes w inp outp errp)))) = ?t"
    using ord free by (simp add: child_close_def with_pipes_def p fun_upd_twist fun_upd_idem)
  moreover have "child_dup2 i 0 ?t = ?t(0 \<mapsto> RdEnd (next_pipe w))"
    using ord by (simp add: child_dup2_def)
  moreover have "child_dup2 o' 1 (?t(0 \<mapsto> RdEnd (next_pipe w))) =
      ?t(0 \<mapsto> RdEnd (next_pipe w), 1 \<mapsto> WrEnd (next_pipe w + 1))"
    using ord by (simp add: child_dup2_def)
  moreover have "child_dup2 e' 2 (?t(0 \<mapsto> RdEnd (next_pipe w), 1 \<mapsto> WrEnd (next_pipe w + 1))) =
      ?t(0 \<mapsto> RdEnd (next_pipe w), 1 \<mapsto> WrEnd (next_pipe w + 1), 2 \<mapsto> WrEnd (next_pipe w + 2))"
    using ord by (simp add: child_dup2_def)
  ultimately show ?thesis by (simp add: run_child_def Let_def p)
qed

lemma parent_fds:
  assumes "opened w inp outp errp"
  shows "fds (with_pipes w inp outp errp) |` (- {fst inp, snd outp, snd errp}) =
    (fds w)(snd inp \<mapsto> WrEnd (next_pipe w), fst outp \<mapsto> RdEnd (next_pipe w + 1),
      fst errp \<mapsto> RdEnd (next_pipe w + 2))"
  unfolding with_pipes_def using assms
  by (intro ext) (simp add: opened_def restrict_map_def; auto)

definition run_result ::
  "(string \<Rightarrow> bool) \<Rightarrow> string \<Rightarrow> string list option \<Rightarrow> pstate \<Rightarrow> nat \<Rightarrow> child \<Rightarrow> pstate \<Rightarrow>
   nat \<times> nat \<Rightarrow> nat \<times> nat \<Rightarrow> nat \<times> nat \<Rightarrow> bool list \<Rightarrow> bool" where
  "run_result ce cmd vargs s vp ch s' inp outp errp bs \<longleftrightarrow>
     (let w = kernel s in
      opened w inp outp errp \<and> fork_result w \<noteq> - 1 \<and> vp = length (procs s) \<and>
      (\<exists>av. make_argv cmd vargs = Inr av \<and>
         ch = run_child ce cmd av inp outp errp (fds (with_pipes w inp outp errp))) \<and>
      s' = s\<lparr>kernel := (with_pipes w inp outp errp)\<lparr>
          fds := (fds w)(snd inp \<mapsto> WrEnd (next_pipe w), fst outp \<mapsto> RdEnd (next_pipe w + 1),
            fst errp \<mapsto> RdEnd (next_pipe w + 2)), intr := bs\<rparr>,
        procs := procs s @ [Some \<lparr>oread = int (fst outp), eread = int (fst errp),
          iwrite = int (snd inp), pid = fork_result w\<rparr>]\<rparr>)"

lemma process_run_returns:
  assumes "process_run ce cmd vargs s = Inr (Inr (vp, ch), s')"
  shows "\<exists>inp outp errp bs. run_result ce cmd vargs s vp ch s' inp outp errp bs"
proof -
  from assms obtain av inp outp errp w1 where
    1: "make_argv cmd vargs = Inr av" "three_pipes (kernel s) = (Some (inp, outp, errp), w1)"
    by (cases "make_argv cmd vargs"; cases "three_pipes (kernel s)"; cases "fst (three_pipes (kernel s))")
      (auto simp: process_run_def)
  note p = three_pipes_ok [OF 1(2)]
  from close_list_effect [of "[fst inp, snd outp, snd errp]" w1] parent_fds [OF p(1)] p(2) obtain bs where
    c: "close_list [fst inp, snd outp, snd errp] w1 = w1\<lparr>fds := (fds (kernel s))(snd inp \<mapsto> WrEnd (next_pipe (kernel s)),
      fst outp \<mapsto> RdEnd (next_pipe (kernel s) + 1), fst errp \<mapsto> RdEnd (next_pipe (kernel s) + 2)), intr := bs\<rparr>"
    by (auto simp del: close_list.simps fun_upd_apply)
  have f: "fork_result w1 = fork_result (kernel s)" by (simp add: p(2) with_pipes_def)
  have "run_result ce cmd vargs s vp ch s' inp outp errp bs"
    using assms 1 p c f
    by (auto simp: process_run_def run_result_def Let_def new_process_def put_process_def on_fds_def
        simp del: close_list.simps split: if_splits)
  then show ?thesis by blast
qed

lemma process_run_fork_fails:
  assumes "make_argv cmd vargs = Inr av" "three_pipes (kernel s) = (Some (inp, outp, errp), w1)"
    "fork_result (kernel s) = - 1"
  shows "\<exists>s'. process_run ce cmd vargs s = Inr (Inl (Failure ''process_run''), s') \<and>
    fds (kernel s') = fds (kernel s)"
proof -
  note p = three_pipes_ok [OF assms(2)]
  let ?l = "[fst inp, snd inp, fst outp, snd outp, fst errp, snd errp]"
  from close_list_effect [of ?l w1] obtain bs where
    c: "close_list ?l w1 = w1\<lparr>fds := fds w1 |` (- set ?l), intr := bs\<rparr>" by blast
  have "fds w1 |` (- set ?l) = fds (kernel s)"
    unfolding p(2) with_pipes_def using p(1) by (intro ext) (simp add: opened_def restrict_map_def; auto)
  moreover have "fork_result w1 = - 1" using assms(3) by (simp add: p(2) with_pipes_def)
  ultimately show ?thesis using assms c
    by (simp add: process_run_def new_process_def on_fds_def del: close_list.simps)
qed

section \<open>Reading and writing\<close>

lemma read_again_result:
  "fst (read_again fd n w) =
     (case fd_entry fd w of
        Some (RdEnd k) \<Rightarrow> Inr (case inflow w k of [] \<Rightarrow> [] | chunk # _ \<Rightarrow> take (nat n) chunk)
      | _ \<Rightarrow> Inl EBADF)"
proof (induction "length (intr w)" arbitrary: w rule: less_induct)
  case less
  show ?case
  proof (cases "\<exists>w'. sys_read fd n w = (Inl EINTR, w')")
    case True
    then obtain w' where w': "sys_read fd n w = (Inl EINTR, w')" by blast
    then have "w' = tick w" by (auto simp: sys_read_def split: if_splits option.splits pipe_end.splits list.splits)
    then have e: "inflow w' = inflow w" "fd_entry fd w' = fd_entry fd w" by simp_all
    have "fst (read_again fd n w) = fst (read_again fd n w')"
      using w' by (subst read_again.simps) simp
    then show ?thesis unfolding less [OF interrupts_used(2) [OF w']] e .
  next
    case False
    then show ?thesis
      by (subst read_again.simps)
        (auto simp: sys_read_def split: if_splits option.splits pipe_end.splits list.splits)
  qed
qed

lemma write_again_result:
  assumes "fd_entry fd w = Some (WrEnd k)" "bs \<noteq> []"
  shows "\<exists>i. write_again fd bs w =
    (case room w k of [] \<Rightarrow> (Inl EPIPE, w\<lparr>intr := i\<rparr>)
     | n # rest \<Rightarrow> (Inr (min n (length bs)),
         w\<lparr>intr := i, room := (room w)(k := rest), sent := (sent w)(k := sent w k @ take n bs)\<rparr>))"
  using assms(1)
proof (induction "length (intr w)" arbitrary: w rule: less_induct)
  case less
  show ?case
  proof (cases "interrupted w")
    case True
    with less.prems assms(2) have s: "sys_write fd bs w = (Inl EINTR, tick w)" by (simp add: sys_write_def)
    with less(1) [OF interrupts_used(3) [OF s]] less.prems show ?thesis
      by (subst write_again.simps) (cases "room w k"; simp; simp add: tick_def)
  next
    case False
    with less.prems assms(2) show ?thesis
      by (subst write_again.simps) (auto simp: sys_write_def tick_def split: list.splits)
  qed
qed

end
