(* ===== verification/ProcessState.thy ===== *)
theory ProcessState imports Process begin

text \<open>
  The life of process handles: what each operation of \<open>Process\<close> guarantees, and the state machine of
  a program that starts, uses and closes any number of processes, with the invariant that every
  handle owns its descriptors.
\<close>

section \<open>Ownership of descriptors\<close>

definition proc_fds :: "vprocess option \<Rightarrow> nat set" where
  "proc_fds q =
     (case q of None \<Rightarrow> {}
      | Some p \<Rightarrow> if pid p = - 1 then {}
          else nat ` ({oread p, eread p} \<union> (if iwrite p = - 1 then {} else {iwrite p})))"

definition proc_ok :: "world \<Rightarrow> vprocess option \<Rightarrow> bool" where
  "proc_ok w q =
     (case q of None \<Rightarrow> True
      | Some p \<Rightarrow> pid p \<noteq> - 1 \<longrightarrow>
          oread p \<noteq> eread p \<and> iwrite p \<noteq> oread p \<and> iwrite p \<noteq> eread p \<and>
          (\<exists>i j. fd_entry (oread p) w = Some (RdEnd i) \<and> fd_entry (eread p) w = Some (RdEnd j)) \<and>
          (iwrite p \<noteq> - 1 \<longrightarrow> (\<exists>k. fd_entry (iwrite p) w = Some (WrEnd k))))"

text \<open>Every handle's descriptors are open, in the right direction, and its own.\<close>

definition owned :: "pstate \<Rightarrow> bool" where
  "owned s \<longleftrightarrow>
     (\<forall>i < length (procs s). proc_ok (kernel s) (procs s ! i)) \<and>
     (\<forall>i < length (procs s). \<forall>j < length (procs s).
        i \<noteq> j \<longrightarrow> proc_fds (procs s ! i) \<inter> proc_fds (procs s ! j) = {})"

lemma proc_fds_open: "proc_ok w q \<Longrightarrow> i \<in> proc_fds q \<Longrightarrow> fds w i \<noteq> None"
  by (auto simp: proc_ok_def proc_fds_def fd_entry_def split: option.splits if_splits)

lemma proc_ok_cong:
  "\<forall>i \<in> proc_fds q. fds w' i = fds w i \<Longrightarrow> proc_ok w q \<Longrightarrow> proc_ok w' q"
  by (auto simp: proc_ok_def proc_fds_def fd_entry_def split: option.splits if_splits)

lemma owned_cong:
  assumes "owned s" "procs s' = procs s" "fds (kernel s') = fds (kernel s)"
  shows "owned s'"
  unfolding owned_def
proof (intro conjI allI impI)
  fix i assume "i < length (procs s')"
  with assms show "proc_ok (kernel s') (procs s' ! i)"
    by (auto simp: owned_def intro: proc_ok_cong [of _ "kernel s'" "kernel s"])
qed (use assms in \<open>auto simp: owned_def\<close>)

lemma owned_update:
  assumes "owned s" "vp < length (procs s)"
    and "procs s' = (procs s)[vp := q]" "proc_fds q \<subseteq> proc_fds (procs s ! vp)"
    and "proc_ok (kernel s') q"
    and "\<forall>i. i \<notin> proc_fds (procs s ! vp) \<longrightarrow> fds (kernel s') i = fds (kernel s) i"
  shows "owned s'"
  unfolding owned_def
proof (intro conjI allI impI)
  fix i assume i: "i < length (procs s')"
  show "proc_ok (kernel s') (procs s' ! i)"
  proof (cases "i = vp")
    case False
    with assms i have "proc_fds (procs s ! i) \<inter> proc_fds (procs s ! vp) = {}" by (simp add: owned_def)
    then have "\<forall>k \<in> proc_fds (procs s ! i). fds (kernel s') k = fds (kernel s) k" using assms(6) by blast
    with assms(1,3) i False show ?thesis
      by (auto simp: owned_def intro!: proc_ok_cong [of _ "kernel s'" "kernel s"])
  qed (use assms in simp)
next
  fix i j assume ij: "i < length (procs s')" "j < length (procs s')" "i \<noteq> j"
  have "proc_fds (procs s' ! k) \<subseteq> proc_fds (procs s ! k)" if "k < length (procs s)" for k
    using assms(2-4) that by (cases "k = vp") auto
  moreover have "proc_fds (procs s ! i) \<inter> proc_fds (procs s ! j) = {}"
    using assms(1,3) ij by (simp add: owned_def)
  ultimately show "proc_fds (procs s' ! i) \<inter> proc_fds (procs s' ! j) = {}"
    using ij assms(3) by (simp add: disjoint_iff) blast
qed

lemma owned_append:
  assumes "owned s" "procs s' = procs s @ [q]" "proc_ok (kernel s') q"
    and "\<forall>i \<in> proc_fds q. fds (kernel s) i = None"
    and "\<forall>i. i \<notin> proc_fds q \<longrightarrow> fds (kernel s') i = fds (kernel s) i"
  shows "owned s'"
proof -
  have old: "proc_fds (procs s ! i) \<inter> proc_fds q = {}" if "i < length (procs s)" for i
  proof -
    have "proc_ok (kernel s) (procs s ! i)" using assms(1) that by (simp add: owned_def)
    from proc_fds_open [OF this] assms(4) show ?thesis by fastforce
  qed
  show ?thesis
    unfolding owned_def
  proof (intro conjI allI impI)
    fix i assume i: "i < length (procs s')"
    show "proc_ok (kernel s') (procs s' ! i)"
    proof (cases "i < length (procs s)")
      case True
      then have "\<forall>k \<in> proc_fds (procs s ! i). fds (kernel s') k = fds (kernel s) k"
        using assms(5) old [OF True] by blast
      with assms(1,2) True show ?thesis
        by (auto simp: owned_def nth_append intro!: proc_ok_cong [of _ "kernel s'" "kernel s"])
    next
      case False
      with i assms(2,3) show ?thesis by (simp add: nth_append)
    qed
  next
    fix i j assume ij: "i < length (procs s')" "j < length (procs s')" "i \<noteq> j"
    have "proc_fds (procs s ! k) \<inter> proc_fds (procs s ! l) = {}"
      if "k < length (procs s)" "l < length (procs s)" "k \<noteq> l" for k l
      using assms(1) that by (simp add: owned_def)
    moreover have "i < length (procs s) \<or> i = length (procs s)" "j < length (procs s) \<or> j = length (procs s)"
      using ij assms(2) by auto
    ultimately show "proc_fds (procs s' ! i) \<inter> proc_fds (procs s' ! j) = {}"
      using ij(3) assms(2) old [of i] old [of j] by (elim disjE) (simp_all add: nth_append Int_commute)
  qed
qed

section \<open>Which descriptors an operation touches\<close>

lemma read_again_frame:
  "fds (snd (read_again fd n w)) = fds w \<and> keep_on_intr (snd (read_again fd n w)) = keep_on_intr w"
proof (induction "length (intr w)" arbitrary: w rule: less_induct)
  case less
  obtain r w' where s: "sys_read fd n w = (r, w')" by fastforce
  then have f: "fds w' = fds w \<and> keep_on_intr w' = keep_on_intr w"
    by (auto simp: sys_read_def split: if_splits option.splits pipe_end.splits list.splits)
  show ?case
  proof (cases "r = Inl EINTR")
    case True
    then have "read_again fd n w = read_again fd n w'" using s by (subst read_again.simps) simp
    with less [OF interrupts_used(2) [OF s [unfolded True]]] f show ?thesis by simp
  next
    case False
    then have "snd (read_again fd n w) = w'"
      using s by (subst read_again.simps) (simp split: sum.split)
    with f show ?thesis by simp
  qed
qed

lemma write_again_frame:
  "fds (snd (write_again fd bs w)) = fds w \<and> keep_on_intr (snd (write_again fd bs w)) = keep_on_intr w"
proof (induction "length (intr w)" arbitrary: w rule: less_induct)
  case less
  obtain r w' where s: "sys_write fd bs w = (r, w')" by fastforce
  then have f: "fds w' = fds w \<and> keep_on_intr w' = keep_on_intr w"
    by (auto simp: sys_write_def split: if_splits option.splits pipe_end.splits list.splits)
  show ?case
  proof (cases "r = Inl EINTR")
    case True
    then have "write_again fd bs w = write_again fd bs w'" using s by (subst write_again.simps) simp
    with less [OF interrupts_used(3) [OF s [unfolded True]]] f show ?thesis by simp
  next
    case False
    then have "snd (write_again fd bs w) = w'"
      using s by (subst write_again.simps) (simp split: sum.split)
    with f show ?thesis by simp
  qed
qed

lemma waitpid_again_frame:
  "fds (snd (waitpid_again p w)) = fds w \<and> keep_on_intr (snd (waitpid_again p w)) = keep_on_intr w"
proof (induction "length (intr w)" arbitrary: w rule: less_induct)
  case less
  obtain r w' where s: "sys_waitpid p w = (r, w')" by fastforce
  then have f: "fds w' = fds w \<and> keep_on_intr w' = keep_on_intr w"
    by (auto simp: sys_waitpid_def split: if_splits option.splits)
  show ?case
  proof (cases "r = Inl EINTR")
    case True
    then have "waitpid_again p w = waitpid_again p w'" using s by (subst waitpid_again.simps) simp
    with less [OF interrupts_used(4) [OF s [unfolded True]]] f show ?thesis by simp
  next
    case False
    then have "snd (waitpid_again p w) = w'"
      using s by (subst waitpid_again.simps) (simp split: sum.split)
    with f show ?thesis by simp
  qed
qed

text \<open>The operations that leave every descriptor and every handle alone.\<close>

named_theorems quiet_intros \<open>operations that leave every descriptor and handle alone\<close>

definition quiet :: "'a op \<Rightarrow> bool" where
  "quiet f \<longleftrightarrow> (\<forall>s r s'. f s = Inr (r, s') \<longrightarrow> procs s' = procs s \<and>
     fds (kernel s') = fds (kernel s) \<and> keep_on_intr (kernel s') = keep_on_intr (kernel s))"

lemma quiet_pbind [quiet_intros]: "quiet f \<Longrightarrow> (\<And>x. quiet (g x)) \<Longrightarrow> quiet (pbind f g)"
  unfolding quiet_def pbind_Inr_iff by metis

lemma quiet_simple [quiet_intros]: "quiet (ret x)" "quiet (raise e)" "quiet (pure_c c)" "quiet (get_process vp)"
  by (auto simp: quiet_def get_process_def pure_c_def split: sum.splits if_splits option.splits)

lemma quiet_check [quiet_intros]: "quiet (check_args name bs pos len vp)"
  by (auto simp: check_args_def intro!: quiet_intros)

lemma quiet_kernel [quiet_intros]:
  "quiet (on_kernel (read_again fd n))" "quiet (on_kernel (write_again fd bs))"
  "quiet (on_kernel (waitpid_again p))" "quiet (on_kernel (\<lambda>w. ((), sys_kill p n w)))"
  using read_again_frame write_again_frame waitpid_again_frame
  by (auto simp: quiet_def sys_kill_def)

lemma quiet_ops:
  "quiet (process_stdout_read vp bs pos len)" "quiet (process_stderr_read vp bs pos len)"
  "quiet (process_stdin_write vp bs pos len)" "quiet (process_exit vp)" "quiet (process_pid vp)"
  "quiet (process_kill vp)"
  by (auto simp: process_stdout_read_def process_stderr_read_def read_fd_def process_stdin_write_def
      process_exit_def process_pid_def process_kill_def intro!: quiet_intros split: sum.split)

lemma get_process_Inr: "get_process vp s = Inr (r, s') \<longleftrightarrow>
    s' = s \<and> vp < length (procs s) \<and> (\<exists>p. procs s ! vp = Some p \<and> r = Inr p)"
  by (auto simp: get_process_def split: option.splits)

lemma do_close_keeps [simp]: "keep_on_intr (snd (do_close fd w)) = keep_on_intr w"
  using do_close_effect [of fd w] by auto

lemma stdin_close_cases:
  assumes "process_stdin_close vp s = Inr (r, s')"
  obtains p where "vp < length (procs s)" "procs s ! vp = Some p"
    "kernel s' = snd (do_close (iwrite p) (kernel s))"
    "fst (do_close (iwrite p) (kernel s)) = 0" "r = Inr ()"
    "procs s' = (procs s)[vp := Some (p\<lparr>iwrite := - 1\<rparr>)]"
  | p where "vp < length (procs s)" "procs s ! vp = Some p"
    "kernel s' = snd (do_close (iwrite p) (kernel s))"
    "fst (do_close (iwrite p) (kernel s)) \<noteq> 0" "r = Inl (Failure ''process_stdin_close'')" "procs s' = procs s"
  using assms
  by (auto simp: process_stdin_close_def pbind_Inr_iff get_process_Inr put_process_def split: if_splits)

lemma process_close_eq:
  assumes "vp < length (procs s)" "procs s ! vp = Some p"
  shows "process_close vp s = Inr (Inr (), s\<lparr>
    kernel := snd (do_close (iwrite p) (snd (do_close (oread p) (snd (do_close (eread p) (kernel s)))))),
    procs := (procs s)[vp := None]\<rparr>)"
proof -
  have "get_process vp s = Inr (Inr p, s)" using assms by (simp add: get_process_def)
  then show ?thesis by (simp add: process_close_def free_process_def put_process_def)
qed

lemma process_close_fault:
  assumes "\<not> (vp < length (procs s) \<and> procs s ! vp \<noteq> None)"
  shows "\<exists>e. process_close vp s = Inl (Undef e)"
proof -
  have "\<exists>e. get_process vp s = Inl (Undef e)"
    using assms by (cases "vp < length (procs s)") (auto simp: get_process_def)
  then obtain e where "get_process vp s = Inl (Undef e)" by blast
  then show ?thesis by (simp add: process_close_def free_process_def)
qed

definition closed_fds :: "int set \<Rightarrow> world \<Rightarrow> nat \<Rightarrow> pipe_end option" where
  "closed_fds F w i = (if int i \<in> F then None else fds w i)"

lemma closed_fds_closed: "closed_fds F (w\<lparr>fds := closed_fds G w, intr := bs\<rparr>) = closed_fds (F \<union> G) w"
  by (auto simp: closed_fds_def fun_eq_iff)

lemma do_close_fds: "\<exists>bs. snd (do_close fd w) = w\<lparr>fds := closed_fds {fd} w, intr := bs\<rparr>"
proof -
  have "(if fd < 0 then fds w else (fds w)(nat fd := None)) = closed_fds {fd} w"
    by (auto simp: fun_eq_iff closed_fds_def)
  with do_close_effect [of fd w] show ?thesis by (elim exE) auto
qed

lemma close_three:
  "\<exists>bs. snd (do_close c (snd (do_close b (snd (do_close a w))))) =
     w\<lparr>fds := closed_fds {c, b, a} w, intr := bs\<rparr>"
proof -
  from do_close_fds [of a w] obtain b1 where
    1: "snd (do_close a w) = w\<lparr>fds := closed_fds {a} w, intr := b1\<rparr>" (is "_ = ?w1") by blast
  from do_close_fds [of b ?w1] obtain b2 where
    2: "snd (do_close b ?w1) = w\<lparr>fds := closed_fds {b, a} w, intr := b2\<rparr>" (is "_ = ?w2")
    by (auto simp: closed_fds_closed insert_commute)
  from do_close_fds [of c ?w2] show ?thesis unfolding 1 2 by (auto simp: closed_fds_closed insert_commute)
qed

section \<open>The state machine\<close>

text \<open>
  What a program can do with the stubs: start processes and use the handles it was given, in any
  order, while the environment decides about interrupts, transfers and children. An operation on a
  freed handle is a fault and has no step.
\<close>

definition returned :: "nat \<Rightarrow> pstate \<Rightarrow> bool" where
  "returned vp s \<longleftrightarrow> (\<forall>p. vp < length (procs s) \<longrightarrow> procs s ! vp = Some p \<longrightarrow> pid p \<noteq> - 1)"

definition same_table :: "world \<Rightarrow> world \<Rightarrow> bool" where
  "same_table w w' \<longleftrightarrow> fds w' = fds w \<and> next_pipe w' = next_pipe w \<and> open_max w' = open_max w \<and>
     keep_on_intr w' = keep_on_intr w"

inductive pstep :: "pstate \<Rightarrow> pstate \<Rightarrow> bool" where
  run: "process_run ce cmd vargs s = Inr (r, s') \<Longrightarrow> pstep s s'"
| stdout_read: "process_stdout_read vp bs pos len s = Inr (n, s') \<Longrightarrow> pstep s s'"
| stderr_read: "process_stderr_read vp bs pos len s = Inr (n, s') \<Longrightarrow> pstep s s'"
| stdin_write: "process_stdin_write vp bs pos len s = Inr (k, s') \<Longrightarrow> pstep s s'"
| stdin_close: "returned vp s \<Longrightarrow> process_stdin_close vp s = Inr (u, s') \<Longrightarrow> pstep s s'"
| exit: "process_exit vp s = Inr (k, s') \<Longrightarrow> pstep s s'"
| pid: "process_pid vp s = Inr (k, s') \<Longrightarrow> pstep s s'"
| kill: "process_kill vp s = Inr (u, s') \<Longrightarrow> pstep s s'"
| close: "returned vp s \<Longrightarrow> process_close vp s = Inr (u, s') \<Longrightarrow> pstep s s'"
| environment: "same_table (kernel s) w \<Longrightarrow> pstep s (s\<lparr>kernel := w\<rparr>)"

lemma owned_quiet: "quiet f \<Longrightarrow> f s = Inr (r, s') \<Longrightarrow> owned s \<Longrightarrow> owned s' \<and> keep_on_intr (kernel s') = keep_on_intr (kernel s)"
  unfolding quiet_def using owned_cong by blast

lemma owned_close:
  assumes "owned s" "returned vp s" "process_close vp s = Inr (r, s')"
  shows "owned s' \<and> keep_on_intr (kernel s') = keep_on_intr (kernel s)"
proof -
  from assms(3) process_close_fault [of vp s] obtain p where p: "vp < length (procs s)" "procs s ! vp = Some p"
    by fastforce
  from close_three [of "iwrite p" "oread p" "eread p" "kernel s"] obtain bs where
    k: "snd (do_close (iwrite p) (snd (do_close (oread p) (snd (do_close (eread p) (kernel s)))))) =
      (kernel s)\<lparr>fds := closed_fds {iwrite p, oread p, eread p} (kernel s), intr := bs\<rparr>" by blast
  from assms(3) p k have s': "s' = s\<lparr>kernel := (kernel s)\<lparr>
      fds := closed_fds {iwrite p, oread p, eread p} (kernel s), intr := bs\<rparr>, procs := (procs s)[vp := None]\<rparr>"
    by (simp add: process_close_eq)
  have "fds (kernel s') i = fds (kernel s) i" if "i \<notin> proc_fds (procs s ! vp)" for i
    using that p assms(2)
    by (auto simp: s' closed_fds_def proc_fds_def returned_def split: if_splits)
  then have "owned s'"
    by (intro owned_update [OF assms(1) p(1), where q = None])
      (auto simp: s' proc_fds_def proc_ok_def)
  then show ?thesis by (simp add: s')
qed

lemma owned_stdin_close:
  assumes "owned s" "keep_on_intr (kernel s)" "returned vp s" "process_stdin_close vp s = Inr (r, s')"
  shows "owned s' \<and> keep_on_intr (kernel s') = keep_on_intr (kernel s)"
  using assms(4)
proof (cases rule: stdin_close_cases)
  case (1 p)
  with assms have ok: "proc_ok (kernel s) (Some p)" "pid p \<noteq> - 1"
    by (auto simp: owned_def returned_def)
  from 1(4) have open_fd: "iwrite p \<noteq> - 1" by (auto simp: do_close_result fd_entry_def split: if_splits)
  from do_close_fds [of "iwrite p" "kernel s"] 1(3) obtain bs where
    w: "kernel s' = (kernel s)\<lparr>fds := closed_fds {iwrite p} (kernel s), intr := bs\<rparr>"
    by auto
  have "owned s'"
  proof (rule owned_update [OF assms(1) 1(1) 1(6)])
    show "proc_ok (kernel s') (Some (p\<lparr>iwrite := - 1\<rparr>))"
      using ok by (auto simp: proc_ok_def w fd_entry_def closed_fds_def split: if_splits)
    show "\<forall>i. i \<notin> proc_fds (procs s ! vp) \<longrightarrow> fds (kernel s') i = fds (kernel s) i"
      using ok(2) open_fd 1(2) by (auto simp: w proc_fds_def closed_fds_def)
  qed (use ok(2) 1(2) open_fd in \<open>auto simp: proc_fds_def\<close>)
  with w show ?thesis by simp
next
  case (2 p)
  then have "fd_entry (iwrite p) (kernel s) = None"
    using assms(2) by (auto simp: do_close_result split: if_splits)
  then have "kernel s' = kernel s" using 2(3) by (subst (asm) do_close.simps) (simp add: sys_close_def)
  with 2(6) assms(1) owned_cong [of s s'] show ?thesis by simp
qed

lemma proc_ok_new:
  assumes "run_result ce cmd vargs s vp ch s' inp outp errp bs"
  defines "q \<equiv> \<lparr>oread = int (fst outp), eread = int (fst errp), iwrite = int (snd inp),
    pid = fork_result (kernel s)\<rparr>"
  shows "procs s' = procs s @ [Some q]" "proc_ok (kernel s') (Some q)"
    "proc_fds (Some q) = {snd inp, fst outp, fst errp}"
    "\<forall>i \<in> proc_fds (Some q). fds (kernel s) i = None"
    "\<forall>i. i \<notin> proc_fds (Some q) \<longrightarrow> fds (kernel s') i = fds (kernel s) i"
    "keep_on_intr (kernel s') = keep_on_intr (kernel s)"
proof -
  from assms(1) have o: "opened (kernel s) inp outp errp" "fork_result (kernel s) \<noteq> - 1"
    by (auto simp: run_result_def Let_def)
  then show fds: "proc_fds (Some q) = {snd inp, fst outp, fst errp}"
    by (auto simp: proc_fds_def q_def)
  show "procs s' = procs s @ [Some q]" using assms(1) by (simp add: run_result_def Let_def q_def)
  show "\<forall>i \<in> proc_fds (Some q). fds (kernel s) i = None" using o by (simp add: fds opened_def)
  show "\<forall>i. i \<notin> proc_fds (Some q) \<longrightarrow> fds (kernel s') i = fds (kernel s) i"
    using assms(1) by (simp add: fds run_result_def Let_def)
  show "keep_on_intr (kernel s') = keep_on_intr (kernel s)"
    using assms(1) by (simp add: run_result_def Let_def with_pipes_def)
  show "proc_ok (kernel s') (Some q)"
    using assms(1) o(1) by (auto simp: proc_ok_def q_def run_result_def Let_def opened_def)
qed

text \<open>A start that fails leaves its descriptors open but gives out no handle.\<close>

lemma three_pipes_frame:
  "three_pipes w = (r, w') \<Longrightarrow> (\<forall>i. fds w i \<noteq> None \<longrightarrow> fds w' i = fds w i) \<and> keep_on_intr w' = keep_on_intr w"
proof -
  have pipe: "(\<forall>i. fds w i \<noteq> None \<longrightarrow> fds w' i = fds w i) \<and> keep_on_intr w' = keep_on_intr w \<and> fork_result w' = fork_result w"
    if "sys_pipe w = (r, w')" for w r w'
  proof (cases r)
    case (Inr rv)
    with that obtain a b where "sys_pipe w = (Inr (a, b), w')" by (cases rv) auto
    from sys_pipe_ok [OF this] show ?thesis by auto
  qed (use that in \<open>auto simp: sys_pipe_def split: list.splits if_splits\<close>)
  assume "three_pipes w = (r, w')"
  then show ?thesis
    by (auto simp: three_pipes_def split: prod.splits sum.splits dest!: pipe)
qed

lemma process_run_raises:
  assumes "process_run ce cmd vargs s = Inr (Inl e, s')"
  shows "e = Failure ''process_run'' \<and> keep_on_intr (kernel s') = keep_on_intr (kernel s) \<and>
    (procs s' = procs s \<and> (\<forall>i. fds (kernel s) i \<noteq> None \<longrightarrow> fds (kernel s') i = fds (kernel s) i) \<or>
     (\<exists>q. procs s' = procs s @ [Some q] \<and> pid q = - 1 \<and> fds (kernel s') = fds (kernel s)))"
proof -
  obtain pipes w1 where p: "three_pipes (kernel s) = (pipes, w1)" by fastforce
  from assms obtain av where av: "make_argv cmd vargs = Inr av"
    by (cases "make_argv cmd vargs") (auto simp: process_run_def)
  show ?thesis
  proof (cases pipes)
    case None
    with assms av p three_pipes_frame [OF p] show ?thesis by (auto simp: process_run_def)
  next
    case (Some x)
    then obtain inp outp errp where x: "pipes = Some (inp, outp, errp)" by (cases x) auto
    note o = three_pipes_ok [OF p [unfolded x]]
    have f: "fork_result w1 = fork_result (kernel s)" by (simp add: o(2) with_pipes_def)
    show ?thesis
    proof (cases "fork_result (kernel s) = - 1")
      case True
      let ?l = "[fst inp, snd inp, fst outp, snd outp, fst errp, snd errp]"
      from process_run_fork_fails [OF av p [unfolded x] True, of ce] assms
      have "fds (kernel s') = fds (kernel s)" "e = Failure ''process_run''" by auto
      moreover have "keep_on_intr (close_list ?l w1) = keep_on_intr (kernel s)"
        using close_list_effect [of ?l w1] by (auto simp: o(2) with_pipes_def simp del: close_list.simps)
      moreover have "procs s' = procs s @ [Some \<lparr>oread = 0, eread = 0, iwrite = 0, pid = - 1\<rparr>]"
        "kernel s' = close_list ?l w1"
        using assms av p x f True
        by (auto simp: process_run_def new_process_def on_fds_def simp del: close_list.simps)
      ultimately show ?thesis by auto
    next
      case False
      with assms av p x f show ?thesis
        by (auto simp: process_run_def new_process_def on_fds_def put_process_def simp del: close_list.simps)
    qed
  qed
qed

lemma owned_run:
  assumes "owned s" "process_run ce cmd vargs s = Inr (r, s')"
  shows "owned s' \<and> keep_on_intr (kernel s') = keep_on_intr (kernel s)"
proof (cases r)
  case (Inr v)
  with assms(2) obtain vp ch inp outp errp bs where "run_result ce cmd vargs s vp ch s' inp outp errp bs"
    using process_run_returns by (cases v) blast
  note new = proc_ok_new [OF this]
  from owned_append [OF assms(1) new(1,2,4,5)] new(6) show ?thesis by blast
next
  case (Inl e)
  note R = process_run_raises [OF assms(2) [unfolded Inl]]
  have "owned s'"
  proof (cases "procs s' = procs s")
    case True
    with R have *: "fds (kernel s) i \<noteq> None \<Longrightarrow> fds (kernel s') i = fds (kernel s) i" for i by auto
    have "proc_ok (kernel s') (procs s ! i)" if "i < length (procs s)" for i
    proof (rule proc_ok_cong)
      show ok: "proc_ok (kernel s) (procs s ! i)" using assms(1) that by (simp add: owned_def)
      show "\<forall>k \<in> proc_fds (procs s ! i). fds (kernel s') k = fds (kernel s) k"
        using proc_fds_open [OF ok] * by blast
    qed
    with True assms(1) show ?thesis by (simp add: owned_def)
  next
    case False
    with R obtain q where q: "procs s' = procs s @ [Some q]" "pid q = - 1" "fds (kernel s') = fds (kernel s)"
      by blast
    show ?thesis
      by (rule owned_append [OF assms(1) q(1)]) (auto simp: proc_ok_def proc_fds_def q(2,3))
  qed
  with R show ?thesis by blast
qed

lemma pstep_owned:
  assumes "pstep s s'" "owned s" "keep_on_intr (kernel s)"
  shows "owned s' \<and> keep_on_intr (kernel s')"
  using assms
proof (cases rule: pstep.cases)
  case (environment w)
  with assms(2,3) owned_cong [of s s'] show ?thesis by (simp add: same_table_def)
qed (use assms(2,3) in \<open>auto dest: owned_run owned_close owned_stdin_close owned_quiet [OF quiet_ops(1)]
  owned_quiet [OF quiet_ops(2)] owned_quiet [OF quiet_ops(3)] owned_quiet [OF quiet_ops(4)]
  owned_quiet [OF quiet_ops(5)] owned_quiet [OF quiet_ops(6)]\<close>)

section \<open>Results of the operations\<close>

lemma waitpid_again_result:
  "\<exists>i. waitpid_again p w =
     (case wait_status w p of None \<Rightarrow> (Inl ECHILD, w\<lparr>intr := i\<rparr>)
      | Some st \<Rightarrow> (Inr st, w\<lparr>intr := i, wait_status := (wait_status w)(p := None)\<rparr>))"
proof (induction "length (intr w)" arbitrary: w rule: less_induct)
  case less
  show ?case
  proof (cases "interrupted w")
    case True
    then have s: "sys_waitpid p w = (Inl EINTR, tick w)" by (simp add: sys_waitpid_def)
    with less(1) [OF interrupts_used(4) [OF s]] show ?thesis
      by (subst waitpid_again.simps) (cases "wait_status w p"; simp; simp add: tick_def)
  next
    case False
    then show ?thesis
      by (subst waitpid_again.simps) (auto simp: sys_waitpid_def tick_def split: option.splits)
  qed
qed

lemma check_args_ok:
  assumes "vp < length (procs s)" "procs s ! vp = Some p"
    and "0 \<le> pos" "0 \<le> len" "pos + len \<le> int (length bs)" "int (length bs) < 2 ^ 31"
  shows "check_args name bs pos len vp s = Inr (Inr p, s)"
  using assms by (simp add: check_args_def Int_val_def int_result_def get_process_def)

lemma Int_val_small: "0 \<le> x \<Longrightarrow> x < 2 ^ 31 \<Longrightarrow> Int_val x = x"
  by (simp add: Int_val_def)

lemma read_fd_ok:
  assumes "vp < length (procs s)" "procs s ! vp = Some p" "fd_entry (fd_of p) (kernel s) = Some (RdEnd k)"
    and "0 \<le> pos" "0 \<le> len" "pos + len \<le> int (length bs)" "int (length bs) < 2 ^ 31"
  shows "\<exists>s'. read_fd name fd_of vp bs pos len s =
    Inr (case inflow (kernel s) k of
           [] \<Rightarrow> Inl (Failure name)
         | chunk # _ \<Rightarrow>
             let new = take (nat len) chunk
             in if new = [] then Inl (Failure name) else Inr (int (length new), store_bytes bs (nat pos) new), s')"
proof -
  have iv: "Int_val pos = pos" "Int_val len = len" using assms(4-7) by (simp_all add: Int_val_small)
  obtain r w' where r: "read_again (fd_of p) len (kernel s) = (r, w')" by fastforce
  with read_again_result [of "fd_of p" len "kernel s"] assms(3)
  have "r = Inr (case inflow (kernel s) k of [] \<Rightarrow> [] | chunk # _ \<Rightarrow> take (nat len) chunk)" by simp
  with r check_args_ok [OF assms(1,2,4-7), of name] show ?thesis
    by (cases "inflow (kernel s) k") (auto simp: read_fd_def iv Let_def)
qed

lemma length_store_bytes [simp]:
  "pos + length new \<le> length bs \<Longrightarrow> length (store_bytes bs pos new) = length bs"
  by (simp add: store_bytes_def)

lemma store_bytes_nth:
  "pos + length new \<le> length bs \<Longrightarrow> i < length bs \<Longrightarrow>
     store_bytes bs pos new ! i = (if pos \<le> i \<and> i < pos + length new then new ! (i - pos) else bs ! i)"
  by (auto simp: store_bytes_def nth_append)

section \<open>Examples\<close>

definition ex_world :: world where
  "ex_world = \<lparr>fds = [0 \<mapsto> Other_file 0, 1 \<mapsto> Other_file 1, 2 \<mapsto> Other_file 1], open_max = 16, pipes_left = 9,
     next_pipe = 0, fork_result = 42, intr = [], keep_on_intr = True, inflow = (\<lambda>_. [''hello'']),
     room = (\<lambda>_. [3]), sent = (\<lambda>_. ''''), wait_status = [42 \<mapsto> 512], signals = []\<rparr>"

definition ex_start :: pstate where
  "ex_start = \<lparr>kernel = ex_world, procs = []\<rparr>"

text \<open>One process, started from \<open>ex_start\<close>.\<close>

definition ex_one :: pstate where
  "ex_one = \<lparr>kernel = ex_world\<lparr>fds := [0 \<mapsto> Other_file 0, 1 \<mapsto> Other_file 1, 2 \<mapsto> Other_file 1, 4 \<mapsto> WrEnd 0,
       5 \<mapsto> RdEnd 1, 7 \<mapsto> RdEnd 2], next_pipe := 3, pipes_left := 6\<rparr>,
     procs = [Some \<lparr>oread = 5, eread = 7, iwrite = 4, pid = 42\<rparr>]\<rparr>"

section \<open>Properties\<close>

text \<open>C9: a started process is connected to its handle. The parent keeps exactly three new
  descriptors; the child finds the other ends of the same pipes at 0, 1 and 2, whichever descriptors
  were open before, and runs \<open>argv\<close>, or reports on its standard error that it cannot and exits
  with 1.\<close>

theorem process_run_connects:
  assumes "process_run ce cmd vargs s = Inr (Inr (vp, ch), s')"
  shows "\<exists>p k av. vp = length (procs s) \<and> procs s' = procs s @ [Some p] \<and> pid p = fork_result (kernel s) \<and>
    fd_entry (iwrite p) (kernel s') = Some (WrEnd k) \<and> child_fds ch 0 = Some (RdEnd k) \<and>
    fd_entry (oread p) (kernel s') = Some (RdEnd (k + 1)) \<and> child_fds ch 1 = Some (WrEnd (k + 1)) \<and>
    fd_entry (eread p) (kernel s') = Some (RdEnd (k + 2)) \<and> child_fds ch 2 = Some (WrEnd (k + 2)) \<and>
    (\<forall>i. int i \<in> {iwrite p, oread p, eread p} \<longrightarrow> fds (kernel s) i = None) \<and>
    (\<forall>i. int i \<notin> {iwrite p, oread p, eread p} \<longrightarrow> fds (kernel s') i = fds (kernel s) i) \<and>
    make_argv cmd vargs = Inr av \<and>
    ch = (if ce (hd av) then Runs av (child_fds ch)
          else Exits 1 (''Command not found : '' @ c_str cmd @ [CHR 0x0A]) (child_fds ch))"
proof -
  from process_run_returns [OF assms] obtain inp outp errp bs where
    R: "run_result ce cmd vargs s vp ch s' inp outp errp bs" by blast
  then obtain av where av: "make_argv cmd vargs = Inr av"
    "ch = run_child ce cmd av inp outp errp (fds (with_pipes (kernel s) inp outp errp))"
    "opened (kernel s) inp outp errp" "vp = length (procs s)" by (auto simp: run_result_def Let_def)
  note stdio = child_stdio [OF av(3), of ce cmd av, folded av(2)]
  note new = proc_ok_new [OF R]
  let ?p = "\<lparr>oread = int (fst outp), eread = int (fst errp), iwrite = int (snd inp), pid = fork_result (kernel s)\<rparr>"
  have "ch = (if ce (hd av) then Runs av (child_fds ch)
      else Exits 1 (''Command not found : '' @ c_str cmd @ [CHR 0x0A]) (child_fds ch))"
    by (simp add: av(2) run_child_def Let_def)
  moreover have "fds (kernel s') (snd inp) = Some (WrEnd (next_pipe (kernel s)))"
    "fds (kernel s') (fst outp) = Some (RdEnd (next_pipe (kernel s) + 1))"
    "fds (kernel s') (fst errp) = Some (RdEnd (next_pipe (kernel s) + 2))"
    using R av(3) by (auto simp: run_result_def Let_def opened_def)
  ultimately show ?thesis
    using av(1,4) new(1) new(4,5) [unfolded new(3)] stdio
    by (intro exI [of _ ?p] exI [of _ "next_pipe (kernel s)"] exI [of _ av]) (simp; blast)
qed

theorem process_run_connects_witness:
  "\<exists>ch s'. process_run (\<lambda>_. True) ''ls'' (Some [''-l'']) ex_start = Inr (Inr (0, ch), s') \<and>
    child_fds ch 0 = Some (RdEnd 0) \<and> argv ch = [''ls'', ''-l'']"
proof -
  have "case process_run (\<lambda>_. True) ''ls'' (Some [''-l'']) ex_start of
      Inr (Inr v, s') \<Rightarrow> fst v = 0 \<and> argv (snd v) = [''ls'', ''-l''] \<and> child_fds (snd v) 0 = Some (RdEnd 0)
    | _ \<Rightarrow> False" by code_simp
  then obtain ch s' where r: "process_run (\<lambda>_. True) ''ls'' (Some [''-l'']) ex_start = Inr (Inr (0, ch), s')"
    "argv ch = [''ls'', ''-l'']" "child_fds ch 0 = Some (RdEnd 0)" by (elim returnsE) (metis prod.collapse)
  with process_run_connects [OF r(1)] show ?thesis by blast
qed

interpretation posix: preserved pstep "\<lambda>s. owned s \<and> keep_on_intr (kernel s)"
  using pstep_owned by unfold_locales blast






text \<open>When fork fails, all six descriptors are closed again, whatever interrupts the closes, and the
  caller gets an exception.\<close>

lemma process_run_fork_failure:
  assumes "make_argv cmd vargs = Inr av" "fst (three_pipes (kernel s)) \<noteq> None" "fork_result (kernel s) = - 1"
  shows "\<exists>s'. process_run ce cmd vargs s = Inr (Inl (Failure ''process_run''), s') \<and>
    fds (kernel s') = fds (kernel s)"
proof -
  from assms(2) obtain inp outp errp w1 where "three_pipes (kernel s) = (Some (inp, outp, errp), w1)"
    by (metis eq_fst_iff option.exhaust surj_pair)
  from process_run_fork_fails [OF assms(1) this assms(3)] show ?thesis .
qed

lemma process_run_fork_failure_example:
  "\<exists>s'. process_run (\<lambda>_. True) ''ls'' None (ex_start\<lparr>kernel := ex_world\<lparr>fork_result := - 1, intr := [True, True]\<rparr>\<rparr>) =
      Inr (Inl (Failure ''process_run''), s') \<and>
    fds (kernel s') = fds (kernel (ex_start\<lparr>kernel := ex_world\<lparr>fork_result := - 1, intr := [True, True]\<rparr>\<rparr>))"
proof (rule process_run_fork_failure)
  show "make_argv ''ls'' None = Inr [''/bin/sh'', ''-c'', ''ls'']" by code_simp
  show "fst (three_pipes (kernel (ex_start\<lparr>kernel := ex_world\<lparr>fork_result := - 1, intr := [True, True]\<rparr>\<rparr>))) \<noteq> None"
    by code_simp
qed simp

text \<open>When the second or third pipe cannot be made, the descriptors of the earlier ones are never
  closed: the call fails and the process has lost them.\<close>

lemma process_run_leaks_pipes:
  assumes "make_argv cmd vargs = Inr av"
    and "sys_pipe (kernel s) = (Inr (r, v), w1)" "sys_pipe w1 = (Inl e, w2)"
  shows "\<exists>s'. process_run ce cmd vargs s = Inr (Inl (Failure ''process_run''), s') \<and> procs s' = procs s \<and>
    fds (kernel s) r = None \<and> fds (kernel s) v = None \<and>
    fds (kernel s') r = Some (RdEnd (next_pipe (kernel s))) \<and>
    fds (kernel s') v = Some (WrEnd (next_pipe (kernel s)))"
proof -
  have "w2 = w1" using assms(3) by (auto simp: sys_pipe_def split: list.splits if_splits)
  with assms have "three_pipes (kernel s) = (None, w1)" by (simp add: three_pipes_def)
  with assms(1) have "process_run ce cmd vargs s = Inr (Inl (Failure ''process_run''), s\<lparr>kernel := w1\<rparr>)"
    by (simp add: process_run_def)
  with sys_pipe_ok [OF assms(2)] show ?thesis by simp
qed

lemma process_run_leaks_pipes_example:
  "\<exists>s'. process_run (\<lambda>_. True) ''ls'' None (ex_start\<lparr>kernel := ex_world\<lparr>open_max := 5\<rparr>\<rparr>) =
      Inr (Inl (Failure ''process_run''), s') \<and> procs s' = [] \<and>
    fds (kernel s') 3 = Some (RdEnd 0) \<and> fds (kernel s') 4 = Some (WrEnd 0)"
proof -
  have ev: "make_argv ''ls'' None = Inr [''/bin/sh'', ''-c'', ''ls'']"
    "fst (sys_pipe (ex_world\<lparr>open_max := 5\<rparr>)) = Inr (3, 4)"
    "fst (sys_pipe (snd (sys_pipe (ex_world\<lparr>open_max := 5\<rparr>)))) = Inl EMFILE" by code_simp+
  then have "sys_pipe (kernel (ex_start\<lparr>kernel := ex_world\<lparr>open_max := 5\<rparr>\<rparr>)) =
      (Inr (3, 4), snd (sys_pipe (ex_world\<lparr>open_max := 5\<rparr>)))"
    "sys_pipe (snd (sys_pipe (ex_world\<lparr>open_max := 5\<rparr>))) =
      (Inl EMFILE, snd (sys_pipe (snd (sys_pipe (ex_world\<lparr>open_max := 5\<rparr>)))))"
    by (metis prod.collapse pstate.select_convs(1) pstate.update_convs(1) pstate.surjective)+
  from process_run_leaks_pipes [OF ev(1) this] show ?thesis by (simp add: ex_start_def ex_world_def)
qed

text \<open>The argument vector is the command and its arguments, each up to its first zero byte; without
  arguments the shell gets the command. The array holds them and the final null for up to
  \<open>2 ^ 28 - 3\<close> arguments.\<close>

lemma make_argv_correct:
  assumes "case vargs of None \<Rightarrow> True | Some args \<Rightarrow> length args < 2 ^ 28 - 2"
  shows "make_argv cmd vargs = Inr (case vargs of
      None \<Rightarrow> [''/bin/sh'', ''-c'', c_str cmd] | Some args \<Rightarrow> map c_str (cmd # args))"
proof (cases vargs)
  case None
  show ?thesis by (simp add: None make_argv_def fill_argv_def alloc_private_def c_str_def)
next
  case (Some args)
  with assms show ?thesis by (simp add: make_argv_def fill_argv_def alloc_private_def)
qed

lemma make_argv_correct_example:
  "make_argv ''ls'' (Some [''-l'', ''x y'']) = Inr (case Some [''-l'', ''x y''] of
      None \<Rightarrow> [''/bin/sh'', ''-c'', c_str ''ls''] | Some args \<Rightarrow> map c_str (''ls'' # args))"
  by (rule make_argv_correct) simp

text \<open>C19: a read returns what the pipe delivers, at most \<open>len\<close> bytes, in the OCaml string from \<open>pos\<close> on;
  the rest of the string is unchanged, and interrupts are not seen. The end of the file is an
  exception.\<close>

theorem process_stdout_read_correct:
  assumes "vp < length (procs s)" "procs s ! vp = Some p" "fd_entry (oread p) (kernel s) = Some (RdEnd k)"
    and "0 \<le> pos" "0 < len" "pos + len \<le> int (length bs)" "int (length bs) < 2 ^ 31"
  shows "\<exists>r s'. process_stdout_read vp bs pos len s = Inr (r, s') \<and> procs s' = procs s \<and>
    fds (kernel s') = fds (kernel s) \<and>
    (case inflow (kernel s) k of
       [] \<Rightarrow> r = Inl (Failure ''process_stdout_read'')
     | chunk # _ \<Rightarrow> chunk \<noteq> [] \<longrightarrow>
         (let n = min (nat len) (length chunk) in
          \<exists>bs'. r = Inr (int n, bs') \<and> length bs' = length bs \<and>
            (\<forall>i < length bs. bs' ! i = (if nat pos \<le> i \<and> i < nat pos + n then chunk ! (i - nat pos) else bs ! i))))"
proof -
  from read_fd_ok [of vp s p oread k pos len bs "''process_stdout_read''"] assms obtain s' where
    r: "process_stdout_read vp bs pos len s =
      Inr (case inflow (kernel s) k of [] \<Rightarrow> Inl (Failure ''process_stdout_read'')
         | chunk # _ \<Rightarrow> let new = take (nat len) chunk
             in if new = [] then Inl (Failure ''process_stdout_read'')
                else Inr (int (length new), store_bytes bs (nat pos) new), s')"
    by (auto simp: process_stdout_read_def)
  with quiet_ops(1) have "procs s' = procs s" "fds (kernel s') = fds (kernel s)" unfolding quiet_def by blast+
  moreover have "\<exists>bs'. Inr (int (length (take (nat len) chunk)), store_bytes bs (nat pos) (take (nat len) chunk)) =
        (Inr (int (min (nat len) (length chunk)), bs') :: exn + int \<times> string) \<and> length bs' = length bs \<and>
      (\<forall>i < length bs. bs' ! i = (if nat pos \<le> i \<and> i < nat pos + min (nat len) (length chunk)
         then chunk ! (i - nat pos) else bs ! i))" for chunk
  proof -
    have "nat pos + length (take (nat len) chunk) \<le> length bs" using assms(4-6) by simp
    then show ?thesis
      by (intro exI [of _ "store_bytes bs (nat pos) (take (nat len) chunk)"])
        (auto simp: store_bytes_nth min_def split: if_splits intro!: nth_take)
  qed
  ultimately show ?thesis using r assms(5)
    by (cases "inflow (kernel s) k") (auto simp: Let_def)
qed

theorem process_stdout_read_correct_witness:
  "\<exists>r s'. process_stdout_read 0 ''abcdefgh'' 2 3 ex_one = Inr (r, s') \<and> procs s' = procs ex_one \<and>
    fds (kernel s') = fds (kernel ex_one) \<and>
    (case inflow (kernel ex_one) 1 of
       [] \<Rightarrow> r = Inl (Failure ''process_stdout_read'')
     | chunk # _ \<Rightarrow> chunk \<noteq> [] \<longrightarrow>
         (let n = min (nat 3) (length chunk) in
          \<exists>bs'. r = Inr (int n, bs') \<and> length bs' = length ''abcdefgh'' \<and>
            (\<forall>i < length ''abcdefgh''. bs' ! i =
              (if nat 2 \<le> i \<and> i < nat 2 + n then chunk ! (i - nat 2) else ''abcdefgh'' ! i))))"
  by (rule process_stdout_read_correct [where p = "\<lparr>oread = 5, eread = 7, iwrite = 4, pid = 42\<rparr>"])
    (simp_all add: ex_one_def ex_world_def fd_entry_def)

text \<open>Asking for zero bytes raises, although the documentation reserves the exception for a closed
  output without data.\<close>

lemma zero_length_read_raises:
  assumes "vp < length (procs s)" "procs s ! vp = Some p" "fd_entry (oread p) (kernel s) = Some (RdEnd k)"
    and "0 \<le> pos" "pos \<le> int (length bs)" "int (length bs) < 2 ^ 31"
  shows "\<exists>s'. process_stdout_read vp bs pos 0 s = Inr (Inl (Failure ''process_stdout_read''), s')"
  using read_fd_ok [of vp s p oread k pos 0 bs "''process_stdout_read''"] assms
  by (cases "inflow (kernel s) k") (auto simp: process_stdout_read_def)

lemma zero_length_read_raises_example:
  "\<exists>s'. process_stdout_read 0 ''abc'' 1 0 ex_one = Inr (Inl (Failure ''process_stdout_read''), s')"
  by (rule zero_length_read_raises [where p = "\<lparr>oread = 5, eread = 7, iwrite = 4, pid = 42\<rparr>" and k = 1])
    (simp_all add: ex_one_def ex_world_def fd_entry_def)

text \<open>C20: a write sends a prefix of the requested slice of the string and returns its length: the pipe's
  contents grow by exactly those bytes. A pipe that nobody reads is an exception.\<close>

theorem process_stdin_write_correct:
  assumes "vp < length (procs s)" "procs s ! vp = Some p" "fd_entry (iwrite p) (kernel s) = Some (WrEnd k)"
    and "0 \<le> pos" "0 < len" "pos + len \<le> int (length bs)" "int (length bs) < 2 ^ 31"
  shows "\<exists>r s'. process_stdin_write vp bs pos len s = Inr (r, s') \<and> procs s' = procs s \<and>
    fds (kernel s') = fds (kernel s) \<and>
    (case room (kernel s) k of
       [] \<Rightarrow> r = Inl (Failure ''process_stdin_write'') \<and> sent (kernel s') = sent (kernel s)
     | n # _ \<Rightarrow> (let m = min n (nat len) in
         r = Inr (int m) \<and> sent (kernel s') k = sent (kernel s) k @ take m (drop (nat pos) bs) \<and>
         (\<forall>j. j \<noteq> k \<longrightarrow> sent (kernel s') j = sent (kernel s) j)))"
proof -
  let ?slice = "take (nat len) (drop (nat pos) bs)"
  have iv: "Int_val pos = pos" "Int_val len = len" using assms(4-7) by (simp_all add: Int_val_small)
  have slice: "?slice \<noteq> []" "length ?slice = nat len" using assms(4-6) by auto
  from write_again_result [OF assms(3) slice(1)] obtain i where
    w: "write_again (iwrite p) ?slice (kernel s) =
    (case room (kernel s) k of [] \<Rightarrow> (Inl EPIPE, (kernel s)\<lparr>intr := i\<rparr>)
     | n # rest \<Rightarrow> (Inr (min n (length ?slice)),
         (kernel s)\<lparr>intr := i, room := (room (kernel s))(k := rest), sent := (sent (kernel s))(k := sent (kernel s) k @ take n ?slice)\<rparr>))"
    by blast
  have c: "check_args ''process_stdin_write'' bs pos len vp s = Inr (Inr p, s)"
    using check_args_ok [OF assms(1,2,4)] assms(5-7) by simp
  show ?thesis
  proof (cases "room (kernel s) k")
    case Nil
    with w c iv show ?thesis by (simp add: process_stdin_write_def)
  next
    case (Cons n rest)
    with w c iv slice show ?thesis by (simp add: process_stdin_write_def Let_def)
  qed
qed

theorem process_stdin_write_correct_witness:
  "\<exists>r s'. process_stdin_write 0 ''abcdefgh'' 2 5 ex_one = Inr (r, s') \<and> procs s' = procs ex_one \<and>
    fds (kernel s') = fds (kernel ex_one) \<and>
    (case room (kernel ex_one) 0 of
       [] \<Rightarrow> r = Inl (Failure ''process_stdin_write'') \<and> sent (kernel s') = sent (kernel ex_one)
     | n # _ \<Rightarrow> (let m = min n (nat 5) in
         r = Inr (int m) \<and> sent (kernel s') 0 = sent (kernel ex_one) 0 @ take m (drop (nat 2) ''abcdefgh'') \<and>
         (\<forall>j. j \<noteq> 0 \<longrightarrow> sent (kernel s') j = sent (kernel ex_one) j)))"
  by (rule process_stdin_write_correct [where p = "\<lparr>oread = 5, eread = 7, iwrite = 4, pid = 42\<rparr>"])
    (simp_all add: ex_one_def ex_world_def fd_entry_def)

text \<open>\<open>process_exit\<close> gives the exit status, between 0 and 255, of a child that exited, however often
  the wait is interrupted. The child is gone then, and asking again is an exception.\<close>

lemma process_exit_once:
  assumes "vp < length (procs s)" "procs s ! vp = Some p" "wait_status (kernel s) (pid p) = Some st" "WIFEXITED st"
  shows "\<exists>s' s''. process_exit vp s = Inr (Inr (WEXITSTATUS st), s') \<and> WEXITSTATUS st \<in> {0..255} \<and>
    process_exit vp s' = Inr (Inl (Failure ''process_exit''), s'')"
proof -
  from waitpid_again_result [of "pid p" "kernel s"] assms(3) obtain i where
    w: "waitpid_again (pid p) (kernel s) =
      (Inr st, (kernel s)\<lparr>intr := i, wait_status := (wait_status (kernel s))(pid p := None)\<rparr>)" by auto
  let ?w = "(kernel s)\<lparr>intr := i, wait_status := (wait_status (kernel s))(pid p := None)\<rparr>"
  from waitpid_again_result [of "pid p" ?w] obtain i' where
    w': "waitpid_again (pid p) ?w = (Inl ECHILD, ?w\<lparr>intr := i'\<rparr>)" by auto
  have g: "get_process vp s = Inr (Inr p, s)" "get_process vp (s\<lparr>kernel := ?w\<rparr>) = Inr (Inr p, s\<lparr>kernel := ?w\<rparr>)"
    using assms(1,2) by (simp_all add: get_process_def)
  have "process_exit vp s = Inr (Inr (WEXITSTATUS st), s\<lparr>kernel := ?w\<rparr>)"
    using g(1) w assms(4) by (simp add: process_exit_def)
  moreover have "process_exit vp (s\<lparr>kernel := ?w\<rparr>) = Inr (Inl (Failure ''process_exit''), s\<lparr>kernel := ?w\<lparr>intr := i'\<rparr>\<rparr>)"
    using g(2) w' by (simp add: process_exit_def)
  moreover have "WEXITSTATUS st \<in> {0..255}" by (simp add: WEXITSTATUS_def)
  ultimately show ?thesis by blast
qed

lemma process_exit_once_example:
  "\<exists>s' s''. process_exit 0 ex_one = Inr (Inr (WEXITSTATUS 512), s') \<and> WEXITSTATUS 512 \<in> {0..255} \<and>
    process_exit 0 s' = Inr (Inl (Failure ''process_exit''), s'')"
  by (rule process_exit_once [where p = "\<lparr>oread = 5, eread = 7, iwrite = 4, pid = 42\<rparr>"])
    (simp_all add: ex_one_def ex_world_def WIFEXITED_def)

text \<open>\<open>CHECK_ARGS\<close> keeps every accepted access inside the string: what passes lies between 0 and its
  length, for the low 32 bits of the arguments.\<close>

lemma check_args_in_bounds:
  assumes "check_args name bs pos len vp s = Inr (Inr p, s')"
  shows "s' = s \<and> procs s ! vp = Some p \<and> 0 \<le> Int_val pos \<and> 0 \<le> Int_val len \<and>
    Int_val pos + Int_val len \<le> int (length bs)"
  using assms
  by (auto simp: check_args_def pbind_Inr_iff get_process_Inr int_result_def pure_c_def split: if_splits)

lemma check_args_in_bounds_example:
  "ex_one = ex_one \<and> procs ex_one ! 0 = Some \<lparr>oread = 5, eread = 7, iwrite = 4, pid = 42\<rparr> \<and>
    0 \<le> Int_val 1 \<and> 0 \<le> Int_val 2 \<and> Int_val 1 + Int_val 2 \<le> int (length ''abc'')"
proof (rule check_args_in_bounds)
  show "check_args ''f'' ''abc'' 1 2 0 ex_one = Inr (Inr \<lparr>oread = 5, eread = 7, iwrite = 4, pid = 42\<rparr>, ex_one)"
    by (rule check_args_ok) (simp_all add: ex_one_def)
qed

text \<open>The check sees only ints. A position of \<open>2 ^ 32\<close> counts as 0 and is accepted, and two ints
  whose sum leaves the range of int are added before they are compared, which C does not define.\<close>

lemma check_args_limits:
  "(vp < length (procs s) \<and> procs s ! vp = Some p \<longrightarrow>
     check_args name ''abc'' (2 ^ 32) 3 vp s = Inr (Inr p, s)) \<and>
   check_args name ''abc'' 1 (2 ^ 31 - 1) vp s = Inl (Undef ''signed overflow'')"
  by (auto simp: check_args_def Int_val_def s32_def int_result_def get_process_def)

lemma check_args_limits_example:
  "check_args ''f'' ''abc'' (2 ^ 32) 3 0 ex_one = Inr (Inr \<lparr>oread = 5, eread = 7, iwrite = 4, pid = 42\<rparr>, ex_one)"
  using check_args_limits [of 0 ex_one "\<lparr>oread = 5, eread = 7, iwrite = 4, pid = 42\<rparr>" "''f''"]
  by (simp add: ex_one_def)

text \<open>No descriptor is closed on exec. A process started later inherits the parent's end of every
  earlier standard input, so \<open>process_stdin_close\<close> does not give the earlier process its end of file
  while the later one runs.\<close>

lemma later_child_inherits_stdin:
  assumes "process_run ce cmd vargs s = Inr (Inr (vp, ch), s')"
    and "fd_entry fd (kernel s) = Some (WrEnd k)" "2 < fd"
  shows "child_fds ch (nat fd) = Some (WrEnd k)"
proof -
  from process_run_returns [OF assms(1)] obtain inp outp errp bs where
    R: "run_result ce cmd vargs s vp ch s' inp outp errp bs" by blast
  then obtain av where av: "ch = run_child ce cmd av inp outp errp (fds (with_pipes (kernel s) inp outp errp))"
    "opened (kernel s) inp outp errp" by (auto simp: run_result_def Let_def)
  note stdio = child_stdio [OF av(2), of ce cmd av, folded av(1)]
  have "fds (kernel s) (nat fd) = Some (WrEnd k)" using assms(2,3) by (simp add: fd_entry_def)
  moreover from this av(2) have "nat fd \<notin> {fst inp, snd outp, snd errp}" by (auto simp: opened_def)
  moreover have "nat fd \<noteq> 0" "nat fd \<noteq> 1" "nat fd \<noteq> 2" using assms(3) by auto
  ultimately show ?thesis using stdio by simp
qed

lemma later_child_inherits_stdin_example:
  "\<exists>ch s'. process_run (\<lambda>_. True) ''b'' None ex_one = Inr (Inr (1, ch), s') \<and> child_fds ch (nat 4) = Some (WrEnd 0)"
proof -
  have "case process_run (\<lambda>_. True) ''b'' None ex_one of Inr (Inr v, s') \<Rightarrow> fst v = 1 | _ \<Rightarrow> False"
    by code_simp
  then obtain ch s' where r: "process_run (\<lambda>_. True) ''b'' None ex_one = Inr (Inr (1, ch), s')"
    by (elim returnsE) (metis prod.collapse)
  have "child_fds ch (nat 4) = Some (WrEnd 0)"
    by (rule later_child_inherits_stdin [OF r]) (simp_all add: ex_one_def ex_world_def fd_entry_def)
  with r show ?thesis by blast
qed

end
