(* ===== verification/WinProcess.thy ===== *)
theory WinProcess imports ProcQuote begin

text \<open>
  The Windows half of libs/extc/process_stubs.c: the Win32 calls it makes, \<open>process_run\<close> and the
  operations on a process handle.
\<close>

section \<open>Win32\<close>

datatype kobject = Pipe_in nat | Pipe_out nat | Process nat | Thread nat

record hentry =
  obj :: kobject
  inherit :: bool

text \<open>
  \<open>htab\<close>: the handle table of the compiler; \<open>pick t\<close>: the value that the system gives to a new handle
  when the table is \<open>t\<close>; \<open>can_start\<close>: whether \<open>CreateProcess\<close> finds the program; \<open>win_inflow k\<close>: the
  chunks that the reads of pipe \<open>k\<close> will find, the end of the list being a broken pipe; \<open>has_reader k\<close>:
  whether writes to it succeed; \<open>exit_code\<close>: what a process ends or ended with.
\<close>

record win_world =
  htab :: "nat \<Rightarrow> hentry option"
  pick :: "(nat \<Rightarrow> hentry option) \<Rightarrow> nat option"
  win_pipes :: nat
  next_wpipe :: nat
  next_pid :: nat
  can_start :: "string \<Rightarrow> bool"
  win_inflow :: "nat \<Rightarrow> string list"
  has_reader :: "nat \<Rightarrow> bool"
  win_sent :: "nat \<Rightarrow> string"
  running :: "nat \<Rightarrow> bool"
  exit_code :: "nat \<Rightarrow> int"

definition new_handle :: "hentry \<Rightarrow> win_world \<Rightarrow> nat option \<times> win_world" where
  "new_handle e w =
     (case pick w (htab w) of
        None \<Rightarrow> (None, w)
      | Some h \<Rightarrow> (Some h, w\<lparr>htab := (htab w)(h \<mapsto> e)\<rparr>))"

definition CreatePipe :: "win_world \<Rightarrow> (nat \<times> nat) option \<times> win_world" where
  "CreatePipe w =
     (if win_pipes w = 0 then (None, w)
      else case new_handle \<lparr>obj = Pipe_in (next_wpipe w), inherit = True\<rparr> w of
             (None, _) \<Rightarrow> (None, w)
           | (Some r, w1) \<Rightarrow>
               (case new_handle \<lparr>obj = Pipe_out (next_wpipe w), inherit = True\<rparr> w1 of
                  (None, _) \<Rightarrow> (None, w)
                | (Some h, w2) \<Rightarrow>
                    (Some (r, h), w2\<lparr>next_wpipe := next_wpipe w + 1, win_pipes := win_pipes w - 1\<rparr>)))"

definition DuplicateHandle :: "nat \<Rightarrow> win_world \<Rightarrow> nat option \<times> win_world" where
  "DuplicateHandle h w =
     (case htab w h of None \<Rightarrow> (None, w) | Some e \<Rightarrow> new_handle (e\<lparr>inherit := False\<rparr>) w)"

definition CloseHandle :: "nat \<Rightarrow> win_world \<Rightarrow> bool \<times> win_world" where
  "CloseHandle h w = (htab w h \<noteq> None, w\<lparr>htab := (htab w)(h := None)\<rparr>)"

definition ReadFile :: "nat \<Rightarrow> nat \<Rightarrow> win_world \<Rightarrow> string option \<times> win_world" where
  "ReadFile h n w =
     (case map_option obj (htab w h) of
        Some (Pipe_in k) \<Rightarrow>
          (case win_inflow w k of
             [] \<Rightarrow> (None, w)
           | chunk # rest \<Rightarrow>
               (Some (take n chunk),
                w\<lparr>win_inflow := (win_inflow w)(k := (if length chunk \<le> n then rest else drop n chunk # rest))\<rparr>))
      | _ \<Rightarrow> (None, w))"

definition WriteFile :: "nat \<Rightarrow> string \<Rightarrow> win_world \<Rightarrow> nat option \<times> win_world" where
  "WriteFile h bs w =
     (case map_option obj (htab w h) of
        Some (Pipe_out k) \<Rightarrow>
          if has_reader w k then (Some (length bs), w\<lparr>win_sent := (win_sent w)(k := win_sent w k @ bs)\<rparr>) else (None, w)
      | _ \<Rightarrow> (None, w))"

text \<open>
  A started process: its command line, what its standard handles are, and the handles it got a copy of.
\<close>

record win_child =
  command :: string
  std_in :: "kobject option"
  std_out :: "kobject option"
  std_err :: "kobject option"
  copies :: "nat \<Rightarrow> kobject option"

definition inherited :: "win_world \<Rightarrow> nat \<Rightarrow> kobject option" where
  "inherited w h = (case htab w h of Some e \<Rightarrow> if inherit e then Some (obj e) else None | None \<Rightarrow> None)"

text \<open>The handles of the process and of its first thread and its id come back with it.\<close>

definition CreateProcess ::
  "string \<Rightarrow> nat \<times> nat \<times> nat \<Rightarrow> win_world \<Rightarrow> ((nat \<times> nat \<times> nat) \<times> win_child) option \<times> win_world" where
  "CreateProcess line std w =
     (if \<not> can_start w line then (None, w)
      else case new_handle \<lparr>obj = Process (next_pid w), inherit = False\<rparr> w of
             (None, _) \<Rightarrow> (None, w)
           | (Some hp, w1) \<Rightarrow>
               (case new_handle \<lparr>obj = Thread (next_pid w), inherit = False\<rparr> w1 of
                  (None, _) \<Rightarrow> (None, w)
                | (Some ht, w2) \<Rightarrow>
                    (Some ((hp, ht, next_pid w),
                           \<lparr>command = line, std_in = inherited w (fst std), std_out = inherited w (fst (snd std)),
                            std_err = inherited w (snd (snd std)), copies = inherited w\<rparr>),
                     w2\<lparr>next_pid := next_pid w + 1, running := (running w)(next_pid w := True)\<rparr>)))"

section \<open>State\<close>

record win_vprocess =
  w_oread :: nat
  w_eread :: nat
  w_iwrite :: nat
  hProcess :: nat
  hThread :: nat
  dwProcessId :: nat

text \<open>The blocks that malloc returned; those that were freed are \<open>None\<close>.\<close>

record win_state =
  win :: win_world
  win_procs :: "win_vprocess option list"

datatype exn = Failure string

type_synonym 'a wop = "(win_state, exn, 'a) prim"

definition on_win :: "(win_world \<Rightarrow> 'a \<times> win_world) \<Rightarrow> 'a wop" where
  "on_win g = stateful (\<lambda>s. (fst (g (win s)), s\<lparr>win := snd (g (win s))\<rparr>))"

definition win_process :: "nat \<Rightarrow> win_vprocess wop" where
  "win_process vp s =
     (if vp < length (win_procs s)
      then (case win_procs s ! vp of None \<Rightarrow> Inl (Undef ''use after free'') | Some p \<Rightarrow> Inr (Inr p, s))
      else Inl (Undef ''invalid handle''))"

section \<open>Starting a process\<close>

text \<open>
  Nothing checks the pipes: where one could not be made, the variables keep what they held, \<open>stale\<close> or,
  in the cleared \<open>STARTUPINFO\<close>, 0.
\<close>

definition got :: "nat \<Rightarrow> nat option \<Rightarrow> nat" where
  "got stale r = (case r of Some h \<Rightarrow> h | None \<Rightarrow> stale)"

definition close_all :: "nat list \<Rightarrow> win_world \<Rightarrow> win_world" where
  "close_all hs w = foldl (\<lambda>w h. snd (CloseHandle h w)) w hs"

text \<open>From \<open>CreatePipe\<close> to the closing of the originals: the three kept handles and those of the child.\<close>

definition win_pipes_made ::
  "nat \<Rightarrow> win_world \<Rightarrow> (nat \<times> nat \<times> nat) \<times> (nat \<times> nat \<times> nat) \<times> win_world" where
  "win_pipes_made stale w =
     (let (o_pipe, w) = CreatePipe w;
          (e_pipe, w) = CreatePipe w;
          (i_pipe, w) = CreatePipe w;
          rd_o = got stale (map_option fst o_pipe); hStdOutput = got 0 (map_option snd o_pipe);
          rd_e = got stale (map_option fst e_pipe); hStdError = got 0 (map_option snd e_pipe);
          hStdInput = got 0 (map_option fst i_pipe); wr_i = got stale (map_option snd i_pipe);
          (d_o, w) = DuplicateHandle rd_o w;
          (d_e, w) = DuplicateHandle rd_e w;
          (d_i, w) = DuplicateHandle wr_i w
      in ((got stale d_o, got stale d_e, got stale d_i), (hStdInput, hStdOutput, hStdError),
          close_all [rd_o, rd_e, wr_i] w))"

definition new_block :: "win_vprocess \<Rightarrow> nat wop" where
  "new_block p s = Inr (Inr (length (win_procs s)), s\<lparr>win_procs := win_procs s @ [Some p]\<rparr>)"

definition win_process_run ::
  "cmem \<Rightarrow> string option \<Rightarrow> nat \<Rightarrow> string \<Rightarrow> string list option \<Rightarrow> (nat \<times> win_child) wop" where
  "win_process_run m comspec stale cmd vargs =
     pbind (pure_c (win_command_line m comspec cmd vargs)) (\<lambda>sargs.
     pbind (on_win (\<lambda>w. case win_pipes_made stale w of (kept, std, w) \<Rightarrow> ((kept, std), w))) (\<lambda>(kept, std).
     pbind (on_win (CreateProcess (c_str sargs) std)) (\<lambda>started.
     case started of
       None \<Rightarrow>
         pbind (new_block \<lparr>w_oread = fst kept, w_eread = fst (snd kept), w_iwrite = snd (snd kept),
                          hProcess = stale, hThread = stale, dwProcessId = stale\<rparr>) (\<lambda>_.
         pbind (on_win (\<lambda>w. ((), close_all [fst (snd kept), fst kept, snd (snd kept)] w))) (\<lambda>_.
         raise (Failure ''process_run'')))
     | Some ((hp, ht, i), child) \<Rightarrow>
         pbind (on_win (\<lambda>w. ((), close_all [fst (snd std), snd (snd std), fst std] w))) (\<lambda>_.
         pbind (new_block \<lparr>w_oread = fst kept, w_eread = fst (snd kept), w_iwrite = snd (snd kept),
                          hProcess = hp, hThread = ht, dwProcessId = i\<rparr>) (\<lambda>vp.
         ret (vp, child))))))"

section \<open>Operations on a handle\<close>

definition win_check_args :: "string \<Rightarrow> string \<Rightarrow> int \<Rightarrow> int \<Rightarrow> nat \<Rightarrow> win_vprocess wop" where
  "win_check_args name bs pos len vp =
     (if s32 pos < 0 \<or> s32 len < 0 then raise (Failure name)
      else pbind (pure_c (int_result (s32 pos + s32 len))) (\<lambda>sum.
           if sum > int (length bs) then raise (Failure name) else win_process vp))"

definition win_read :: "string \<Rightarrow> (win_vprocess \<Rightarrow> nat) \<Rightarrow> nat \<Rightarrow> string \<Rightarrow> int \<Rightarrow> int \<Rightarrow> (int \<times> string) wop" where
  "win_read name handle vp bs pos len =
     pbind (win_check_args name bs pos len vp) (\<lambda>p.
     pbind (on_win (ReadFile (handle p) (nat (s32 len)))) (\<lambda>r.
       case r of
         None \<Rightarrow> raise (Failure name)
       | Some new \<Rightarrow>
           let at = nat (s32 pos)
           in ret (int (length new), take at bs @ new @ drop (at + length new) bs)))"

definition win_stdout_read :: "nat \<Rightarrow> string \<Rightarrow> int \<Rightarrow> int \<Rightarrow> (int \<times> string) wop" where
  "win_stdout_read = win_read ''process_stdout_read'' w_oread"

definition win_stderr_read :: "nat \<Rightarrow> string \<Rightarrow> int \<Rightarrow> int \<Rightarrow> (int \<times> string) wop" where
  "win_stderr_read = win_read ''process_stderr_read'' w_eread"

definition win_stdin_write :: "nat \<Rightarrow> string \<Rightarrow> int \<Rightarrow> int \<Rightarrow> int wop" where
  "win_stdin_write vp bs pos len =
     pbind (win_check_args ''process_stdin_write'' bs pos len vp) (\<lambda>p.
     pbind (on_win (WriteFile (w_iwrite p) (take (nat (s32 len)) (drop (nat (s32 pos)) bs)))) (\<lambda>r.
       case r of None \<Rightarrow> raise (Failure ''process_stdin_write'') | Some n \<Rightarrow> ret (int n)))"

definition win_stdin_close :: "nat \<Rightarrow> unit wop" where
  "win_stdin_close vp =
     pbind (win_process vp) (\<lambda>p.
     pbind (on_win (CloseHandle (w_iwrite p))) (\<lambda>ok.
       if ok then ret () else raise (Failure ''process_stdin_close'')))"

text \<open>The process is waited for; then its code is a \<open>DWORD\<close>.\<close>

definition win_process_exit :: "nat \<Rightarrow> int wop" where
  "win_process_exit vp =
     pbind (win_process vp) (\<lambda>p s.
       case map_option obj (htab (win s) (hProcess p)) of
         Some (Process i) \<Rightarrow>
           ret (exit_code (win s) i mod 2 ^ 32) (s\<lparr>win := (win s)\<lparr>running := (running (win s))(i := False)\<rparr>\<rparr>)
       | _ \<Rightarrow> raise (Failure ''process_exit'') s)"

definition win_process_pid :: "nat \<Rightarrow> int wop" where
  "win_process_pid vp = pbind (win_process vp) (\<lambda>p. ret (int (dwProcessId p)))"

definition win_process_close :: "nat \<Rightarrow> unit wop" where
  "win_process_close vp =
     pbind (win_process vp) (\<lambda>p.
     pbind (on_win (\<lambda>w. ((), close_all [w_eread p, w_oread p, w_iwrite p, hProcess p, hThread p] w))) (\<lambda>_ s.
       ret () (s\<lparr>win_procs := (win_procs s)[vp := None]\<rparr>)))"

definition win_process_kill :: "nat \<Rightarrow> unit wop" where
  "win_process_kill vp =
     pbind (win_process vp) (\<lambda>p. on_win (\<lambda>w. ((),
       case map_option obj (htab w (hProcess p)) of
         Some (Process i) \<Rightarrow>
           if running w i then w\<lparr>exit_code := (exit_code w)(i := - 1), running := (running w)(i := False)\<rparr> else w
       | _ \<Rightarrow> w)))"


section \<open>New handles\<close>

text \<open>What Win32 promises of new handles: their values are unused, and there are enough of them for
  \<open>n\<close> more.\<close>

definition room :: "nat \<Rightarrow> win_world \<Rightarrow> bool" where
  "room n w \<longleftrightarrow> finite (dom (htab w)) \<and>
     (\<forall>t. finite (dom t) \<and> card (dom t) < card (dom (htab w)) + n \<longrightarrow> pick w t \<noteq> None) \<and>
     (\<forall>t h. pick w t = Some h \<longrightarrow> t h = None)"

lemma room_subset:
  assumes "room n w" "pick w' = pick w" "finite (dom (htab w'))" "card (dom (htab w')) + m \<le> card (dom (htab w)) + n"
  shows "room m w'"
proof -
  have "pick w' t \<noteq> None" if "finite (dom t)" "card (dom t) < card (dom (htab w')) + m" for t
    using assms(1,2,4) that by (auto simp: room_def)
  then show ?thesis using assms(1-3) by (simp add: room_def)
qed

lemma new_handle_room:
  assumes "room (Suc n) w"
  obtains h where "new_handle e w = (Some h, w\<lparr>htab := (htab w)(h \<mapsto> e)\<rparr>)" "htab w h = None"
    "room n (w\<lparr>htab := (htab w)(h \<mapsto> e)\<rparr>)"
proof -
  from assms obtain h where h: "pick w (htab w) = Some h" by (auto simp: room_def)
  with assms have "htab w h = None" by (auto simp: room_def)
  then have "room n (w\<lparr>htab := (htab w)(h \<mapsto> e)\<rparr>)"
    using assms by (intro room_subset [OF assms]) (auto simp: room_def domIff)
  with h \<open>htab w h = None\<close> show ?thesis by (intro that [of h]) (simp_all add: new_handle_def)
qed

lemma CreatePipe_room:
  assumes "room (Suc (Suc n)) w" "0 < win_pipes w"
  obtains r h w' where "CreatePipe w = (Some (r, h), w')" "htab w r = None" "htab w h = None" "r \<noteq> h"
    "w' = w\<lparr>htab := (htab w)(r \<mapsto> \<lparr>obj = Pipe_in (next_wpipe w), inherit = True\<rparr>,
        h \<mapsto> \<lparr>obj = Pipe_out (next_wpipe w), inherit = True\<rparr>),
      next_wpipe := next_wpipe w + 1, win_pipes := win_pipes w - 1\<rparr>"
    "room n w'"
proof -
  let ?e = "\<lparr>obj = Pipe_in (next_wpipe w), inherit = True\<rparr>"
  let ?f = "\<lparr>obj = Pipe_out (next_wpipe w), inherit = True\<rparr>"
  from new_handle_room [OF assms(1), of ?e] obtain r where
    r: "new_handle ?e w = (Some r, w\<lparr>htab := (htab w)(r \<mapsto> ?e)\<rparr>)" "htab w r = None"
    and 1: "room (Suc n) (w\<lparr>htab := (htab w)(r \<mapsto> ?e)\<rparr>)" (is "room _ ?w") .
  from new_handle_room [OF 1, of ?f] obtain h where
    h: "new_handle ?f ?w = (Some h, ?w\<lparr>htab := (htab ?w)(h \<mapsto> ?f)\<rparr>)" "htab ?w h = None"
    and 2: "room n (?w\<lparr>htab := (htab ?w)(h \<mapsto> ?f)\<rparr>)" (is "room _ ?v") .
  have ne: "r \<noteq> h" "htab w h = None" using h(2) by (auto split: if_splits)
  show ?thesis
  proof (rule that [OF _ r(2) ne(2) ne(1) refl])
    show "CreatePipe w = (Some (r, h), w\<lparr>htab := (htab w)(r \<mapsto> ?e, h \<mapsto> ?f),
        next_wpipe := next_wpipe w + 1, win_pipes := win_pipes w - 1\<rparr>)"
      using r(1) h(1) assms(2) by (simp add: CreatePipe_def)
    show "room n (w\<lparr>htab := (htab w)(r \<mapsto> ?e, h \<mapsto> ?f), next_wpipe := next_wpipe w + 1, win_pipes := win_pipes w - 1\<rparr>)"
      using 2 by (simp add: room_def)
  qed
qed

lemma DuplicateHandle_room:
  assumes "room (Suc n) w" "htab w x = Some e"
  obtains h w' where "DuplicateHandle x w = (Some h, w')" "htab w h = None"
    "w' = w\<lparr>htab := (htab w)(h \<mapsto> e\<lparr>inherit := False\<rparr>)\<rparr>" "room n w'"
proof (rule new_handle_room [OF assms(1), of "e\<lparr>inherit := False\<rparr>"])
  fix h
  assume "new_handle (e\<lparr>inherit := False\<rparr>) w = (Some h, w\<lparr>htab := (htab w)(h \<mapsto> e\<lparr>inherit := False\<rparr>)\<rparr>)"
    and "htab w h = None" "room n (w\<lparr>htab := (htab w)(h \<mapsto> e\<lparr>inherit := False\<rparr>)\<rparr>)"
  with assms(2) show thesis by (intro that [OF _ _ refl]) (simp_all add: DuplicateHandle_def)
qed

lemma upd_None: "(m(a \<mapsto> x)) y = None \<longleftrightarrow> y \<noteq> a \<and> m y = None"
  by simp

lemma upd_Some: "m a = None \<Longrightarrow> m y = Some v \<Longrightarrow> (m(a \<mapsto> x)) y = Some v"
  by auto

lemma close_all_simp: "close_all hs w = w\<lparr>htab := htab w |` (- set hs)\<rparr>"
proof (induction hs arbitrary: w)
  case Nil
  show ?case by (simp add: close_all_def)
next
  case (Cons h hs)
  have e: "((htab w)(h := None)) |` (- set hs) = htab w |` (- set (h # hs))"
    by (rule ext) (simp add: restrict_map_def)
  have "close_all (h # hs) w = close_all hs (w\<lparr>htab := (htab w)(h := None)\<rparr>)"
    by (simp add: close_all_def CloseHandle_def)
  also have "\<dots> = w\<lparr>htab := ((htab w)(h := None)) |` (- set hs)\<rparr>"
    unfolding Cons.IH by (simp del: restrict_fun_upd)
  finally show ?case unfolding e .
qed

text \<open>The six handles that are there after the pipes are made.\<close>

definition pipe_handles :: "nat \<Rightarrow> nat \<times> nat \<times> nat \<Rightarrow> nat \<times> nat \<times> nat \<Rightarrow> nat \<Rightarrow> hentry option" where
  "pipe_handles k kept std =
     (case (kept, std) of ((d_o, d_e, d_i), (h_i, h_o, h_e)) \<Rightarrow>
        [d_o \<mapsto> \<lparr>obj = Pipe_in k, inherit = False\<rparr>, d_e \<mapsto> \<lparr>obj = Pipe_in (k + 1), inherit = False\<rparr>,
         d_i \<mapsto> \<lparr>obj = Pipe_out (k + 2), inherit = False\<rparr>,
         h_i \<mapsto> \<lparr>obj = Pipe_in (k + 2), inherit = True\<rparr>, h_o \<mapsto> \<lparr>obj = Pipe_out k, inherit = True\<rparr>,
         h_e \<mapsto> \<lparr>obj = Pipe_out (k + 1), inherit = True\<rparr>])"

lemma win_pipes_made_ok:
  assumes room: "room 9 w" and pipes: "3 \<le> win_pipes w"
  obtains d_o d_e d_i h_i h_o h_e w' where "win_pipes_made stale w = ((d_o, d_e, d_i), (h_i, h_o, h_e), w')"
    "distinct [d_o, d_e, d_i, h_i, h_o, h_e]" "\<forall>h \<in> {d_o, d_e, d_i, h_i, h_o, h_e}. htab w h = None"
    "w' = w\<lparr>htab := htab w ++ pipe_handles (next_wpipe w) (d_o, d_e, d_i) (h_i, h_o, h_e),
           next_wpipe := next_wpipe w + 3, win_pipes := win_pipes w - 3\<rparr>"
proof -
  let ?k = "next_wpipe w"
  let ?rd = "\<lambda>k. \<lparr>obj = Pipe_in k, inherit = True\<rparr>" and ?wr = "\<lambda>k. \<lparr>obj = Pipe_out k, inherit = True\<rparr>"
  have "room (Suc (Suc 7)) w" "0 < win_pipes w" using room pipes by simp_all
  from CreatePipe_room [OF this] obtain a b w1 where c1: "CreatePipe w = (Some (a, b), w1)" and ab: "htab w a = None" "htab w b = None" "a \<noteq> b"
    and w1: "w1 = w\<lparr>htab := (htab w)(a \<mapsto> ?rd ?k, b \<mapsto> ?wr ?k), next_wpipe := ?k + 1, win_pipes := win_pipes w - 1\<rparr>"
    and r1: "room 7 w1" .
  have "room (Suc (Suc 5)) w1" "0 < win_pipes w1" using r1 pipes w1 by simp_all
  from CreatePipe_room [OF this] obtain c d w2 where c2: "CreatePipe w1 = (Some (c, d), w2)" and cd: "htab w1 c = None" "htab w1 d = None" "c \<noteq> d"
    and w2: "w2 = w1\<lparr>htab := (htab w1)(c \<mapsto> ?rd (next_wpipe w1), d \<mapsto> ?wr (next_wpipe w1)),
      next_wpipe := next_wpipe w1 + 1, win_pipes := win_pipes w1 - 1\<rparr>"
    and r2: "room 5 w2" .
  have "room (Suc (Suc 3)) w2" "0 < win_pipes w2" using r2 pipes w1 w2 by simp_all
  from CreatePipe_room [OF this] obtain e f w3 where c3: "CreatePipe w2 = (Some (e, f), w3)" and ef: "htab w2 e = None" "htab w2 f = None" "e \<noteq> f"
    and w3: "w3 = w2\<lparr>htab := (htab w2)(e \<mapsto> ?rd (next_wpipe w2), f \<mapsto> ?wr (next_wpipe w2)),
      next_wpipe := next_wpipe w2 + 1, win_pipes := win_pipes w2 - 1\<rparr>"
    and r3: "room 3 w3" .
  have dist1: "distinct [a, b, c, d, e, f]" "\<forall>x \<in> {a, b, c, d, e, f}. htab w x = None"
    using ab cd ef by (simp_all add: w1 w2 w3 upd_None del: fun_upd_apply) blast
  have tab3: "htab w3 = (htab w)(a \<mapsto> ?rd ?k, b \<mapsto> ?wr ?k, c \<mapsto> ?rd (?k + 1), d \<mapsto> ?wr (?k + 1), e \<mapsto> ?rd (?k + 2), f \<mapsto> ?wr (?k + 2))"
    by (simp add: w1 w2 w3)
  have "room (Suc 2) w3" "htab w3 a = Some (?rd ?k)" using r3 dist1(1) by (simp_all add: tab3)
  from DuplicateHandle_room [OF this] obtain g w4 where c4: "DuplicateHandle a w3 = (Some g, w4)" and g: "htab w3 g = None"
    and w4: "w4 = w3\<lparr>htab := (htab w3)(g \<mapsto> (?rd ?k)\<lparr>inherit := False\<rparr>)\<rparr>" and r4: "room 2 w4" .
  have "room (Suc 1) w4" "htab w4 c = Some (?rd (?k + 1))" using r4 dist1(1) g by (auto simp: w4 tab3 numeral_2_eq_2)
  from DuplicateHandle_room [OF this] obtain h w5 where c5: "DuplicateHandle c w4 = (Some h, w5)" and h: "htab w4 h = None"
    and w5: "w5 = w4\<lparr>htab := (htab w4)(h \<mapsto> (?rd (?k + 1))\<lparr>inherit := False\<rparr>)\<rparr>" and r5: "room 1 w5" .
  have "room (Suc 0) w5" "htab w5 f = Some (?wr (?k + 2))" using r5 dist1(1) g h by (auto simp: w5 w4 tab3)
  from DuplicateHandle_room [OF this] obtain i w6 where c6: "DuplicateHandle f w5 = (Some i, w6)" and i: "htab w5 i = None"
    and w6: "w6 = w5\<lparr>htab := (htab w5)(i \<mapsto> (?wr (?k + 2))\<lparr>inherit := False\<rparr>)\<rparr>" .
  have dist2: "distinct [g, h, i]" "{g, h, i} \<inter> {a, b, c, d, e, f} = {}" "\<forall>x \<in> {g, h, i}. htab w x = None"
    using g h i by (auto simp: w5 w4 tab3 split: if_splits)
  have dist: "distinct [a, b, c, d, e, f, g, h, i]" using dist1(1) dist2(1,2) by auto
  have none: "\<forall>x \<in> {a, b, c, d, e, f, g, h, i}. htab w x = None" using dist1(2) dist2(3) by auto
  have made: "win_pipes_made stale w = ((g, h, i), (e, b, d), close_all [a, c, f] w6)"
    unfolding win_pipes_made_def c1 Let_def prod.case c2 c3
    by (simp only: got_def option.map option.case fst_conv snd_conv c4 c5 c6 prod.case)
  have tab: "htab w6 |` (- set [a, c, f]) = htab w ++ pipe_handles ?k (g, h, i) (e, b, d)"
  proof
    fix x
    show "(htab w6 |` (- set [a, c, f])) x = (htab w ++ pipe_handles ?k (g, h, i) (e, b, d)) x"
    proof (cases "x \<in> {a, b, c, d, e, f, g, h, i}")
      case False
      then show ?thesis by (simp add: w6 w5 w4 tab3 restrict_map_def map_add_def pipe_handles_def)
    next
      case True
      then show ?thesis
        by (elim insertE emptyE; hypsubst; use dist none in
            \<open>auto simp: w6 w5 w4 tab3 restrict_map_def map_add_def pipe_handles_def\<close>)
    qed
  qed
  have "close_all [a, c, f] w6 = w\<lparr>htab := htab w ++ pipe_handles ?k (g, h, i) (e, b, d),
      next_wpipe := ?k + 3, win_pipes := win_pipes w - 3\<rparr>"
    unfolding close_all_simp tab by (simp add: w1 w2 w3 w4 w5 w6)
  with made dist none show ?thesis by (intro that [of g h i e b d]) auto
qed

lemma room_after:
  assumes "room (6 + n) w" "htab w' = htab w ++ pipe_handles k (d_o, d_e, d_i) (h_i, h_o, h_e)" "pick w' = pick w"
  shows "room n w'"
proof (rule room_subset [OF assms(1,3)])
  let ?H = "{d_o, d_e, d_i, h_i, h_o, h_e}"
  have dom: "dom (htab w') = dom (htab w) \<union> ?H" by (auto simp: assms(2) pipe_handles_def)
  have "finite (dom (htab w))" using assms(1) by (simp add: room_def)
  then show "finite (dom (htab w'))" by (simp add: dom)
  have "card (dom (htab w')) \<le> card (dom (htab w)) + card ?H" unfolding dom by (rule card_Un_le)
  also have "card ?H \<le> 6" by (simp add: card_insert_if)
  finally show "card (dom (htab w')) + n \<le> card (dom (htab w)) + (6 + n)" by simp
qed

lemma CreateProcess_room:
  assumes "room 2 w" "can_start w line"
  obtains hp ht where "CreateProcess line std w =
    (Some ((hp, ht, next_pid w),
       \<lparr>command = line, std_in = inherited w (fst std), std_out = inherited w (fst (snd std)),
        std_err = inherited w (snd (snd std)), copies = inherited w\<rparr>),
     w\<lparr>htab := (htab w)(hp \<mapsto> \<lparr>obj = Process (next_pid w), inherit = False\<rparr>, ht \<mapsto> \<lparr>obj = Thread (next_pid w), inherit = False\<rparr>),
       next_pid := next_pid w + 1, running := (running w)(next_pid w := True)\<rparr>)"
    "htab w hp = None" "htab w ht = None" "hp \<noteq> ht"
proof -
  let ?e = "\<lparr>obj = Process (next_pid w), inherit = False\<rparr>" and ?f = "\<lparr>obj = Thread (next_pid w), inherit = False\<rparr>"
  have "room (Suc 1) w" using assms(1) by (simp add: numeral_2_eq_2)
  from new_handle_room [OF this, of ?e] obtain hp where
    p: "new_handle ?e w = (Some hp, w\<lparr>htab := (htab w)(hp \<mapsto> ?e)\<rparr>)" "htab w hp = None"
    and "room 1 (w\<lparr>htab := (htab w)(hp \<mapsto> ?e)\<rparr>)" (is "room _ ?w") .
  then have "room (Suc 0) ?w" by simp
  from new_handle_room [OF this, of ?f] obtain ht where
    t: "new_handle ?f ?w = (Some ht, ?w\<lparr>htab := (htab ?w)(ht \<mapsto> ?f)\<rparr>)" "htab ?w ht = None" .
  have "htab w ht = None" "hp \<noteq> ht" using t(2) by (auto split: if_splits)
  with p t(1) assms(2) show ?thesis by (intro that [of hp ht]) (simp_all add: CreateProcess_def)
qed

section \<open>Properties\<close>

lemma win_process_run_found:
  assumes line: "win_command_line m comspec cmd vargs = Inr line"
    and free: "room 9 (win s)" and pipes: "3 \<le> win_pipes (win s)"
    and found: "can_start (win s) (c_str line)"
  obtains p ch s' k where "win_process_run m comspec stale cmd vargs s = Inr (Inr (length (win_procs s), ch), s')"
    "win_procs s' = win_procs s @ [Some p]"
    "\<forall>h \<in> {w_oread p, w_eread p, w_iwrite p, hProcess p, hThread p}. htab (win s) h = None"
    "distinct [w_oread p, w_eread p, w_iwrite p, hProcess p, hThread p]"
    "htab (win s') = htab (win s) ++
      [w_oread p \<mapsto> \<lparr>obj = Pipe_in k, inherit = False\<rparr>, w_eread p \<mapsto> \<lparr>obj = Pipe_in (k + 1), inherit = False\<rparr>,
       w_iwrite p \<mapsto> \<lparr>obj = Pipe_out (k + 2), inherit = False\<rparr>,
       hProcess p \<mapsto> \<lparr>obj = Process (dwProcessId p), inherit = False\<rparr>,
       hThread p \<mapsto> \<lparr>obj = Thread (dwProcessId p), inherit = False\<rparr>]"
    "command ch = c_str line"
    "std_in ch = Some (Pipe_in (k + 2))" "std_out ch = Some (Pipe_out k)" "std_err ch = Some (Pipe_out (k + 1))"
    "\<forall>h. copies ch h = inherited (win s) h \<or> copies ch h \<in> {std_in ch, std_out ch, std_err ch}"
    "k = next_wpipe (win s)" "next_wpipe (win s') = k + 3" "dwProcessId p = next_pid (win s)"
    "next_pid (win s') = next_pid (win s) + 1"
proof -
  let ?w = "win s"
  let ?k = "next_wpipe ?w"
  from win_pipes_made_ok [OF free pipes, of stale] obtain d_o d_e d_i h_i h_o h_e w1 where
    made: "win_pipes_made stale ?w = ((d_o, d_e, d_i), (h_i, h_o, h_e), w1)"
    and dist: "distinct [d_o, d_e, d_i, h_i, h_o, h_e]" and none: "\<forall>h \<in> {d_o, d_e, d_i, h_i, h_o, h_e}. htab ?w h = None"
    and w1: "w1 = ?w\<lparr>htab := htab ?w ++ pipe_handles ?k (d_o, d_e, d_i) (h_i, h_o, h_e),
           next_wpipe := ?k + 3, win_pipes := win_pipes ?w - 3\<rparr>" .
  have tab1: "htab w1 = htab ?w ++ pipe_handles ?k (d_o, d_e, d_i) (h_i, h_o, h_e)" by (simp add: w1)
  have "room 3 w1" using free by (intro room_after [OF _ tab1]) (simp_all add: w1)
  then have "room 2 w1" by (rule room_subset) (use \<open>room 3 w1\<close> in \<open>simp_all add: room_def\<close>)
  moreover have "can_start w1 (c_str line)" using found w1 by simp
  ultimately obtain hp ht where start: "CreateProcess (c_str line) (h_i, h_o, h_e) w1 =
    (Some ((hp, ht, next_pid w1),
       \<lparr>command = c_str line, std_in = inherited w1 h_i, std_out = inherited w1 h_o,
        std_err = inherited w1 h_e, copies = inherited w1\<rparr>),
     w1\<lparr>htab := (htab w1)(hp \<mapsto> \<lparr>obj = Process (next_pid w1), inherit = False\<rparr>, ht \<mapsto> \<lparr>obj = Thread (next_pid w1), inherit = False\<rparr>),
       next_pid := next_pid w1 + 1, running := (running w1)(next_pid w1 := True)\<rparr>)"
    and new: "htab w1 hp = None" "htab w1 ht = None" "hp \<noteq> ht"
    by (rule CreateProcess_room [where std = "(h_i, h_o, h_e)"]) simp
  let ?ch = "\<lparr>command = c_str line, std_in = inherited w1 h_i, std_out = inherited w1 h_o,
        std_err = inherited w1 h_e, copies = inherited w1\<rparr>"
  let ?p = "\<lparr>w_oread = d_o, w_eread = d_e, w_iwrite = d_i, hProcess = hp, hThread = ht, dwProcessId = next_pid w1\<rparr>"
  let ?w2 = "snd (CreateProcess (c_str line) (h_i, h_o, h_e) w1)"
  let ?s' = "\<lparr>win = close_all [h_o, h_e, h_i] ?w2, win_procs = win_procs s @ [Some ?p]\<rparr>"
  have run: "win_process_run m comspec stale cmd vargs s = Inr (Inr (length (win_procs s), ?ch), ?s')"
    using line made start by (simp add: win_process_run_def on_win_def new_block_def)
  have fresh: "htab ?w hp = None" "htab ?w ht = None" "hp \<notin> {d_o, d_e, d_i, h_i, h_o, h_e}" "ht \<notin> {d_o, d_e, d_i, h_i, h_o, h_e}"
    using new(1,2) by (auto simp: tab1 pipe_handles_def map_add_def split: if_splits option.splits)
  let ?new = "[d_o \<mapsto> \<lparr>obj = Pipe_in ?k, inherit = False\<rparr>, d_e \<mapsto> \<lparr>obj = Pipe_in (?k + 1), inherit = False\<rparr>,
       d_i \<mapsto> \<lparr>obj = Pipe_out (?k + 2), inherit = False\<rparr>,
       hp \<mapsto> \<lparr>obj = Process (next_pid w1), inherit = False\<rparr>,
       ht \<mapsto> \<lparr>obj = Thread (next_pid w1), inherit = False\<rparr>]"
  have tab: "htab (win ?s') = htab ?w ++ ?new"
  proof
    fix x
    show "htab (win ?s') x = (htab ?w ++ ?new) x"
    proof (cases "x \<in> {d_o, d_e, d_i, h_i, h_o, h_e, hp, ht}")
      case False
      then show ?thesis
        by (simp add: close_all_simp start tab1 restrict_map_def map_add_def pipe_handles_def)
    next
      case True
      then show ?thesis
        by (elim insertE emptyE; hypsubst; use dist none fresh new(3) in
            \<open>auto simp: close_all_simp start tab1 restrict_map_def map_add_def pipe_handles_def\<close>)
    qed
  qed
  have std: "inherited w1 h_i = Some (Pipe_in (?k + 2))" "inherited w1 h_o = Some (Pipe_out ?k)"
    "inherited w1 h_e = Some (Pipe_out (?k + 1))"
    using dist by (auto simp: inherited_def tab1 pipe_handles_def map_add_def)
  have copies: "inherited w1 h = inherited ?w h \<or> inherited w1 h \<in> {inherited w1 h_i, inherited w1 h_o, inherited w1 h_e}" for h
    using none by (cases "h \<in> {d_o, d_e, d_i, h_i, h_o, h_e}")
      (auto simp: inherited_def tab1 pipe_handles_def map_add_def)
  have moved: "next_wpipe (win ?s') = ?k + 3" "next_pid w1 = next_pid ?w" "next_pid (win ?s') = next_pid ?w + 1"
    unfolding start close_all_simp by (simp_all add: w1)
  have ne: "d_o \<noteq> hp" "d_o \<noteq> ht" "d_e \<noteq> hp" "d_e \<noteq> ht" "d_i \<noteq> hp" "d_i \<noteq> ht" using fresh by auto
  show ?thesis
  proof (rule that [of ?ch ?s' ?p ?k])
    show "htab (win ?s') = htab ?w ++ [w_oread ?p \<mapsto> \<lparr>obj = Pipe_in ?k, inherit = False\<rparr>,
       w_eread ?p \<mapsto> \<lparr>obj = Pipe_in (?k + 1), inherit = False\<rparr>, w_iwrite ?p \<mapsto> \<lparr>obj = Pipe_out (?k + 2), inherit = False\<rparr>,
       hProcess ?p \<mapsto> \<lparr>obj = Process (dwProcessId ?p), inherit = False\<rparr>,
       hThread ?p \<mapsto> \<lparr>obj = Thread (dwProcessId ?p), inherit = False\<rparr>]"
      unfolding tab by simp
    show "\<forall>h. copies ?ch h = inherited ?w h \<or> copies ?ch h \<in> {std_in ?ch, std_out ?ch, std_err ?ch}"
      using copies by simp
  qed (use run dist none fresh new(3) ne std moved in simp_all)
qed

text \<open>Without the program nothing closes the ends that were meant for the child, nor frees the block.\<close>

lemma win_process_run_not_found:
  assumes line: "win_command_line m comspec cmd vargs = Inr line"
    and free: "room 9 (win s)" and pipes: "3 \<le> win_pipes (win s)"
    and not_found: "\<not> can_start (win s) (c_str line)"
  obtains s' a b c k p where "win_process_run m comspec stale cmd vargs s = Inr (Inl (Failure ''process_run''), s')"
    "distinct [a, b, c]" "\<forall>h \<in> {a, b, c}. htab (win s) h = None"
    "htab (win s') = htab (win s) ++ [a \<mapsto> \<lparr>obj = Pipe_in (k + 2), inherit = True\<rparr>,
       b \<mapsto> \<lparr>obj = Pipe_out k, inherit = True\<rparr>, c \<mapsto> \<lparr>obj = Pipe_out (k + 1), inherit = True\<rparr>]"
    "win_procs s' = win_procs s @ [Some p]"
    "next_wpipe (win s) \<le> next_wpipe (win s')" "next_pid (win s') = next_pid (win s)"
proof -
  let ?w = "win s"
  let ?k = "next_wpipe ?w"
  from win_pipes_made_ok [OF free pipes, of stale] obtain d_o d_e d_i h_i h_o h_e w1 where
    made: "win_pipes_made stale ?w = ((d_o, d_e, d_i), (h_i, h_o, h_e), w1)"
    and dist: "distinct [d_o, d_e, d_i, h_i, h_o, h_e]" and none: "\<forall>h \<in> {d_o, d_e, d_i, h_i, h_o, h_e}. htab ?w h = None"
    and w1: "w1 = ?w\<lparr>htab := htab ?w ++ pipe_handles ?k (d_o, d_e, d_i) (h_i, h_o, h_e),
           next_wpipe := ?k + 3, win_pipes := win_pipes ?w - 3\<rparr>" .
  have start: "CreateProcess (c_str line) (h_i, h_o, h_e) w1 = (None, w1)"
    using not_found by (simp add: CreateProcess_def w1)
  let ?p = "\<lparr>w_oread = d_o, w_eread = d_e, w_iwrite = d_i, hProcess = stale, hThread = stale, dwProcessId = stale\<rparr>"
  let ?s' = "\<lparr>win = close_all [d_e, d_o, d_i] w1, win_procs = win_procs s @ [Some ?p]\<rparr>"
  have run: "win_process_run m comspec stale cmd vargs s = Inr (Inl (Failure ''process_run''), ?s')"
    using line made start by (simp add: win_process_run_def on_win_def new_block_def)
  have tab: "htab (win ?s') = htab ?w ++ [h_i \<mapsto> \<lparr>obj = Pipe_in (?k + 2), inherit = True\<rparr>,
       h_o \<mapsto> \<lparr>obj = Pipe_out ?k, inherit = True\<rparr>, h_e \<mapsto> \<lparr>obj = Pipe_out (?k + 1), inherit = True\<rparr>]" (is "_ = ?new")
  proof
    fix x
    show "htab (win ?s') x = ?new x"
    proof (cases "x \<in> {d_o, d_e, d_i, h_i, h_o, h_e}")
      case False
      then show ?thesis by (simp add: close_all_simp w1 restrict_map_def map_add_def pipe_handles_def)
    next
      case True
      then show ?thesis
        by (elim insertE emptyE; hypsubst; use dist none in
            \<open>auto simp: close_all_simp w1 restrict_map_def map_add_def pipe_handles_def\<close>)
    qed
  qed
  have moved: "next_wpipe ?w \<le> next_wpipe (win ?s')" "next_pid (win ?s') = next_pid ?w"
    unfolding close_all_simp by (simp_all add: w1)
  show ?thesis by (rule that [OF run _ _ tab _ moved]) (use dist none in auto)
qed

text \<open>C11: when handles and pipes suffice and the program is found, the started process has the command
  line and, as its standard input, output and error, the other ends of the three pipes whose ends the
  handle keeps; the parent gets exactly five new handles, none of which a later process inherits, and
  the child inherits no other new handle.\<close>

theorem win_process_run_correct:
  assumes "win_command_line m comspec cmd vargs = Inr line"
    and "room 9 (win s)" and "3 \<le> win_pipes (win s)"
    and "can_start (win s) (c_str line)"
  shows "\<exists>p ch s' k. win_process_run m comspec stale cmd vargs s = Inr (Inr (length (win_procs s), ch), s') \<and>
    win_procs s' = win_procs s @ [Some p] \<and>
    (\<forall>h \<in> {w_oread p, w_eread p, w_iwrite p, hProcess p, hThread p}. htab (win s) h = None) \<and>
    distinct [w_oread p, w_eread p, w_iwrite p, hProcess p, hThread p] \<and>
    htab (win s') = htab (win s) ++
      [w_oread p \<mapsto> \<lparr>obj = Pipe_in k, inherit = False\<rparr>, w_eread p \<mapsto> \<lparr>obj = Pipe_in (k + 1), inherit = False\<rparr>,
       w_iwrite p \<mapsto> \<lparr>obj = Pipe_out (k + 2), inherit = False\<rparr>,
       hProcess p \<mapsto> \<lparr>obj = Process (dwProcessId p), inherit = False\<rparr>,
       hThread p \<mapsto> \<lparr>obj = Thread (dwProcessId p), inherit = False\<rparr>] \<and>
    command ch = c_str line \<and>
    std_in ch = Some (Pipe_in (k + 2)) \<and> std_out ch = Some (Pipe_out k) \<and> std_err ch = Some (Pipe_out (k + 1)) \<and>
    (\<forall>h. copies ch h = inherited (win s) h \<or> copies ch h \<in> {std_in ch, std_out ch, std_err ch})"
  by (rule win_process_run_found [OF assms, of stale]) (intro exI conjI; assumption)

definition example_win :: "(string \<Rightarrow> bool) \<Rightarrow> win_state" where
  "example_win found =
     \<lparr>win = \<lparr>htab = Map.empty, pick = (\<lambda>t. find (\<lambda>h. t h = None) [1..<20]), win_pipes = 8, next_wpipe = 0, next_pid = 7,
             can_start = found, win_inflow = \<lambda>_. [], has_reader = \<lambda>_. True, win_sent = \<lambda>_. [], running = \<lambda>_. False,
             exit_code = \<lambda>_. 0\<rparr>,
      win_procs = []\<rparr>"

lemma example_room: "room 9 (win (example_win f))"
proof -
  have "find (\<lambda>h. t h = None) [1..<20] \<noteq> None" if "finite (dom t)" "card (dom t) < 9" for t :: "nat \<Rightarrow> hentry option"
  proof
    assume "find (\<lambda>h. t h = None) [1..<20] = None"
    then have "{1..<20} \<subseteq> dom t" by (auto simp: find_None_iff)
    from card_mono [OF that(1) this] that(2) show False by simp
  qed
  then show ?thesis by (auto simp: room_def example_win_def find_Some_iff)
qed

definition example_line :: string where
  "example_line = [QUOTE, CHR ''a'', QUOTE, CHR '' '', QUOTE, CHR ''b'', QUOTE]"

lemma example_win_line:
  "win_command_line mem_1k None ''a'' (Some [''b'']) = Inr (example_line @ [CHR 0x00])"
  "c_str (example_line @ [CHR 0x00]) = example_line"
  by code_simp+

lemma example_win_simps [simp]: "3 \<le> win_pipes (win (example_win f))" "win_procs (example_win f) = []"
  "can_start (win (example_win f)) = f" "htab (win (example_win f)) = Map.empty"
  by (simp_all add: example_win_def)

theorem win_process_run_correct_witness:
  "\<exists>ch s'. win_process_run mem_1k None 0 ''a'' (Some [''b'']) (example_win (\<lambda>_. True)) = Inr (Inr (0, ch), s') \<and>
     command ch = example_line"
  using win_process_run_correct [OF example_win_line(1) example_room, of "\<lambda>_. True" 0]
  by (auto simp: example_win_line)

text \<open>C35: closing the handle of a process right after its start gives back every handle that the start
  took: the handle table is as before, and the block is freed.\<close>

theorem win_run_close_restores_handles:
  assumes "win_command_line m comspec cmd vargs = Inr line"
    and "room 9 (win s)" and "3 \<le> win_pipes (win s)"
    and "can_start (win s) (c_str line)"
  shows "\<exists>vp ch s1 s2. win_process_run m comspec stale cmd vargs s = Inr (Inr (vp, ch), s1) \<and>
    win_process_close vp s1 = Inr (Inr (), s2) \<and>
    htab (win s2) = htab (win s) \<and> win_procs s2 = win_procs s @ [None]"
proof (rule win_process_run_found [OF assms, of stale])
  fix p ch s' k
  assume run: "win_process_run m comspec stale cmd vargs s = Inr (Inr (length (win_procs s), ch), s')"
    and procs: "win_procs s' = win_procs s @ [Some p]"
    and none: "\<forall>h \<in> {w_oread p, w_eread p, w_iwrite p, hProcess p, hThread p}. htab (win s) h = None"
    and tab: "htab (win s') = htab (win s) ++
      [w_oread p \<mapsto> \<lparr>obj = Pipe_in k, inherit = False\<rparr>, w_eread p \<mapsto> \<lparr>obj = Pipe_in (k + 1), inherit = False\<rparr>,
       w_iwrite p \<mapsto> \<lparr>obj = Pipe_out (k + 2), inherit = False\<rparr>,
       hProcess p \<mapsto> \<lparr>obj = Process (dwProcessId p), inherit = False\<rparr>,
       hThread p \<mapsto> \<lparr>obj = Thread (dwProcessId p), inherit = False\<rparr>]"
  let ?hs = "[w_eread p, w_oread p, w_iwrite p, hProcess p, hThread p]"
  have "htab (win s') |` (- set ?hs) = htab (win s)"
    by (rule ext) (use none in \<open>auto simp: tab restrict_map_def map_add_def\<close>)
  then show ?thesis using run procs
    by (auto simp: win_process_close_def win_process_def on_win_def close_all_simp)
qed

theorem win_run_close_restores_handles_witness:
  "\<exists>vp ch s1 s2. win_process_run mem_1k None 0 ''a'' (Some [''b'']) (example_win (\<lambda>_. True)) = Inr (Inr (vp, ch), s1) \<and>
     win_process_close vp s1 = Inr (Inr (), s2) \<and> htab (win s2) = Map.empty"
  using win_run_close_restores_handles [OF example_win_line(1) example_room, of "\<lambda>_. True" 0]
  by (auto simp: example_win_line)

text \<open>C36: when the program is not found, \<open>process_run\<close> raises but leaves three new handles open, the
  ends of the pipes that were meant for the child, which every later child inherits, and a block that
  nothing frees.\<close>

theorem win_failed_run_leaks:
  assumes "win_command_line m comspec cmd vargs = Inr line"
    and "room 9 (win s)" and "3 \<le> win_pipes (win s)"
    and "\<not> can_start (win s) (c_str line)"
  shows "\<exists>s' H. win_process_run m comspec stale cmd vargs s = Inr (Inl (Failure ''process_run''), s') \<and>
    card H = 3 \<and> (\<forall>h \<in> H. htab (win s) h = None \<and> inherited (win s') h \<noteq> None) \<and>
    (\<forall>h. h \<notin> H \<longrightarrow> htab (win s') h = htab (win s) h) \<and>
    length (filter (\<lambda>b. b \<noteq> None) (win_procs s')) = Suc (length (filter (\<lambda>b. b \<noteq> None) (win_procs s)))"
proof (rule win_process_run_not_found [OF assms, of stale])
  fix s' a b c k p
  assume run: "win_process_run m comspec stale cmd vargs s = Inr (Inl (Failure ''process_run''), s')"
    and dist: "distinct [a, b, c]" and none: "\<forall>h \<in> {a, b, c}. htab (win s) h = None"
    and tab: "htab (win s') = htab (win s) ++ [a \<mapsto> \<lparr>obj = Pipe_in (k + 2), inherit = True\<rparr>,
       b \<mapsto> \<lparr>obj = Pipe_out k, inherit = True\<rparr>, c \<mapsto> \<lparr>obj = Pipe_out (k + 1), inherit = True\<rparr>]"
    and procs: "win_procs s' = win_procs s @ [Some p]"
  have "card {a, b, c} = 3" using dist by simp
  moreover have "\<forall>h \<in> {a, b, c}. htab (win s) h = None \<and> inherited (win s') h \<noteq> None"
    using none by (auto simp: inherited_def tab map_add_def)
  moreover have "\<forall>h. h \<notin> {a, b, c} \<longrightarrow> htab (win s') h = htab (win s) h"
    by (auto simp: tab map_add_def)
  ultimately show ?thesis using run procs
    by (intro exI [of _ s'] exI [of _ "{a, b, c}"]) simp
qed

theorem win_failed_run_leaks_witness:
  "\<exists>s' H. win_process_run mem_1k None 0 ''a'' (Some [''b'']) (example_win (\<lambda>_. False)) = Inr (Inl (Failure ''process_run''), s') \<and>
    card H = 3 \<and> (\<forall>h \<in> H. inherited (win s') h \<noteq> None)"
  using win_failed_run_leaks [OF example_win_line(1) example_room, of "\<lambda>_. False" 0]
  by (auto simp: example_win_line)

text \<open>C37: closing the standard input keeps the handle in the block. When the system gives its value to the
  next object, \<open>process_close\<close> closes that object and returns normally.\<close>

theorem win_close_closes_reused_handle:
  assumes vp: "vp < length (win_procs s)" "win_procs s ! vp = Some p"
    and "open": "htab (win s) (w_iwrite p) \<noteq> None"
    and again: "pick (win s) ((htab (win s))(w_iwrite p := None)) = Some (w_iwrite p)"
  shows "\<exists>s1 w2 s3. win_stdin_close vp s = Inr (Inr (), s1) \<and>
    new_handle e (win s1) = (Some (w_iwrite p), w2) \<and> htab w2 (w_iwrite p) = Some e \<and>
    win_process_close vp (s1\<lparr>win := w2\<rparr>) = Inr (Inr (), s3) \<and> htab (win s3) (w_iwrite p) = None"
  using assms
  by (auto simp: win_stdin_close_def win_process_close_def win_process_def on_win_def CloseHandle_def
      new_handle_def close_all_simp restrict_map_def)

definition example_open :: win_state where
  "example_open = (example_win (\<lambda>_. True))
     \<lparr>win := (win (example_win (\<lambda>_. True)))\<lparr>htab := [1 \<mapsto> \<lparr>obj = Pipe_out 0, inherit = False\<rparr>]\<rparr>,
      win_procs := [Some \<lparr>w_oread = 2, w_eread = 3, w_iwrite = 1, hProcess = 4, hThread = 5, dwProcessId = 7\<rparr>]\<rparr>"

theorem win_close_closes_reused_handle_witness:
  "\<exists>s1 w2 s3. win_stdin_close 0 example_open = Inr (Inr (), s1) \<and>
    new_handle \<lparr>obj = Pipe_in 9, inherit = False\<rparr> (win s1) = (Some 1, w2) \<and>
    win_process_close 0 (s1\<lparr>win := w2\<rparr>) = Inr (Inr (), s3) \<and> htab (win s3) 1 = None"
  using win_close_closes_reused_handle [of 0 example_open
      "\<lparr>w_oread = 2, w_eread = 3, w_iwrite = 1, hProcess = 4, hThread = 5, dwProcessId = 7\<rparr>" "\<lparr>obj = Pipe_in 9, inherit = False\<rparr>"]
  by (auto simp: example_open_def example_win_def upt_rec)

section \<open>Reading and writing\<close>

lemma win_check_args_ok:
  assumes "vp < length (win_procs s)" "win_procs s ! vp = Some p"
    and "0 \<le> pos" "0 \<le> len" "pos + len \<le> int (length bs)" "length bs < 2 ^ 31"
  shows "win_check_args name bs pos len vp s = Inr (Inr p, s)" "s32 pos = pos" "s32 len = len"
  using assms by (simp_all add: win_check_args_def win_process_def int_result_def)

text \<open>A read takes what the next write of the process left, at most \<open>len\<close> bytes, changes only that part
  of the buffer and keeps the rest for later reads; when the process has closed the pipe it raises.\<close>

lemma win_read_correct:
  assumes vp: "vp < length (win_procs s)" "win_procs s ! vp = Some p"
    and args: "0 \<le> pos" "0 \<le> len" "pos + len \<le> int (length bs)" "length bs < 2 ^ 31"
    and tab: "htab (win s) (handle p) = Some e" "obj e = Pipe_in k"
  shows "win_inflow (win s) k = [] \<Longrightarrow> win_read name handle vp bs pos len s = Inr (Inl (Failure name), s)"
    and "win_inflow (win s) k = chunk # rest \<Longrightarrow> new = take (nat len) chunk \<Longrightarrow>
      win_read name handle vp bs pos len s =
        Inr (Inr (int (length new), take (nat pos) bs @ new @ drop (nat pos + length new) bs),
             s\<lparr>win := (win s)\<lparr>win_inflow := (win_inflow (win s))(k :=
                 (if length chunk \<le> nat len then rest else drop (nat len) chunk # rest))\<rparr>\<rparr>)"
  using tab by (simp_all add: win_read_def win_check_args_ok [OF vp args] on_win_def ReadFile_def Let_def)

text \<open>Where the process wrote nothing, the read returns 0 as if it were a length, which on POSIX raises.\<close>

lemma win_zero_read:
  assumes "vp < length (win_procs s)" "win_procs s ! vp = Some p"
    and "0 \<le> pos" "0 \<le> len" "pos + len \<le> int (length bs)" "length bs < 2 ^ 31"
    and "htab (win s) (w_oread p) = Some e" "obj e = Pipe_in k" "win_inflow (win s) k = [] # rest"
  shows "\<exists>s'. win_stdout_read vp bs pos len s = Inr (Inr (0, bs), s')"
  using win_read_correct(2) [where handle = w_oread, OF assms(1-8) assms(9) refl]
  by (simp add: win_stdout_read_def)

lemma win_stdin_write_correct:
  assumes vp: "vp < length (win_procs s)" "win_procs s ! vp = Some p"
    and args: "0 \<le> pos" "0 \<le> len" "pos + len \<le> int (length bs)" "length bs < 2 ^ 31"
    and tab: "htab (win s) (w_iwrite p) = Some e" "obj e = Pipe_out k"
  shows "win_stdin_write vp bs pos len s =
    (if has_reader (win s) k
     then Inr (Inr len, s\<lparr>win := (win s)\<lparr>win_sent := (win_sent (win s))(k := win_sent (win s) k @ take (nat len) (drop (nat pos) bs))\<rparr>\<rparr>)
     else Inr (Inl (Failure ''process_stdin_write''), s))"
proof -
  have "min (length bs - nat pos) (nat len) = nat len" using args by linarith
  then show ?thesis using tab args
    by (simp add: win_stdin_write_def win_check_args_ok [OF vp args] on_win_def WriteFile_def)
qed

text \<open>The exit code is unsigned here: a process that was killed by \<open>process_kill\<close> ended with \<open>2 ^ 32 - 1\<close>.\<close>

lemma win_killed_exit:
  assumes "vp < length (win_procs s)" "win_procs s ! vp = Some p"
    and "htab (win s) (hProcess p) = Some e" "obj e = Process i" "running (win s) i"
  shows "\<exists>s1 s2. win_process_kill vp s = Inr (Inr (), s1) \<and> win_process_exit vp s1 = Inr (Inr 4294967295, s2)"
  using assms by (simp add: win_process_kill_def win_process_exit_def win_process_def on_win_def)

lemma win_second_close_double_frees:
  assumes "vp < length (win_procs s)" "win_procs s ! vp = Some p"
  shows "\<exists>s1 f. win_process_close vp s = Inr (Inr (), s1) \<and> win_process_close vp s1 = Inl f"
  using assms by (simp add: win_process_close_def win_process_def on_win_def)

end
