(* ===== verification/WinState.thy ===== *)
theory WinState imports WinProcess begin

text \<open>
  The Windows half of libs/extc/process_stubs.c over time: all states that any sequence of primitives
  reaches, as long as the standard input of a process is not closed on its own and no handle is closed
  twice, and who owns which Win32 handle in them.
\<close>

section \<open>Any sequence of primitives\<close>

definition win_handles :: "win_vprocess \<Rightarrow> nat list" where
  "win_handles p = [w_oread p, w_eread p, w_iwrite p, hProcess p, hThread p]"

text \<open>
  A state with the process values that the OCaml program holds. Starting a process needs room for nine
  handles and three pipes, also where the program is not found.
\<close>

inductive win_step :: "win_state \<times> nat set \<Rightarrow> win_state \<times> nat set \<Rightarrow> bool" where
  run: "win_process_run m comspec stale cmd vargs s = Inr (r, s') \<Longrightarrow> room 9 (win s) \<Longrightarrow> 3 \<le> win_pipes (win s) \<Longrightarrow>
    win_step (s, V) (s', case r of Inl _ \<Rightarrow> V | Inr (vp, _) \<Rightarrow> insert vp V)"
| read_out: "vp \<in> V \<Longrightarrow> win_stdout_read vp bs pos len s = Inr (r, s') \<Longrightarrow> win_step (s, V) (s', V)"
| read_err: "vp \<in> V \<Longrightarrow> win_stderr_read vp bs pos len s = Inr (r, s') \<Longrightarrow> win_step (s, V) (s', V)"
| write_in: "vp \<in> V \<Longrightarrow> win_stdin_write vp bs pos len s = Inr (r, s') \<Longrightarrow> win_step (s, V) (s', V)"
| wait: "vp \<in> V \<Longrightarrow> win_process_exit vp s = Inr (r, s') \<Longrightarrow> win_step (s, V) (s', V)"
| kill: "vp \<in> V \<Longrightarrow> win_process_kill vp s = Inr (r, s') \<Longrightarrow> win_step (s, V) (s', V)"
| shut: "vp \<in> V \<Longrightarrow> win_process_close vp s = Inr (r, s') \<Longrightarrow> win_step (s, V) (s', V - {vp})"

definition win_reaches :: "win_state \<Rightarrow> win_state \<Rightarrow> nat set \<Rightarrow> bool" where
  "win_reaches s0 s V \<longleftrightarrow> win_step\<^sup>*\<^sup>* (s0, {}) (s, V)"

section \<open>The invariant\<close>

text \<open>The five handles of a process are what they should be, for the pipes \<open>k\<close>, \<open>k + 1\<close> and \<open>k + 2\<close>.\<close>

definition typed :: "(nat \<Rightarrow> hentry option) \<Rightarrow> win_vprocess \<Rightarrow> nat \<Rightarrow> bool" where
  "typed t p k \<longleftrightarrow>
     t (w_oread p) = Some \<lparr>obj = Pipe_in k, inherit = False\<rparr> \<and>
     t (w_eread p) = Some \<lparr>obj = Pipe_in (k + 1), inherit = False\<rparr> \<and>
     t (w_iwrite p) = Some \<lparr>obj = Pipe_out (k + 2), inherit = False\<rparr> \<and>
     t (hProcess p) = Some \<lparr>obj = Process (dwProcessId p), inherit = False\<rparr> \<and>
     t (hThread p) = Some \<lparr>obj = Thread (dwProcessId p), inherit = False\<rparr>"

definition proc_good :: "(nat \<Rightarrow> hentry option) \<Rightarrow> win_state \<Rightarrow> nat \<Rightarrow> win_vprocess \<Rightarrow> nat \<Rightarrow> bool" where
  "proc_good base s vp p k \<longleftrightarrow>
     vp < length (win_procs s) \<and> win_procs s ! vp = Some p \<and> typed (htab (win s)) p k \<and>
     set (win_handles p) \<inter> dom base = {} \<and> k + 3 \<le> next_wpipe (win s) \<and> dwProcessId p < next_pid (win s)"

definition proc_apart :: "win_vprocess \<Rightarrow> nat \<Rightarrow> win_vprocess \<Rightarrow> nat \<Rightarrow> bool" where
  "proc_apart p k q l \<longleftrightarrow>
     set (win_handles p) \<inter> set (win_handles q) = {} \<and> {k, k + 1, k + 2} \<inter> {l, l + 1, l + 2} = {} \<and>
     dwProcessId p \<noteq> dwProcessId q"

definition win_inv :: "(nat \<Rightarrow> hentry option) \<Rightarrow> win_state \<Rightarrow> nat set \<Rightarrow> bool" where
  "win_inv base s V \<longleftrightarrow>
     (\<forall>vp \<in> V. \<exists>p k. proc_good base s vp p k) \<and>
     (\<forall>vp \<in> V. \<forall>vq \<in> V. \<forall>p q k l. vp \<noteq> vq \<and> proc_good base s vp p k \<and> proc_good base s vq q l \<longrightarrow> proc_apart p k q l) \<and>
     base \<subseteq>\<^sub>m htab (win s)"

lemma win_invI:
  assumes "\<And>vp. vp \<in> V \<Longrightarrow> \<exists>p k. proc_good base s vp p k"
    and "\<And>vp vq p q k l. vp \<in> V \<Longrightarrow> vq \<in> V \<Longrightarrow> vp \<noteq> vq \<Longrightarrow> proc_good base s vp p k \<Longrightarrow> proc_good base s vq q l \<Longrightarrow>
      proc_apart p k q l"
    and "base \<subseteq>\<^sub>m htab (win s)"
  shows "win_inv base s V"
  using assms unfolding win_inv_def by blast

lemma win_invD:
  assumes "win_inv base s V"
  shows "vp \<in> V \<Longrightarrow> \<exists>p k. proc_good base s vp p k"
    and "vp \<in> V \<Longrightarrow> vq \<in> V \<Longrightarrow> vp \<noteq> vq \<Longrightarrow> proc_good base s vp p k \<Longrightarrow> proc_good base s vq q l \<Longrightarrow> proc_apart p k q l"
    and "base \<subseteq>\<^sub>m htab (win s)"
  using assms unfolding win_inv_def by blast+

lemma proc_good_handle: "proc_good base s vp p k \<Longrightarrow> h \<in> set (win_handles p) \<Longrightarrow> htab (win s) h \<noteq> None"
  by (auto simp: proc_good_def typed_def win_handles_def)

lemma typed_unique: "typed t p k \<Longrightarrow> typed t p l \<Longrightarrow> k = l"
  by (simp add: typed_def)

text \<open>What reading, writing, waiting and killing leave alone.\<close>

definition same_handles :: "win_state \<Rightarrow> win_state \<Rightarrow> bool" where
  "same_handles s s' \<longleftrightarrow> win_procs s' = win_procs s \<and> htab (win s') = htab (win s) \<and>
     next_wpipe (win s') = next_wpipe (win s) \<and> next_pid (win s') = next_pid (win s)"

lemma same_handles_good: "same_handles s s' \<Longrightarrow> proc_good base s' vp p k = proc_good base s vp p k"
  by (simp add: same_handles_def proc_good_def)

lemma same_handles_inv:
  assumes "same_handles s s'" "win_inv base s V"
  shows "win_inv base s' V"
proof (rule win_invI)
  note good = same_handles_good [OF assms(1)]
  show "\<exists>p k. proc_good base s' vp p k" if "vp \<in> V" for vp
    using win_invD(1) [OF assms(2) that] by (simp add: good)
  show "proc_apart p k q l"
    if "vp \<in> V" "vq \<in> V" "vp \<noteq> vq" "proc_good base s' vp p k" "proc_good base s' vq q l" for vp vq p q k l
    using that win_invD(2) [OF assms(2) that(1-3)] by (simp add: good)
  show "base \<subseteq>\<^sub>m htab (win s')"
    using assms win_invD(3) [OF assms(2)] by (simp add: same_handles_def)
qed

lemma win_process_Inr:
  "win_process vp s = Inr (r, s') \<longleftrightarrow>
     (\<exists>p. r = Inr p \<and> s' = s \<and> vp < length (win_procs s) \<and> win_procs s ! vp = Some p)"
  by (cases "win_procs s ! vp") (auto simp: win_process_def)

lemma check_args_same: "win_check_args name bs pos len vp s = Inr (r, s') \<Longrightarrow> s' = s"
  by (auto simp: win_check_args_def win_process_Inr pbind_Inr_iff pure_c_def int_result_def split: if_splits)

lemma ReadFile_same:
  "htab (snd (ReadFile h n w)) = htab w" "next_wpipe (snd (ReadFile h n w)) = next_wpipe w"
  "next_pid (snd (ReadFile h n w)) = next_pid w"
  by (auto simp: ReadFile_def split: option.split kobject.split list.split)

lemma WriteFile_same:
  "htab (snd (WriteFile h bs w)) = htab w" "next_wpipe (snd (WriteFile h bs w)) = next_wpipe w"
  "next_pid (snd (WriteFile h bs w)) = next_pid w"
  by (auto simp: WriteFile_def split: option.split kobject.split)

lemma read_same: "win_read name handle vp bs pos len s = Inr (r, s') \<Longrightarrow> same_handles s s'"
  unfolding win_read_def same_handles_def
  by (auto simp: pbind_Inr_iff on_win_def ReadFile_same Let_def dest!: check_args_same split: option.splits)

lemma write_same: "win_stdin_write vp bs pos len s = Inr (r, s') \<Longrightarrow> same_handles s s'"
  unfolding win_stdin_write_def same_handles_def
  by (auto simp: pbind_Inr_iff on_win_def WriteFile_same dest!: check_args_same split: option.splits)

lemma exit_same:
  assumes run: "win_process_exit vp s = Inr (r, s')"
  shows "same_handles s s'"
proof -
  from run obtain p where p: "vp < length (win_procs s)" "win_procs s ! vp = Some p"
    by (auto simp: win_process_exit_def pbind_Inr_iff win_process_Inr)
  note unfold = win_process_exit_def pbind_def win_process_def same_handles_def
  show ?thesis
  proof (cases "htab (win s) (hProcess p)")
    case None
    with run p show ?thesis by (auto simp: unfold)
  next
    case (Some e)
    with run p show ?thesis by (cases "obj e") (auto simp: unfold)
  qed
qed

lemma kill_same:
  assumes run: "win_process_kill vp s = Inr (r, s')"
  shows "same_handles s s'"
proof -
  from run obtain p where p: "vp < length (win_procs s)" "win_procs s ! vp = Some p"
    by (auto simp: win_process_kill_def pbind_Inr_iff win_process_Inr)
  note unfold = win_process_kill_def pbind_def win_process_def on_win_def same_handles_def
  show ?thesis
  proof (cases "htab (win s) (hProcess p)")
    case None
    with run p show ?thesis by (auto simp: unfold)
  next
    case (Some e)
    with run p show ?thesis by (cases "obj e") (auto simp: unfold)
  qed
qed

section \<open>Every step keeps it\<close>

lemma typed_upd: "typed t p k \<Longrightarrow> (\<And>h. h \<in> set (win_handles p) \<Longrightarrow> t' h = t h) \<Longrightarrow> typed t' p k"
  by (simp add: typed_def win_handles_def)

text \<open>Anything that only adds handles, or removes handles of others, keeps a process good.\<close>

lemma proc_good_upd:
  assumes "proc_good base s vp p k"
    and "\<And>h. h \<in> set (win_handles p) \<Longrightarrow> htab (win s') h = htab (win s) h"
    and "vp < length (win_procs s')" "win_procs s' ! vp = win_procs s ! vp"
    and "next_wpipe (win s) \<le> next_wpipe (win s')" "next_pid (win s) \<le> next_pid (win s')"
  shows "proc_good base s' vp p k"
  using assms typed_upd [of "htab (win s)" p k "htab (win s')"] by (auto simp: proc_good_def)

text \<open>The other direction, for a process whose block did not change.\<close>

lemma proc_good_back:
  assumes "proc_good base s' vp p k" "proc_good base s vp q l" "win_procs s' ! vp = win_procs s ! vp"
    and "\<And>h. h \<in> set (win_handles q) \<Longrightarrow> htab (win s') h = htab (win s) h"
  shows "p = q \<and> k = l"
proof -
  have "p = q" using assms(1-3) by (simp add: proc_good_def)
  moreover have "typed (htab (win s')) q l"
    using assms(2,4) typed_upd by (metis proc_good_def)
  ultimately show ?thesis using assms(1) typed_unique by (auto simp: proc_good_def)
qed

text \<open>The invariant carries over to a state in which the blocks and handles of \<open>V\<close> are untouched.\<close>

lemma win_inv_carry:
  assumes inv: "win_inv base s V" and U: "U \<subseteq> V"
    and keep: "\<And>vp p k h. vp \<in> U \<Longrightarrow> proc_good base s vp p k \<Longrightarrow> h \<in> set (win_handles p) \<Longrightarrow> htab (win s') h = htab (win s) h"
    and blocks: "\<And>vp p k. vp \<in> U \<Longrightarrow> proc_good base s vp p k \<Longrightarrow> vp < length (win_procs s') \<and> win_procs s' ! vp = win_procs s ! vp"
    and grow: "next_wpipe (win s) \<le> next_wpipe (win s')" "next_pid (win s) \<le> next_pid (win s')"
    and base: "base \<subseteq>\<^sub>m htab (win s')"
  shows "win_inv base s' U"
    and "vp \<in> U \<Longrightarrow> proc_good base s' vp p k \<Longrightarrow> proc_good base s vp p k"
proof -
  have fwd: "proc_good base s' vp p k" if "vp \<in> U" "proc_good base s vp p k" for vp p k
    using that keep [OF that] blocks [OF that] grow by (intro proc_good_upd [OF that(2)]) auto
  show backwards: "proc_good base s vp p k" if "vp \<in> U" "proc_good base s' vp p k" for vp p k
  proof -
    from that(1) U win_invD(1) [OF inv] obtain q l where q: "proc_good base s vp q l" by blast
    from proc_good_back [OF that(2) q] keep [OF that(1) q] blocks [OF that(1) q] have "p = q" "k = l" by auto
    with q show ?thesis by simp
  qed
  show "win_inv base s' U"
  proof (rule win_invI [OF _ _ base])
    show "\<exists>p k. proc_good base s' vp p k" if "vp \<in> U" for vp
      using that U win_invD(1) [OF inv, of vp] fwd by blast
    show "proc_apart p k q l"
      if "vp \<in> U" "vq \<in> U" "vp \<noteq> vq" "proc_good base s' vp p k" "proc_good base s' vq q l" for vp vq p q k l
      using that U backwards win_invD(2) [OF inv _ _ that(3)] by blast
  qed
qed

lemma win_inv_shut:
  assumes inv: "win_inv base s V" and vp: "vp \<in> V" and run: "win_process_close vp s = Inr (r, s')"
  shows "win_inv base s' (V - {vp})"
proof -
  from win_invD(1) [OF inv vp] obtain p k where p: "proc_good base s vp p k" by blast
  then have s': "s' = s\<lparr>win := (win s)\<lparr>htab := htab (win s) |` (- set (win_handles p))\<rparr>, win_procs := (win_procs s)[vp := None]\<rparr>"
    using run by (auto simp: win_process_close_def pbind_def win_process_def on_win_def close_all_simp proc_good_def
        win_handles_def insert_commute)
  show ?thesis
  proof (rule win_inv_carry [OF inv])
    show "V - {vp} \<subseteq> V" by blast
    show "htab (win s') h = htab (win s) h"
      if vq: "vq \<in> V - {vp}" and q: "proc_good base s vq q l" and h: "h \<in> set (win_handles q)" for vq q l h
    proof -
      have "proc_apart p k q l" using win_invD(2) [OF inv vp _ _ p q] vq by blast
      then have "h \<notin> set (win_handles p)" using h by (auto simp: proc_apart_def)
      then show ?thesis by (simp add: s' restrict_map_def)
    qed
    show "vq < length (win_procs s') \<and> win_procs s' ! vq = win_procs s ! vq"
      if "vq \<in> V - {vp}" "proc_good base s vq q l" for vq q l
      using that by (auto simp: s' proc_good_def)
    show "base \<subseteq>\<^sub>m htab (win s')"
      unfolding map_le_def
    proof
      fix h assume h: "h \<in> dom base"
      then have "h \<notin> set (win_handles p)" using p by (auto simp: proc_good_def)
      then show "base h = htab (win s') h"
        using win_invD(3) [OF inv] h by (simp add: s' restrict_map_def map_le_def)
    qed
  qed (simp_all add: s')
qed

text \<open>A start adds handles, blocks, pipes and processes, and changes none of those that are there.\<close>

definition only_adds :: "win_state \<Rightarrow> win_state \<Rightarrow> bool" where
  "only_adds s s' \<longleftrightarrow> htab (win s) \<subseteq>\<^sub>m htab (win s') \<and> (\<exists>b. win_procs s' = win_procs s @ b) \<and>
     next_wpipe (win s) \<le> next_wpipe (win s') \<and> next_pid (win s) \<le> next_pid (win s')"

lemma win_inv_adds:
  assumes inv: "win_inv base s V" and adds: "only_adds s s'"
  shows "win_inv base s' V"
    and "vp \<in> V \<Longrightarrow> proc_good base s' vp p k \<Longrightarrow> proc_good base s vp p k"
proof -
  have le: "htab (win s) \<subseteq>\<^sub>m htab (win s')" using adds by (simp add: only_adds_def)
  have keep: "htab (win s') h = htab (win s) h" if "proc_good base s vp p k" "h \<in> set (win_handles p)" for vp p k h
  proof -
    have "h \<in> dom (htab (win s))" using proc_good_handle [OF that] by blast
    with le show ?thesis by (simp add: map_le_def)
  qed
  have blocks: "vp < length (win_procs s') \<and> win_procs s' ! vp = win_procs s ! vp" if "proc_good base s vp p k" for vp p k
    using that adds by (auto simp: proc_good_def only_adds_def nth_append)
  have base: "base \<subseteq>\<^sub>m htab (win s')" using map_le_trans [OF win_invD(3) [OF inv] le] .
  have grow: "next_wpipe (win s) \<le> next_wpipe (win s')" "next_pid (win s) \<le> next_pid (win s')"
    using adds by (simp_all add: only_adds_def)
  note carry = win_inv_carry [OF inv subset_refl keep blocks grow base]
  show "win_inv base s' V" by (rule carry(1))
  show "vp \<in> V \<Longrightarrow> proc_good base s' vp p k \<Longrightarrow> proc_good base s vp p k" by (rule carry(2))
qed

lemma map_le_fresh: "(\<And>h. h \<in> dom n \<Longrightarrow> m h = None) \<Longrightarrow> m \<subseteq>\<^sub>m m ++ n"
  by (auto simp: map_le_def map_add_def dom_def split: option.splits)

lemma proc_apart_sym: "proc_apart p k q l \<Longrightarrow> proc_apart q l p k"
  by (auto simp: proc_apart_def)

text \<open>A new process is apart from all that are there.\<close>

lemma win_inv_new:
  assumes inv: "win_inv base s V" and adds: "only_adds s s'"
    and procs: "win_procs s' = win_procs s @ [Some p]" and typed: "typed (htab (win s')) p k"
    and fresh: "\<And>h. h \<in> set (win_handles p) \<Longrightarrow> htab (win s) h = None"
    and k: "k = next_wpipe (win s)" "k + 3 \<le> next_wpipe (win s')"
    and pid: "dwProcessId p = next_pid (win s)" "next_pid (win s) < next_pid (win s')"
  shows "win_inv base s' (insert (length (win_procs s)) V)"
proof -
  let ?vp = "length (win_procs s)"
  note old = win_inv_adds [OF inv adds]
  have "h \<notin> dom base" if "h \<in> set (win_handles p)" for h
    using fresh [OF that] win_invD(3) [OF inv] by (metis domIff map_le_def)
  then have "set (win_handles p) \<inter> dom base = {}" by blast
  then have good: "proc_good base s' ?vp p k" using procs typed k pid by (simp add: proc_good_def)
  have only: "q = p \<and> l = k" if "proc_good base s' ?vp q l" for q l
    using that good typed_unique by (auto simp: proc_good_def)
  have apart: "proc_apart p k q l" if "vq \<in> V" "proc_good base s vq q l" for vq q l
  proof -
    have "set (win_handles p) \<inter> set (win_handles q) = {}" using fresh proc_good_handle [OF that(2)] by blast
    then show ?thesis using that(2) k pid by (auto simp: proc_apart_def proc_good_def)
  qed
  have new: "vq \<noteq> ?vp" if "vq \<in> V" for vq
    using win_invD(1) [OF inv that] by (auto simp: proc_good_def)
  show ?thesis
  proof (rule win_invI)
    show "\<exists>q l. proc_good base s' vq q l" if "vq \<in> insert ?vp V" for vq
      using that good win_invD(1) [OF old(1), of vq] by blast
    show "proc_apart q l q' l'"
      if i: "vq \<in> insert ?vp V" "vq' \<in> insert ?vp V" "vq \<noteq> vq'"
        and g: "proc_good base s' vq q l" "proc_good base s' vq' q' l'" for vq vq' q q' l l'
    proof (cases "vq = ?vp")
      case True
      then have "vq' \<in> V" using i by blast
      with True only [of q l] g apart old(2) show ?thesis by blast
    next
      case False
      then have "vq \<in> V" using i by blast
      show ?thesis
      proof (cases "vq' = ?vp")
        case True
        with \<open>vq \<in> V\<close> only [of q' l'] g apart old(2) proc_apart_sym show ?thesis by blast
      next
        case False
        then have "vq' \<in> V" using i by blast
        show ?thesis by (rule win_invD(2) [OF old(1) \<open>vq \<in> V\<close> \<open>vq' \<in> V\<close> i(3) g])
      qed
    qed
    show "base \<subseteq>\<^sub>m htab (win s')" by (rule win_invD(3) [OF old(1)])
  qed
qed

lemma win_inv_run:
  assumes inv: "win_inv base s V" and run: "win_process_run m comspec stale cmd vargs s = Inr (r, s')"
    and room: "room 9 (win s)" "3 \<le> win_pipes (win s)"
  shows "win_inv base s' (case r of Inl _ \<Rightarrow> V | Inr (vp, _) \<Rightarrow> insert vp V)"
proof -
  from run obtain line where line: "win_command_line m comspec cmd vargs = Inr line"
    by (cases "win_command_line m comspec cmd vargs") (simp_all add: win_process_run_def pbind_def pure_c_def)
  show ?thesis
  proof (cases "can_start (win s) (c_str line)")
    case True
    show ?thesis
    proof (rule win_process_run_found [OF line room True, of stale])
      fix p ch s1 k
      assume r: "win_process_run m comspec stale cmd vargs s = Inr (Inr (length (win_procs s), ch), s1)"
        and procs: "win_procs s1 = win_procs s @ [Some p]"
        and none: "\<forall>h \<in> {w_oread p, w_eread p, w_iwrite p, hProcess p, hThread p}. htab (win s) h = None"
        and dist: "distinct [w_oread p, w_eread p, w_iwrite p, hProcess p, hThread p]"
        and tab: "htab (win s1) = htab (win s) ++
          [w_oread p \<mapsto> \<lparr>obj = Pipe_in k, inherit = False\<rparr>, w_eread p \<mapsto> \<lparr>obj = Pipe_in (k + 1), inherit = False\<rparr>,
           w_iwrite p \<mapsto> \<lparr>obj = Pipe_out (k + 2), inherit = False\<rparr>,
           hProcess p \<mapsto> \<lparr>obj = Process (dwProcessId p), inherit = False\<rparr>,
           hThread p \<mapsto> \<lparr>obj = Thread (dwProcessId p), inherit = False\<rparr>]"
        and k: "k = next_wpipe (win s)" "next_wpipe (win s1) = k + 3"
        and pid: "dwProcessId p = next_pid (win s)" "next_pid (win s1) = next_pid (win s) + 1"
      have "htab (win s) \<subseteq>\<^sub>m htab (win s1)" unfolding tab by (rule map_le_fresh) (use none in auto)
      then have adds: "only_adds s s1" using procs k pid by (simp add: only_adds_def)
      have "typed (htab (win s1)) p k" using dist by (auto simp: tab typed_def map_add_def)
      then have "win_inv base s1 (insert (length (win_procs s)) V)"
        by (rule win_inv_new [OF inv adds procs]) (use none k pid in \<open>auto simp: win_handles_def\<close>)
      with r run show ?thesis by simp
    qed
  next
    case False
    show ?thesis
    proof (rule win_process_run_not_found [OF line room False, of stale])
      fix s1 a b c k p
      assume r: "win_process_run m comspec stale cmd vargs s = Inr (Inl (Failure ''process_run''), s1)"
        and none: "\<forall>h \<in> {a, b, c}. htab (win s) h = None"
        and tab: "htab (win s1) = htab (win s) ++ [a \<mapsto> \<lparr>obj = Pipe_in (k + 2), inherit = True\<rparr>,
          b \<mapsto> \<lparr>obj = Pipe_out k, inherit = True\<rparr>, c \<mapsto> \<lparr>obj = Pipe_out (k + 1), inherit = True\<rparr>]"
        and procs: "win_procs s1 = win_procs s @ [Some p]"
        and grow: "next_wpipe (win s) \<le> next_wpipe (win s1)" "next_pid (win s1) = next_pid (win s)"
      have "htab (win s) \<subseteq>\<^sub>m htab (win s1)" unfolding tab by (rule map_le_fresh) (use none in auto)
      then have "only_adds s s1" using procs grow by (simp add: only_adds_def)
      from win_inv_adds(1) [OF inv this] r run show ?thesis by simp
    qed
  qed
qed

lemma win_inv_step: "win_step sV sV' \<Longrightarrow> win_inv base (fst sV) (snd sV) \<Longrightarrow> win_inv base (fst sV') (snd sV')"
proof (induction rule: win_step.induct)
  case (run m comspec stale cmd vargs s r s' V)
  then show ?case using win_inv_run [of base s V] by simp
next
  case (shut vp V s r s')
  then show ?case using win_inv_shut [of base s V] by simp
qed (auto simp: win_stdout_read_def win_stderr_read_def
    intro: same_handles_inv [OF read_same] same_handles_inv [OF write_same] same_handles_inv [OF exit_same] same_handles_inv [OF kill_same])

interpretation windows: preserved win_step "\<lambda>sV. win_inv base (fst sV) (snd sV)"
  using win_inv_step by unfold_locales blast

lemma win_reaches_inv:
  assumes "win_reaches s0 s V"
  shows "win_inv (htab (win s0)) s V"
proof -
  have "win_inv (htab (win s0)) s0 {}" by (simp add: win_inv_def)
  then show ?thesis using windows.always [of "(s0, {})" "(s, V)"] assms by (simp add: win_reaches_def)
qed

section \<open>Properties\<close>


text \<open>A process that is started in a state with nothing before it, as an example of a reachable state.\<close>

lemma example_reaches:
  "\<exists>s ch. win_process_run mem_1k None 0 ''a'' (Some [''b'']) (example_win (\<lambda>_. True)) = Inr (Inr (0, ch), s) \<and>
    win_reaches (example_win (\<lambda>_. True)) s {0}"
proof (rule win_process_run_found [OF example_win_line(1) example_room, of "\<lambda>_. True" 0])
  fix ch s'
  assume r: "win_process_run mem_1k None 0 ''a'' (Some [''b'']) (example_win (\<lambda>_. True)) =
    Inr (Inr (length (win_procs (example_win (\<lambda>_. True))), ch), s')"
  then have "win_step (example_win (\<lambda>_. True), {}) (s', case Inr (0, ch) :: exn + nat \<times> win_child of Inl _ \<Rightarrow> {} | Inr (vp, _) \<Rightarrow> insert vp {})"
    by (intro win_step.run [OF _ example_room]) simp_all
  then have "win_reaches (example_win (\<lambda>_. True)) s' {0}" by (simp add: win_reaches_def r_into_rtranclp)
  with r show ?thesis by auto
qed simp_all


text \<open>What is written to one process reaches no other: the bytes go to the pipe of that process, and
  everything else in the system stays as it is.\<close>

lemma win_write_reaches_own_child:
  assumes reach: "win_reaches s0 s V" and vp: "vp \<in> V" "vq \<in> V" "vp \<noteq> vq"
    and run: "win_stdin_write vp bs pos len s = Inr (r, s')"
    and q: "win_procs s ! vq = Some q" "typed (htab (win s)) q l"
  shows "win_sent (win s') (l + 2) = win_sent (win s) (l + 2)"
proof -
  note inv = win_reaches_inv [OF reach]
  from win_invD(1) [OF inv vp(1)] obtain p k where p: "proc_good (htab (win s0)) s vp p k" by blast
  from win_invD(1) [OF inv vp(2)] q have "proc_good (htab (win s0)) s vq q l"
    by (auto simp: proc_good_def dest: typed_unique)
  from win_invD(2) [OF inv vp p this] have "k + 2 \<noteq> l + 2" by (auto simp: proc_apart_def)
  moreover have "win_check_args ''process_stdin_write'' bs pos len vp s = Inr (Inr p', s'') \<Longrightarrow> p' = p \<and> s'' = s" for p' s''
    using p by (auto simp: win_check_args_def win_process_Inr proc_good_def pbind_Inr_iff pure_c_def int_result_def split: if_splits)
  moreover have "win_check_args ''process_stdin_write'' bs pos len vp s = Inr (Inl e, s'') \<Longrightarrow> s'' = s" for e s''
    by (rule check_args_same)
  ultimately show ?thesis using run p
    by (auto simp: win_stdin_write_def pbind_Inr_iff on_win_def WriteFile_def proc_good_def typed_def split: option.splits if_splits)
qed

end
