(* ===== verification/PcreData.thy ===== *)
theory PcreData imports Prelude "HOL-Library.Multiset" begin

text \<open>
  libs/pcre2/pcre2_stubs.c, first part: the values the PCRE2 binding exchanges with OCaml and with
  the library, the exceptions it raises, and the copying of offset vectors. The library itself is a
  parameter: a match is a tree of callout requests whose leaves are results.
\<close>

section \<open>Constants of pcre2.h\<close>

abbreviation PCRE2_ERROR_NOMATCH :: int where "PCRE2_ERROR_NOMATCH \<equiv> - 1"
abbreviation PCRE2_ERROR_PARTIAL :: int where "PCRE2_ERROR_PARTIAL \<equiv> - 2"
abbreviation PCRE2_ERROR_UTF8_ERR1 :: int where "PCRE2_ERROR_UTF8_ERR1 \<equiv> - 3"
abbreviation PCRE2_ERROR_UTF8_ERR21 :: int where "PCRE2_ERROR_UTF8_ERR21 \<equiv> - 23"
abbreviation PCRE2_ERROR_BADUTFOFFSET :: int where "PCRE2_ERROR_BADUTFOFFSET \<equiv> - 36"
abbreviation PCRE2_ERROR_CALLOUT :: int where "PCRE2_ERROR_CALLOUT \<equiv> - 37"
abbreviation PCRE2_ERROR_DFA_WSSIZE :: int where "PCRE2_ERROR_DFA_WSSIZE \<equiv> - 43"
abbreviation PCRE2_ERROR_MATCHLIMIT :: int where "PCRE2_ERROR_MATCHLIMIT \<equiv> - 47"
abbreviation PCRE2_ERROR_NOSUBSTRING :: int where "PCRE2_ERROR_NOSUBSTRING \<equiv> - 49"
abbreviation PCRE2_ERROR_DEPTHLIMIT :: int where "PCRE2_ERROR_DEPTHLIMIT \<equiv> - 53"
abbreviation PCRE2_UNSET :: "64 word" where "PCRE2_UNSET \<equiv> - 1"

section \<open>Exceptions\<close>

text \<open>
  The argument of \<open>Pcre2.Error\<close> as the C code builds it, a constant or a block, and the OCaml type
  it stands for (in pcre2.ml), whose constructors are numbered separately in the two groups.
\<close>

datatype ml_arg = Const int | Block int "ml_field list"
and ml_field = MlString string | MlInt int

datatype error =
  Partial | BadPattern string int | BadUTF | BadUTFOffset | MatchLimit | DepthLimit | WorkspaceSize
| InternalError string

fun decode_error :: "ml_arg \<Rightarrow> error option" where
  "decode_error (Const n) =
     (if n = 0 then Some Partial else if n = 1 then Some BadUTF else if n = 2 then Some BadUTFOffset
      else if n = 3 then Some MatchLimit else if n = 4 then Some DepthLimit
      else if n = 5 then Some WorkspaceSize else None)"
| "decode_error (Block tag fs) =
     (case fs of
        [MlString m, MlInt p] \<Rightarrow> if tag = 0 then Some (BadPattern m p) else None
      | [MlString m] \<Rightarrow> if tag = 1 then Some (InternalError m) else None
      | _ \<Rightarrow> None)"

datatype pexn = Pcre2_Error ml_arg | Backtrack | Not_found | Invalid_argument string | Out_of_memory
  | User_exn nat

definition raise_partial :: pexn where "raise_partial = Pcre2_Error (Const 0)"
definition raise_bad_utf :: pexn where "raise_bad_utf = Pcre2_Error (Const 1)"
definition raise_bad_utf_offset :: pexn where "raise_bad_utf_offset = Pcre2_Error (Const 2)"
definition raise_match_limit :: pexn where "raise_match_limit = Pcre2_Error (Const 3)"
definition raise_depth_limit :: pexn where "raise_depth_limit = Pcre2_Error (Const 4)"
definition raise_workspace_size :: pexn where "raise_workspace_size = Pcre2_Error (Const 5)"

text \<open>The message buffer of 128 bytes is the string, whatever the library leaves in it.\<close>

definition raise_bad_pattern :: "(int \<Rightarrow> string) \<Rightarrow> int \<Rightarrow> int \<Rightarrow> pexn" where
  "raise_bad_pattern get_message code pos =
     Pcre2_Error (Block 0 [MlString (take 128 (get_message code)), MlInt pos])"

definition raise_internal_error :: "string \<Rightarrow> pexn" where
  "raise_internal_error msg = Pcre2_Error (Block 1 [MlString msg])"

definition handle_match_error :: "string \<Rightarrow> int \<Rightarrow> pexn" where
  "handle_match_error loc code =
     (if code = PCRE2_ERROR_NOMATCH then Not_found
      else if code = PCRE2_ERROR_PARTIAL then raise_partial
      else if code = PCRE2_ERROR_MATCHLIMIT then raise_match_limit
      else if code = PCRE2_ERROR_BADUTFOFFSET then raise_bad_utf_offset
      else if code = PCRE2_ERROR_DEPTHLIMIT then raise_depth_limit
      else if code = PCRE2_ERROR_DFA_WSSIZE then raise_workspace_size
      else if PCRE2_ERROR_UTF8_ERR21 \<le> code \<and> code \<le> PCRE2_ERROR_UTF8_ERR1 then raise_bad_utf
      else raise_internal_error (take 99 (loc @ '': unhandled PCRE2 error code: '' @ decimal code)))"

section \<open>Offset vectors\<close>

text \<open>\<open>Val_long\<close> (and \<open>Val_int\<close>, the same macro) keeps 63 bits.\<close>

definition Val_long :: "64 word \<Rightarrow> int" where
  "Val_long w = signed_take_bit 62 (uint w)"

text \<open>
  Both pointers start at the last of the \<open>n\<close> entries and move down. An access outside the library's
  vector or the OCaml array is undefined.
\<close>

fun copy_ovector :: "64 word \<Rightarrow> 64 word list \<Rightarrow> nat \<Rightarrow> int list \<Rightarrow> c_fault + int list" where
  "copy_ovector subj_start src 0 dst = Inr dst"
| "copy_ovector subj_start src (Suc n) dst =
     (if n < length src \<and> n < length dst
      then copy_ovector subj_start src n
             (dst[n := if subj_start = 0 then Val_long (src ! n) else Val_long (src ! n + subj_start)])
      else Inl (Undef ''offset vector''))"

text \<open>\<open>while (++ovec_dst < ovec_clear_stop) *ovec_dst = -1\<close>; the word -1 is the OCaml integer -1.\<close>

fun clear_ovector :: "nat \<Rightarrow> nat \<Rightarrow> int list \<Rightarrow> c_fault + int list" where
  "clear_ovector i 0 dst = Inr dst"
| "clear_ovector i (Suc n) dst =
     (if i < length dst then clear_ovector (Suc i) n (dst[i := - 1]) else Inl (Undef ''offset vector''))"

text \<open>\<open>subgroups2\<close> and \<open>subgroups2 - 1\<close> are 32-bit: for \<open>ret = 0\<close> the second is \<open>2 ^ 32 - 1\<close>.\<close>

definition handle_pcre2_match_result ::
  "64 word list \<Rightarrow> int list \<Rightarrow> 64 word \<Rightarrow> 32 word \<Rightarrow> c_fault + int list" where
  "handle_pcre2_match_result ovec v_ovec subj_start code =
     (let subgroups2 = code * 2; subgroups2_1 = subgroups2 - 1;
          clear_stop = (length v_ovec * 2) div 3
      in rbind (copy_ovector subj_start ovec (unat subgroups2) v_ovec) (\<lambda>dst.
         clear_ovector (unat subgroups2_1 + 1) (clear_stop - (unat subgroups2_1 + 1)) dst))"

section \<open>Facts\<close>

lemma copy_ovector_ok:
  "n \<le> length src \<Longrightarrow> n \<le> length dst \<Longrightarrow>
     copy_ovector ss src n dst = Inr (map (\<lambda>w. Val_long (w + ss)) (take n src) @ drop n dst)"
proof (induction n arbitrary: dst)
  case (Suc n)
  then have "copy_ovector ss src (Suc n) dst =
      Inr (map (\<lambda>w. Val_long (w + ss)) (take n src) @ drop n (dst[n := Val_long (src ! n + ss)]))"
    by simp
  moreover have "drop n (dst[n := Val_long (src ! n + ss)]) = Val_long (src ! n + ss) # drop (Suc n) dst"
    using Suc.prems by (simp add: drop_update_swap Cons_nth_drop_Suc [symmetric])
  ultimately show ?case using Suc.prems by (simp add: take_Suc_conv_app_nth)
qed simp

lemma clear_ovector_ok:
  "i + n \<le> length dst \<Longrightarrow> clear_ovector i n dst = Inr (take i dst @ replicate n (- 1) @ drop (i + n) dst)"
proof (induction n arbitrary: i dst)
  case (Suc n)
  then have "clear_ovector i (Suc n) dst =
      Inr (take (Suc i) (dst[i := - 1]) @ replicate n (- 1) @ drop (Suc i + n) dst)" by simp
  moreover have "take (Suc i) (dst[i := - 1]) = take i dst @ [- 1]"
    using Suc.prems by (simp add: take_Suc_conv_app_nth)
  ultimately show ?case by simp
qed simp

lemma unat_double: "unat code < 2 ^ 31 \<Longrightarrow> unat (code * 2) = 2 * unat code" for code :: "32 word"
  by (simp add: unat_word_ariths)

lemma handle_result_ok:
  assumes "0 < unat code" "2 * unat code \<le> length ovec" "2 * unat code \<le> (length v_ovec * 2) div 3"
    "unat code < 2 ^ 31"
  shows "handle_pcre2_match_result ovec v_ovec ss code =
    Inr (map (\<lambda>w. Val_long (w + ss)) (take (2 * unat code) ovec) @
         replicate ((length v_ovec * 2) div 3 - 2 * unat code) (- 1) @ drop ((length v_ovec * 2) div 3) v_ovec)"
proof -
  let ?n = "2 * unat code" and ?stop = "(length v_ovec * 2) div 3"
  have n: "unat (code * 2) = ?n" using assms(4) by (rule unat_double)
  have "code * 2 \<noteq> 0" using n assms(1) by auto
  then have "unat (code * 2 - 1) = ?n - 1" using n by (simp add: unat_minus_one)
  then have s: "unat (code * 2 - 1) + 1 = ?n" using assms(1) by simp
  have le: "?stop \<le> length v_ovec" by simp
  have "copy_ovector ss ovec ?n v_ovec = Inr (map (\<lambda>w. Val_long (w + ss)) (take ?n ovec) @ drop ?n v_ovec)"
    using assms(2,3) le by (intro copy_ovector_ok) linarith+
  then show ?thesis
    using assms(2,3) le
    by (simp add: handle_pcre2_match_result_def Let_def n s [simplified] clear_ovector_ok min_absorb2)
qed

end
