(* ===== verification/PcreStubs.thy ===== *)
theory PcreStubs imports PcreData begin

text \<open>
  libs/pcre2/pcre2_stubs.c, second part: callouts, matching, compilation and the queries. The state
  is the OCaml offset vector and workspace, what the callout function keeps, and the C resources
  alive.
\<close>

section \<open>The library as a parameter\<close>

record callout_block =
  callout_number :: "32 word"
  capture_top :: "32 word"
  capture_last :: "32 word"
  offset_vector :: "64 word list"
  start_match :: "64 word"
  current_position :: "64 word"
  pattern_position :: "64 word"
  next_item_length :: "64 word"

text \<open>
  A run of the matching engine: it returns a code, the offset vector and the contents of the
  workspace, or asks for a callout and goes on according to the answer.
\<close>

datatype engine_run =
  Finished int "64 word list" "int list"
| Callout callout_block "int \<Rightarrow> engine_run"

text \<open>
  \<open>stat_ok\<close>: which sizes \<open>caml_stat_alloc\<close> serves; \<open>stat_junk\<close>: what fresh memory holds; the queries
  give a return code and what they store.
\<close>

record 'r pcre =
  pcre2_match :: "'r \<Rightarrow> string \<Rightarrow> int \<Rightarrow> int \<Rightarrow> engine_run"
  pcre2_dfa_match :: "'r \<Rightarrow> string \<Rightarrow> int \<Rightarrow> int \<Rightarrow> int list \<Rightarrow> engine_run"
  stat_ok :: "int \<Rightarrow> bool"
  stat_junk :: "nat \<Rightarrow> int"

section \<open>State\<close>

datatype resource = Match_data | Match_context | Subject_copy | Workspace_copy

record callout_data =
  cd_callout_number :: int
  cd_substrings :: "string \<times> int list"
  cd_start_match :: int
  cd_current_position :: int
  cd_capture_top :: int
  cd_capture_last :: int
  cd_pattern_position :: int
  cd_next_item_length :: int

record 'u pst =
  v_ovec :: "int list"
  v_workspace :: "int list"
  user :: 'u
  live :: "resource multiset"

type_synonym 'u cof = "callout_data \<Rightarrow> 'u \<Rightarrow> pexn option \<times> 'u"

definition acquire :: "resource \<Rightarrow> 'u pst \<Rightarrow> 'u pst" where
  "acquire r s = s\<lparr>live := add_mset r (live s)\<rparr>"

definition release :: "resource \<Rightarrow> ('u pst, pexn, unit) prim" where
  "release r s = (if r \<in># live s then Inr (Inr (), s\<lparr>live := live s - {#r#}\<rparr>) else Inl (Undef ''double free''))"

text \<open>\<open>struct cod\<close>: the start of the subject and the exception of the callout function.\<close>

record cod =
  subj_start :: "64 word"
  v_exn :: "pexn option"

section \<open>Callouts\<close>

definition Val_u32 :: "32 word \<Rightarrow> int" where
  "Val_u32 w = uint w"

definition callout_arg :: "string \<Rightarrow> callout_block \<Rightarrow> 64 word \<Rightarrow> int list \<Rightarrow> callout_data" where
  "callout_arg v_subj cb ss ovec =
     \<lparr>cd_callout_number = Val_u32 (callout_number cb), cd_substrings = (v_subj, ovec),
      cd_start_match = Val_long (start_match cb + ss), cd_current_position = Val_long (current_position cb + ss),
      cd_capture_top = Val_u32 (capture_top cb), cd_capture_last = Val_u32 (capture_last cb),
      cd_pattern_position = Val_long (pattern_position cb), cd_next_item_length = Val_long (next_item_length cb)\<rparr>"

definition pcre2_callout_handler ::
  "'u cof \<Rightarrow> string \<Rightarrow> callout_block \<Rightarrow> cod \<times> 'u pst \<Rightarrow> c_fault + int \<times> cod \<times> 'u pst" where
  "pcre2_callout_handler v_cof v_subj cb cs =
     (case cs of (cod, s) \<Rightarrow>
        rbind (copy_ovector (subj_start cod) (offset_vector cb) (unat (capture_top cb * 2)) (v_ovec s)) (\<lambda>ovec.
        let res = v_cof (callout_arg v_subj cb (subj_start cod) ovec) (user s);
            s = s\<lparr>v_ovec := ovec, user := snd res\<rparr>
        in case fst res of None \<Rightarrow> Inr (0, cod, s)
           | Some e \<Rightarrow>
               if e = Backtrack then Inr (1, cod, s)
               else Inr (PCRE2_ERROR_CALLOUT, cod\<lparr>v_exn := Some e\<rparr>, s)))"

text \<open>Running the engine with a handler, and without one: then every callout counts as passed.\<close>

primrec run_callouts ::
  "(callout_block \<Rightarrow> 's \<Rightarrow> c_fault + int \<times> 's) \<Rightarrow> engine_run \<Rightarrow> 's \<Rightarrow>
   c_fault + (int \<times> 64 word list \<times> int list) \<times> 's" where
  "run_callouts h (Finished code ov ws) s = Inr ((code, ov, ws), s)"
| "run_callouts h (Callout cb k) s =
     (case h cb s of Inl c \<Rightarrow> Inl c | Inr (r, s) \<Rightarrow> run_callouts h (k r) s)"

primrec run_plain :: "engine_run \<Rightarrow> int \<times> 64 word list \<times> int list" where
  "run_plain (Finished code ov ws) = (code, ov, ws)"
| "run_plain (Callout cb k) = run_plain (k 0)"

section \<open>Matching\<close>

definition store_result :: "64 word list \<Rightarrow> 64 word \<Rightarrow> int \<Rightarrow> ('u pst, pexn, unit) prim" where
  "store_result ovec ss code s =
     (case handle_pcre2_match_result ovec (v_ovec s) ss (word_of_int code) of
        Inl c \<Rightarrow> Inl c | Inr ov \<Rightarrow> Inr (Inr (), s\<lparr>v_ovec := ov\<rparr>))"

text \<open>
  The engine call: with a workspace it is the DFA matcher, which works on the memory of the OCaml
  array.
\<close>

definition engine ::
  "'r pcre \<Rightarrow> 'r \<Rightarrow> string \<Rightarrow> int \<Rightarrow> int \<Rightarrow> bool \<Rightarrow> 'u pst \<Rightarrow> engine_run" where
  "engine lib rex subj pos opt is_dfa s =
     (if is_dfa then pcre2_dfa_match lib rex subj pos opt (v_workspace s)
      else pcre2_match lib rex subj pos opt)"

definition set_workspace :: "bool \<Rightarrow> int list \<Rightarrow> 'u pst \<Rightarrow> 'u pst" where
  "set_workspace is_dfa ws s = (if is_dfa then s\<lparr>v_workspace := ws\<rparr> else s)"

definition match_plain ::
  "'r pcre \<Rightarrow> 'r \<Rightarrow> string \<Rightarrow> int \<Rightarrow> 64 word \<Rightarrow> int \<Rightarrow> bool \<Rightarrow> ('u pst, pexn, unit) prim" where
  "match_plain lib rex subj pos ss opt is_dfa s =
     (let (code, ovec, ws) = run_plain (engine lib rex subj pos opt is_dfa s);
          s = set_workspace is_dfa ws s
      in if code < 0
         then pbind (release Match_data) (\<lambda>_. raise (handle_match_error ''pcre2_match_stub'' code)) s
         else store_result ovec ss code s)"

text \<open>
  With a callout function the subject is copied, since the garbage collector may move it, and a
  workspace copy is allocated which is never filled but copied back at the end.
\<close>

definition stat_alloc :: "'r pcre \<Rightarrow> int \<Rightarrow> resource \<Rightarrow> ('u pst, pexn, unit) prim" where
  "stat_alloc lib n r s = (if stat_ok lib n then Inr (Inr (), acquire r s) else Inr (Inl Out_of_memory, s))"

text \<open>The part after the engine call: what is released, raised and stored.\<close>

definition finish_callouts ::
  "'r pcre \<Rightarrow> 64 word \<Rightarrow> bool \<Rightarrow> int \<times> 64 word list \<times> int list \<Rightarrow> cod \<Rightarrow> ('u pst, pexn, unit) prim" where
  "finish_callouts lib ss is_dfa res cod s =
     (case res of (code, ovec, ws) \<Rightarrow>
        let workspace = map (stat_junk lib) [0..<length (v_workspace s)]; s = set_workspace is_dfa ws s
        in pbind (release Subject_copy) (\<lambda>_.
           pbind (release Match_context) (\<lambda>_.
           if code < 0
           then pbind (if is_dfa then release Workspace_copy else ret ()) (\<lambda>_.
                pbind (release Match_data) (\<lambda>_.
                if code = PCRE2_ERROR_CALLOUT
                then (case v_exn cod of None \<Rightarrow> faulty (Undef ''raise of null'') | Some e \<Rightarrow> raise e)
                else raise (handle_match_error ''pcre2_match_stub(callout)'' code)))
           else pbind (store_result ovec ss code) (\<lambda>_.
                if is_dfa
                then pbind (\<lambda>s. ret () (set_workspace True workspace s)) (\<lambda>_. release Workspace_copy)
                else ret ()))) s)"

definition match_callouts ::
  "'r pcre \<Rightarrow> 'r \<Rightarrow> string \<Rightarrow> string \<Rightarrow> int \<Rightarrow> 64 word \<Rightarrow> int \<Rightarrow> bool \<Rightarrow> 'u cof \<Rightarrow> ('u pst, pexn, unit) prim" where
  "match_callouts lib rex v_subj subj pos ss opt is_dfa v_cof =
     pbind (stat_alloc lib (int (length subj)) Subject_copy) (\<lambda>_.
     pbind (\<lambda>s. ret () (acquire Match_context s)) (\<lambda>_.
     pbind (\<lambda>s. if is_dfa then stat_alloc lib (4 * int (length (v_workspace s))) Workspace_copy s
                else ret () s) (\<lambda>_ s.
       case run_callouts (pcre2_callout_handler v_cof v_subj) (engine lib rex subj pos opt is_dfa s)
              (\<lparr>subj_start = ss, v_exn = None\<rparr>, s) of
         Inl c \<Rightarrow> Inl c
       | Inr (res, (cod, s)) \<Rightarrow> finish_callouts lib ss is_dfa res cod s)))"

definition pcre2_match_stub0 ::
  "'r pcre \<Rightarrow> int \<Rightarrow> 'r \<Rightarrow> int \<Rightarrow> int \<Rightarrow> string \<Rightarrow> 'u cof option \<Rightarrow> bool \<Rightarrow> ('u pst, pexn, unit) prim" where
  "pcre2_match_stub0 lib opt rex pos start v_subj maybe_cof is_dfa =
     (let len = int (length v_subj)
      in if pos > len \<or> pos < start
         then raise (Invalid_argument ''Pcre2.pcre2_match_stub: illegal position'')
         else if start > len \<or> start < 0
         then raise (Invalid_argument ''Pcre2.pcre2_match_stub: illegal subject start'')
         else let pos = pos - start; subj = drop (nat start) v_subj; ss = word_of_int start
              in pbind (\<lambda>s. ret () (acquire Match_data s)) (\<lambda>_.
                 pbind (case maybe_cof of
                          None \<Rightarrow> match_plain lib rex subj pos ss opt is_dfa
                        | Some v_cof \<Rightarrow> match_callouts lib rex v_subj subj pos ss opt is_dfa v_cof) (\<lambda>_.
                 release Match_data)))"

definition pcre2_match_stub ::
  "'r pcre \<Rightarrow> int \<Rightarrow> 'r \<Rightarrow> int \<Rightarrow> int \<Rightarrow> string \<Rightarrow> 'u cof option \<Rightarrow> ('u pst, pexn, unit) prim" where
  "pcre2_match_stub lib opt rex pos start v_subj maybe_cof =
     pcre2_match_stub0 lib opt rex pos start v_subj maybe_cof False"

section \<open>What the library documents\<close>

text \<open>
  For a vector with room for \<open>n\<close> groups: results and callouts report at most \<open>n\<close> groups, inside the
  vector; a negative answer of a callout ends the match with that code, and the code for callouts
  has no other source.
\<close>

primrec engine_ok :: "nat \<Rightarrow> engine_run \<Rightarrow> bool" where
  "engine_ok n (Finished code ov ws) \<longleftrightarrow>
     code \<noteq> PCRE2_ERROR_CALLOUT \<and> code \<le> int n \<and> 2 * nat code \<le> length ov"
| "engine_ok n (Callout cb k) \<longleftrightarrow>
     unat (capture_top cb) \<le> n \<and> 2 * unat (capture_top cb) \<le> length (offset_vector cb) \<and>
     (\<forall>r \<ge> 0. engine_ok n (k r)) \<and> (\<forall>r < 0. \<exists>ov ws. k r = Finished r ov ws)"

text \<open>The OCaml side allocates three words for each group.\<close>

definition vector_for :: "nat \<Rightarrow> int list \<Rightarrow> bool" where
  "vector_for n ov \<longleftrightarrow> length ov = 3 * n \<and> n < 2 ^ 31"

lemma run_plain_ok:
  "engine_ok n R \<Longrightarrow> run_plain R = (code, ov, ws) \<Longrightarrow>
     code \<noteq> PCRE2_ERROR_CALLOUT \<and> code \<le> int n \<and> 2 * nat code \<le> length ov"
  by (induction R) auto

lemma handler_ok:
  assumes "unat (capture_top cb) \<le> n" "2 * unat (capture_top cb) \<le> length (offset_vector cb)"
    "vector_for n (v_ovec s)" "v_exn cod = None"
  shows "\<exists>r cod' s'. pcre2_callout_handler cof subj cb (cod, s) = Inr (r, cod', s') \<and>
    length (v_ovec s') = length (v_ovec s) \<and> live s' = live s \<and> v_workspace s' = v_workspace s \<and>
    (if r < 0 then r = PCRE2_ERROR_CALLOUT \<and> v_exn cod' \<noteq> None else v_exn cod' = None)"
proof -
  let ?n = "2 * unat (capture_top cb)"
  have n: "unat (capture_top cb * 2) = ?n"
    using assms(1,3) by (intro unat_double) (simp add: vector_for_def)
  have "?n \<le> length (v_ovec s)" using assms(1,3) by (simp add: vector_for_def)
  with assms(2) have c: "copy_ovector (subj_start cod) (offset_vector cb) (unat (capture_top cb * 2)) (v_ovec s) =
      Inr (map (\<lambda>w. Val_long (w + subj_start cod)) (take ?n (offset_vector cb)) @ drop ?n (v_ovec s))"
    unfolding n by (intro copy_ovector_ok)
  define ov where "ov = map (\<lambda>w. Val_long (w + subj_start cod)) (take ?n (offset_vector cb)) @ drop ?n (v_ovec s)"
  have "length ov = length (v_ovec s)" using assms(2) \<open>?n \<le> length (v_ovec s)\<close> by (simp add: ov_def)
  then show ?thesis
    using assms(4)
    by (cases "fst (cof (callout_arg subj cb (subj_start cod) ov) (user s))")
      (simp_all add: pcre2_callout_handler_def Let_def c [folded ov_def])
qed

lemma run_callouts_ok:
  "engine_ok n R \<Longrightarrow> vector_for n (v_ovec s) \<Longrightarrow> v_exn cod = None \<Longrightarrow>
   \<exists>code ov ws cod' s'. run_callouts (pcre2_callout_handler cof subj) R (cod, s) = Inr ((code, ov, ws), (cod', s')) \<and>
     length (v_ovec s') = length (v_ovec s) \<and> live s' = live s \<and> v_workspace s' = v_workspace s \<and>
     (code = PCRE2_ERROR_CALLOUT \<longleftrightarrow> v_exn cod' \<noteq> None) \<and>
     (0 \<le> code \<longrightarrow> code \<le> int n \<and> 2 * nat code \<le> length ov)"
proof (induction R arbitrary: cod s)
  case (Finished code ov ws)
  then show ?case by auto
next
  case (Callout cb k)
  from handler_ok [of cb n s cod cof subj] Callout.prems obtain r cod1 s1 where
    h: "pcre2_callout_handler cof subj cb (cod, s) = Inr (r, cod1, s1)"
      "length (v_ovec s1) = length (v_ovec s)" "live s1 = live s" "v_workspace s1 = v_workspace s"
      "if r < 0 then r = PCRE2_ERROR_CALLOUT \<and> v_exn cod1 \<noteq> None else v_exn cod1 = None"
    by auto
  show ?case
  proof (cases "r < 0")
    case True
    with Callout.prems(1) obtain ov ws where "k r = Finished r ov ws" by auto
    with h True show ?thesis by auto
  next
    case False
    with Callout.prems h have "engine_ok n (k r)" "vector_for n (v_ovec s1)" "v_exn cod1 = None"
      by (auto simp: vector_for_def)
    from Callout.IH [OF _ this] h show ?thesis by auto
  qed
qed

lemma store_result_ok:
  assumes "0 \<le> code" "code \<le> int n" "2 * nat code \<le> length ov" "vector_for n (v_ovec s)"
  shows "\<exists>ov'. store_result ov ss code s = Inr (Inr (), s\<lparr>v_ovec := ov'\<rparr>) \<and> length ov' = length (v_ovec s) \<and>
    (if code = 0 then ov' = v_ovec s
     else ov' = map (\<lambda>w. Val_long (w + ss)) (take (2 * nat code) ov) @
       replicate (2 * n - 2 * nat code) (- 1) @ drop (2 * n) (v_ovec s))"
proof -
  have len: "length (v_ovec s) = 3 * n" "n < 2 ^ 31" using assms(4) by (auto simp: vector_for_def)
  have "nat code < 2 ^ 31" using assms(2) len(2) by linarith
  then have c: "unat (word_of_int code :: 32 word) = nat code"
    using assms(1) by (simp add: unat_eq_nat_uint uint_word_of_int)
  show ?thesis
  proof (cases "code = 0")
    case True
    have "unat (0 - 1 :: 32 word) = 2 ^ 32 - 1" by (simp add: unsigned_minus_1_eq_mask mask_eq_exp_minus_1)
    with True len show ?thesis
      by (auto simp: store_result_def handle_pcre2_match_result_def Let_def)
  next
    case False
    then have "0 < nat code" using assms(1) by simp
    moreover have "(length (v_ovec s) * 2) div 3 = 2 * n" using len(1) by simp
    ultimately have "handle_pcre2_match_result ov (v_ovec s) ss (word_of_int code) =
        Inr (map (\<lambda>w. Val_long (w + ss)) (take (2 * nat code) ov) @
         replicate (2 * n - 2 * nat code) (- 1) @ drop (2 * n) (v_ovec s))"
      using handle_result_ok [of "word_of_int code" ov "v_ovec s" ss] c assms(2,3) \<open>nat code < 2 ^ 31\<close>
      by simp
    with False len assms(2,3) show ?thesis by (simp add: store_result_def)
  qed
qed

section \<open>The match is total and balanced\<close>

lemma live_simps [simp]:
  "live (acquire r s) = add_mset r (live s)" "v_ovec (acquire r s) = v_ovec s"
  "v_workspace (acquire r s) = v_workspace s" "user (acquire r s) = user s"
  "live (set_workspace b ws s) = live s" "v_ovec (set_workspace b ws s) = v_ovec s"
  "user (set_workspace b ws s) = user s"
  "v_workspace (set_workspace True ws s) = ws" "set_workspace False ws s = s"
  by (simp_all add: acquire_def set_workspace_def)

lemma release_ok: "r \<in># live s \<Longrightarrow> release r s = Inr (Inr (), s\<lparr>live := live s - {#r#}\<rparr>)"
  by (simp add: release_def)

lemma match_plain_ok:
  assumes "engine_ok n (engine lib rex subj pos opt is_dfa s)" "vector_for n (v_ovec s)" "Match_data \<in># live s"
  shows "\<exists>r s'. match_plain lib rex subj pos ss opt is_dfa s = Inr (r, s') \<and>
    length (v_ovec s') = length (v_ovec s) \<and>
    live s' = (case r of Inr _ \<Rightarrow> live s | Inl _ \<Rightarrow> live s - {#Match_data#})"
proof -
  obtain code ov ws where p: "run_plain (engine lib rex subj pos opt is_dfa s) = (code, ov, ws)"
    by (metis prod_cases3)
  note e = run_plain_ok [OF assms(1) p]
  show ?thesis
  proof (cases "code < 0")
    case True
    with p assms(3) show ?thesis by (simp add: match_plain_def release_ok)
  next
    case False
    with store_result_ok [of code n ov "set_workspace is_dfa ws s" ss] e assms(2) obtain ov' where
      "store_result ov ss code (set_workspace is_dfa ws s) = Inr (Inr (), set_workspace is_dfa ws s\<lparr>v_ovec := ov'\<rparr>)"
      "length ov' = length (v_ovec s)" by auto
    with False p show ?thesis by (simp add: match_plain_def)
  qed
qed

definition callout_resources :: "bool \<Rightarrow> resource multiset" where
  "callout_resources is_dfa = {#Subject_copy, Match_context#} + (if is_dfa then {#Workspace_copy#} else {#})"

definition callout_state :: "bool \<Rightarrow> 'u pst \<Rightarrow> 'u pst" where
  "callout_state is_dfa s =
     (if is_dfa then acquire Workspace_copy (acquire Match_context (acquire Subject_copy s))
      else acquire Match_context (acquire Subject_copy s))"

lemma callout_state_simps [simp]:
  "live (callout_state is_dfa s) = live s + callout_resources is_dfa"
  "v_ovec (callout_state is_dfa s) = v_ovec s" "v_workspace (callout_state is_dfa s) = v_workspace s"
  "user (callout_state is_dfa s) = user s"
  "engine lib rex subj pos opt is_dfa (callout_state is_dfa s) = engine lib rex subj pos opt is_dfa s"
  by (simp_all add: callout_state_def callout_resources_def engine_def)

lemma match_callouts_eq:
  assumes "\<forall>i. stat_ok lib i"
  shows "match_callouts lib rex v_subj subj pos ss opt is_dfa cof s =
    (case run_callouts (pcre2_callout_handler cof v_subj) (engine lib rex subj pos opt is_dfa s)
       (\<lparr>subj_start = ss, v_exn = None\<rparr>, callout_state is_dfa s) of
       Inl c \<Rightarrow> Inl c
     | Inr (res, (cod, s)) \<Rightarrow> finish_callouts lib ss is_dfa res cod s)"
proof -
  have "(if is_dfa then stat_alloc lib (4 * int (length (v_workspace s))) Workspace_copy
      (acquire Match_context (acquire Subject_copy s)) else ret () (acquire Match_context (acquire Subject_copy s))) =
    (Inr (Inr (), callout_state is_dfa s) :: c_fault + (pexn + unit) \<times> 'b pst)"
    using assms by (simp add: stat_alloc_def callout_state_def)
  moreover have "stat_alloc lib (int (length subj)) Subject_copy s = (Inr (Inr (), acquire Subject_copy s) :: c_fault + (pexn + unit) \<times> 'b pst)"
    using assms by (simp add: stat_alloc_def)
  ultimately show ?thesis by (cases is_dfa) (simp_all add: match_callouts_def split: sum.split)
qed

lemma finish_callouts_ok:
  assumes "callout_resources is_dfa + {#Match_data#} \<subseteq># live s" "vector_for n (v_ovec s)"
    and "code = PCRE2_ERROR_CALLOUT \<longleftrightarrow> v_exn cod \<noteq> None"
    and "0 \<le> code \<longrightarrow> code \<le> int n \<and> 2 * nat code \<le> length ov"
  shows "\<exists>s'. finish_callouts lib ss is_dfa (code, ov, ws) cod s =
      Inr (if code = PCRE2_ERROR_CALLOUT then Inl (the (v_exn cod))
           else if code < 0 then Inl (handle_match_error ''pcre2_match_stub(callout)'' code) else Inr (), s') \<and>
    length (v_ovec s') = length (v_ovec s) \<and>
    live s' = live s - callout_resources is_dfa - (if code < 0 then {#Match_data#} else {#}) \<and>
    (0 \<le> code \<longrightarrow> is_dfa \<longrightarrow> v_workspace s' = map (stat_junk lib) [0..<length (v_workspace s)])"
proof -
  let ?w = "set_workspace is_dfa ws s"
  from assms(1) obtain L where L: "live s = L + callout_resources is_dfa + {#Match_data#}"
    by (metis add.assoc add.commute subset_mset.le_iff_add)
  have 1: "pbind (release Subject_copy) f ?w = f () (?w\<lparr>live := live s - {#Subject_copy#}\<rparr>)" for f :: "unit \<Rightarrow> ('a pst, pexn, unit) prim"
    using L by (simp add: release_ok callout_resources_def)
  have 2: "pbind (release Match_context) f (?w\<lparr>live := live s - {#Subject_copy#}\<rparr>) =
      f () (?w\<lparr>live := live s - {#Subject_copy#} - {#Match_context#}\<rparr>)" for f :: "unit \<Rightarrow> ('a pst, pexn, unit) prim"
    using L by (simp add: release_ok callout_resources_def)
  show ?thesis
  proof (cases "code < 0")
    case True
    with assms(3) L show ?thesis
      by (cases "v_exn cod"; cases is_dfa)
        (simp_all add: finish_callouts_def Let_def 1 2 release_ok callout_resources_def)
  next
    case False
    let ?s = "?w\<lparr>live := live s - {#Subject_copy#} - {#Match_context#}\<rparr>"
    from store_result_ok [of code n ov ?s ss] False assms(2,4) obtain ov' where
      st: "store_result ov ss code ?s = Inr (Inr (), ?s\<lparr>v_ovec := ov'\<rparr>)" "length ov' = length (v_ovec s)"
      by auto
    with False L show ?thesis
      by (cases is_dfa)
        (simp_all add: finish_callouts_def Let_def 1 2 release_ok callout_resources_def set_workspace_def)
  qed
qed

text \<open>What the engine does with the arguments of a call that passed the checks.\<close>

definition run_of ::
  "'r pcre \<Rightarrow> int \<Rightarrow> 'r \<Rightarrow> int \<Rightarrow> int \<Rightarrow> string \<Rightarrow> bool \<Rightarrow> 'u pst \<Rightarrow> engine_run" where
  "run_of lib opt rex pos start v_subj is_dfa s = engine lib rex (drop (nat start) v_subj) (pos - start) opt is_dfa s"

definition args_ok :: "int \<Rightarrow> int \<Rightarrow> string \<Rightarrow> bool" where
  "args_ok pos start v_subj \<longleftrightarrow> 0 \<le> start \<and> start \<le> pos \<and> pos \<le> int (length v_subj)"

lemma stub_args_ok:
  assumes "args_ok pos start v_subj"
  shows "pcre2_match_stub0 lib opt rex pos start v_subj cof is_dfa s =
    pbind (case cof of
        None \<Rightarrow> match_plain lib rex (drop (nat start) v_subj) (pos - start) (word_of_int start) opt is_dfa
      | Some f \<Rightarrow> match_callouts lib rex v_subj (drop (nat start) v_subj) (pos - start) (word_of_int start) opt is_dfa f)
      (\<lambda>_. release Match_data) (acquire Match_data s)"
  using assms by (simp add: pcre2_match_stub0_def args_ok_def Let_def)

lemma engine_acquire [simp]: "engine lib rex subj pos opt is_dfa (acquire r s) = engine lib rex subj pos opt is_dfa s"
  by (simp add: engine_def)

lemma stub_callouts_result:
  assumes "args_ok pos start v_subj" "\<forall>i. stat_ok lib i" "vector_for n (v_ovec s)"
    and "engine_ok n (run_of lib opt rex pos start v_subj is_dfa s)"
  shows "\<exists>code ov ws cod s1 s'.
    run_callouts (pcre2_callout_handler f v_subj) (run_of lib opt rex pos start v_subj is_dfa s)
      (\<lparr>subj_start = word_of_int start, v_exn = None\<rparr>, callout_state is_dfa (acquire Match_data s)) =
      Inr ((code, ov, ws), (cod, s1)) \<and>
    pcre2_match_stub0 lib opt rex pos start v_subj (Some f) is_dfa s =
      Inr (if code = PCRE2_ERROR_CALLOUT then Inl (the (v_exn cod))
           else if code < 0 then Inl (handle_match_error ''pcre2_match_stub(callout)'' code) else Inr (), s') \<and>
    length (v_ovec s') = length (v_ovec s) \<and> live s' = live s \<and>
    (code = PCRE2_ERROR_CALLOUT \<longleftrightarrow> v_exn cod \<noteq> None) \<and>
    (0 \<le> code \<longrightarrow> is_dfa \<longrightarrow> v_workspace s' = map (stat_junk lib) [0..<length (v_workspace s)])"
proof -
  let ?R = "run_of lib opt rex pos start v_subj is_dfa s" and ?s = "callout_state is_dfa (acquire Match_data s)"
  from run_callouts_ok [OF assms(4), of ?s "\<lparr>subj_start = word_of_int start, v_exn = None\<rparr>" f v_subj] assms(3)
  obtain code ov ws cod s1 where
    R: "run_callouts (pcre2_callout_handler f v_subj) ?R (\<lparr>subj_start = word_of_int start, v_exn = None\<rparr>, ?s) =
      Inr ((code, ov, ws), (cod, s1))"
      "length (v_ovec s1) = length (v_ovec s)" "live s1 = live ?s" "v_workspace s1 = v_workspace s"
      "code = PCRE2_ERROR_CALLOUT \<longleftrightarrow> v_exn cod \<noteq> None"
      "0 \<le> code \<longrightarrow> code \<le> int n \<and> 2 * nat code \<le> length ov" by auto
  have live: "live s1 = add_mset Match_data (live s) + callout_resources is_dfa" using R(3) by simp
  then have sub: "callout_resources is_dfa + {#Match_data#} \<subseteq># live s1" by simp
  have "vector_for n (v_ovec s1)" using assms(3) R(2) by (simp add: vector_for_def)
  from finish_callouts_ok [OF sub this R(5,6), of lib "word_of_int start" ws] obtain s2 where
    F: "finish_callouts lib (word_of_int start) is_dfa (code, ov, ws) cod s1 =
        Inr (if code = PCRE2_ERROR_CALLOUT then Inl (the (v_exn cod))
           else if code < 0 then Inl (handle_match_error ''pcre2_match_stub(callout)'' code) else Inr (), s2)"
      "length (v_ovec s2) = length (v_ovec s1)"
      "live s2 = live s1 - callout_resources is_dfa - (if code < 0 then {#Match_data#} else {#})"
      "0 \<le> code \<longrightarrow> is_dfa \<longrightarrow> v_workspace s2 = map (stat_junk lib) [0..<length (v_workspace s1)]" by blast
  have m: "match_callouts lib rex v_subj (drop (nat start) v_subj) (pos - start) (word_of_int start) opt is_dfa f
      (acquire Match_data s) = finish_callouts lib (word_of_int start) is_dfa (code, ov, ws) cod s1"
    using R(1) by (simp add: match_callouts_eq [OF assms(2)] run_of_def)
  let ?r = "pcre2_match_stub0 lib opt rex pos start v_subj (Some f) is_dfa s"
  have "\<exists>s'. ?r = Inr (if code = PCRE2_ERROR_CALLOUT then Inl (the (v_exn cod))
        else if code < 0 then Inl (handle_match_error ''pcre2_match_stub(callout)'' code) else Inr (), s') \<and>
      length (v_ovec s') = length (v_ovec s2) \<and> live s' = live s \<and> v_workspace s' = v_workspace s2"
    using F(1,3) live by (cases "code < 0") (auto simp: stub_args_ok [OF assms(1)] m release_ok)
  with R F show ?thesis by auto
qed

lemma stub_plain_result:
  assumes "args_ok pos start v_subj" "vector_for n (v_ovec s)"
    and "engine_ok n (run_of lib opt rex pos start v_subj is_dfa s)"
  shows "\<exists>r s'. pcre2_match_stub0 lib opt rex pos start v_subj None is_dfa s = Inr (r, s') \<and>
    length (v_ovec s') = length (v_ovec s) \<and> live s' = live s"
proof -
  have "engine_ok n (engine lib rex (drop (nat start) v_subj) (pos - start) opt is_dfa (acquire Match_data s))"
    using assms(3) by (simp add: run_of_def)
  from match_plain_ok [OF this, of "word_of_int start"] assms(2) obtain r s1 where
    m: "match_plain lib rex (drop (nat start) v_subj) (pos - start) (word_of_int start) opt is_dfa (acquire Match_data s) =
      Inr (r, s1)" "length (v_ovec s1) = length (v_ovec s)"
      "live s1 = (case r of Inr _ \<Rightarrow> live (acquire Match_data s)
        | Inl _ \<Rightarrow> live (acquire Match_data s) - {#Match_data#})"
    by auto
  then show ?thesis by (cases r) (auto simp: stub_args_ok [OF assms(1)] release_ok)
qed

text \<open>A callout that the engine reaches raises \<open>e\<close>.\<close>

inductive callout_raises ::
  "'u cof \<Rightarrow> string \<Rightarrow> engine_run \<Rightarrow> cod \<times> 'u pst \<Rightarrow> pexn \<Rightarrow> bool" for f v_subj where
  now: "pcre2_callout_handler f v_subj cb cs = Inr (r, cod, s) \<Longrightarrow> r < 0 \<Longrightarrow> v_exn cod = Some e \<Longrightarrow>
     callout_raises f v_subj (Callout cb k) cs e"
| later: "pcre2_callout_handler f v_subj cb cs = Inr (r, cs') \<Longrightarrow> 0 \<le> r \<Longrightarrow>
     callout_raises f v_subj (k r) cs' e \<Longrightarrow> callout_raises f v_subj (Callout cb k) cs e"

lemma callout_raises_result:
  "callout_raises f v_subj R cs e \<Longrightarrow> engine_ok n R \<Longrightarrow>
   run_callouts (pcre2_callout_handler f v_subj) R cs = Inr (res, (cod, s)) \<Longrightarrow> v_exn cod = Some e"
proof (induction rule: callout_raises.induct)
  case (now cb cs r cod1 s1 e k)
  from now(2,4) obtain ov ws where "k r = Finished r ov ws" by auto
  with now show ?case by auto
next
  case (later cb cs r cs' k e)
  then show ?case by auto
qed

lemma handler_no_backtrack:
  assumes "pcre2_callout_handler f v_subj cb (cod, s) = Inr (r, cod', s')" "v_exn cod \<noteq> Some Backtrack"
  shows "v_exn cod' \<noteq> Some Backtrack"
  using assms
  by (auto simp: pcre2_callout_handler_def Let_def rbind_Inr_iff split: option.splits if_splits)

lemma run_no_backtrack:
  "v_exn cod \<noteq> Some Backtrack \<Longrightarrow>
   run_callouts (pcre2_callout_handler f v_subj) R (cod, s) = Inr (res, (cod', s')) \<Longrightarrow> v_exn cod' \<noteq> Some Backtrack"
proof (induction R arbitrary: cod s)
  case (Callout cb k)
  then obtain r cod1 s1 where h: "pcre2_callout_handler f v_subj cb (cod, s) = Inr (r, cod1, s1)"
    "run_callouts (pcre2_callout_handler f v_subj) (k r) (cod1, s1) = Inr (res, (cod', s'))"
    by (auto split: sum.splits prod.splits)
  from Callout.IH [OF _ handler_no_backtrack [OF h(1) Callout.prems(1)] h(2)] show ?case by simp
qed simp

lemma match_error_not_backtrack: "handle_match_error loc code \<noteq> Backtrack"
  by (simp add: handle_match_error_def raise_partial_def raise_match_limit_def raise_bad_utf_offset_def
    raise_depth_limit_def raise_workspace_size_def raise_bad_utf_def raise_internal_error_def)

section \<open>Examples\<close>

text \<open>An engine that finds the two bytes at \<open>pos\<close>, with an unset group, after one callout.\<close>

definition ex_cb :: callout_block where
  "ex_cb = \<lparr>callout_number = 7, capture_top = 1, capture_last = 0, offset_vector = [- 1, - 1, - 1, - 1],
     start_match = 0, current_position = 1, pattern_position = 2, next_item_length = 1\<rparr>"

definition ex_found :: "int \<Rightarrow> engine_run" where
  "ex_found pos = Finished 2 [word_of_int pos, word_of_int (pos + 2), - 1, - 1] [4, 5]"

definition ex_lib :: "unit pcre" where
  "ex_lib = \<lparr>pcre2_match = (\<lambda>_ subj pos opt. Callout ex_cb (\<lambda>r. if r < 0 then Finished r [] []
        else if r = 0 then ex_found pos else Finished (- 1) [] [])),
     pcre2_dfa_match = (\<lambda>_ subj pos opt ws. Callout ex_cb (\<lambda>r. if r < 0 then Finished r [] []
        else if r = 0 then ex_found pos else Finished 0 [] ws)),
     stat_ok = (\<lambda>_. True), stat_junk = (\<lambda>_. 99)\<rparr>"

definition ex_pst :: "nat pst" where
  "ex_pst = \<lparr>v_ovec = [0, 0, 0, 0, 0, 0], v_workspace = [0, 0], user = 0, live = {#}\<rparr>"

definition ex_cof :: "pexn option \<Rightarrow> nat cof" where
  "ex_cof r data u = (r, Suc u)"

lemma ex_engine_ok [simp]: "engine_ok 2 (run_of ex_lib opt () pos start v_subj is_dfa ex_pst)"
  by (auto simp: run_of_def engine_def ex_lib_def ex_cb_def ex_found_def)

lemma ex_stat_ok [simp]: "stat_ok ex_lib i"
  by (simp add: ex_lib_def)

lemma ex_vector [simp]: "vector_for 2 (v_ovec ex_pst)" "live ex_pst = {#}" "length (v_ovec ex_pst) = 6"
  by (simp_all add: vector_for_def ex_pst_def)

section \<open>Properties\<close>



text \<open>Positions outside the subject are refused before anything else happens, and what passes the
  checks lies inside the part of the subject that the engine gets.\<close>

lemma match_stub_checks_positions:
  "(\<not> args_ok pos start v_subj \<longrightarrow>
      (\<exists>m. pcre2_match_stub0 lib opt rex pos start v_subj cof is_dfa s = Inr (Inl (Invalid_argument m), s))) \<and>
   (args_ok pos start v_subj \<longrightarrow> 0 \<le> pos - start \<and> pos - start \<le> int (length (drop (nat start) v_subj)))"
  by (auto simp: pcre2_match_stub0_def args_ok_def Let_def)

lemma match_stub_checks_positions_example:
  "\<exists>m. pcre2_match_stub0 ex_lib 0 () 9 0 ''abcdef'' None False ex_pst = Inr (Inl (Invalid_argument m), ex_pst)"
  using match_stub_checks_positions [of 9 0 "''abcdef''" ex_lib 0 "()" None False ex_pst]
  by (simp add: args_ok_def)



lemma stub_plain_success:
  assumes "args_ok pos start v_subj" "vector_for n (v_ovec s)"
    and "run_plain (run_of lib opt rex pos start v_subj False s) = (code, ov, ws)"
    and "0 \<le> code" "code \<le> int n" "2 * nat code \<le> length ov"
  shows "\<exists>s'. pcre2_match_stub0 lib opt rex pos start v_subj None False s = Inr (Inr (), s') \<and>
    v_ovec s' = (if code = 0 then v_ovec s
      else map (\<lambda>w. Val_long (w + word_of_int start)) (take (2 * nat code) ov) @
        replicate (2 * n - 2 * nat code) (- 1) @ drop (2 * n) (v_ovec s))"
proof -
  let ?s = "acquire Match_data s"
  from store_result_ok [of code n ov ?s "word_of_int start"] assms(2,4-6) obtain ov' where
    "store_result ov (word_of_int start) code ?s = Inr (Inr (), ?s\<lparr>v_ovec := ov'\<rparr>)"
    "ov' = (if code = 0 then v_ovec s
      else map (\<lambda>w. Val_long (w + word_of_int start)) (take (2 * nat code) ov) @
        replicate (2 * n - 2 * nat code) (- 1) @ drop (2 * n) (v_ovec s))" by (auto split: if_splits)
  with assms(1,3,4) show ?thesis
    by (simp add: stub_args_ok match_plain_def run_of_def release_ok)
qed

lemma Val_long_small: "0 \<le> x \<Longrightarrow> x < 2 ^ 62 \<Longrightarrow> Val_long (word_of_int x) = x"
  by (simp add: Val_long_def uint_word_of_int signed_take_bit_int_eq_self)

lemma Val_long_minus_1: "Val_long (- 1) = - 1"
  by code_simp

text \<open>C21: after a successful match the OCaml vector holds, for every group the engine set, its bounds
  counted from the start of the whole subject string, and -1 for the groups behind the last
  reported one.\<close>

theorem match_offsets:
  assumes "args_ok pos start v_subj" "vector_for n (v_ovec s)" "int (length v_subj) < 2 ^ 61"
    and "run_plain (run_of lib opt rex pos start v_subj False s) = (code, ov, ws)"
    and "0 < code" "code \<le> int n" "2 * nat code \<le> length ov"
    and "j < 2 * n" "j < 2 * nat code \<Longrightarrow> ov ! j = word_of_int x" "0 \<le> x" "x \<le> int (length v_subj) - start"
  shows "\<exists>s'. pcre2_match_stub0 lib opt rex pos start v_subj None False s = Inr (Inr (), s') \<and>
    v_ovec s' ! j = (if j < 2 * nat code then start + x else - 1)"
proof -
  from stub_plain_success [OF assms(1,2,4)] assms(5-7) obtain s' where
    s': "pcre2_match_stub0 lib opt rex pos start v_subj None False s = Inr (Inr (), s')"
    "v_ovec s' = map (\<lambda>w. Val_long (w + word_of_int start)) (take (2 * nat code) ov) @
      replicate (2 * n - 2 * nat code) (- 1) @ drop (2 * n) (v_ovec s)" by auto
  have "0 \<le> start" "start + x < 2 ^ 62" using assms(1,3,11) by (auto simp: args_ok_def)
  then have "Val_long (word_of_int x + word_of_int start) = start + x"
    using Val_long_small [of "start + x"] assms(10) by (simp add: add.commute)
  with s' assms(7-9) show ?thesis by (auto simp: nth_append min_absorb2)
qed

theorem match_offsets_witness:
  "\<exists>s'. pcre2_match_stub0 ex_lib 0 () 3 1 ''abcdef'' None False ex_pst = Inr (Inr (), s') \<and>
    v_ovec s' ! 1 = (if (1::nat) < 2 * nat 2 then 1 + 4 else - 1)"
  by (rule match_offsets [where n = 2 and ov = "[2, 4, - 1, - 1]" and ws = "[4, 5]"])
    (simp_all add: args_ok_def run_of_def engine_def ex_lib_def ex_found_def)

text \<open>A group that did not take part in the match is lost when the subject starts later in the
  string: its -1 is shifted by the start like a position, and the OCaml side, which tests for a
  negative offset, sees an empty match one byte before the start.\<close>

lemma unset_group_shifted:
  assumes "args_ok pos start v_subj" "vector_for n (v_ovec s)" "int (length v_subj) < 2 ^ 61"
    and "run_plain (run_of lib opt rex pos start v_subj False s) = (code, ov, ws)"
    and "0 < code" "code \<le> int n" "2 * nat code \<le> length ov"
    and "j < 2 * nat code" "ov ! j = PCRE2_UNSET"
  shows "\<exists>s'. pcre2_match_stub0 lib opt rex pos start v_subj None False s = Inr (Inr (), s') \<and>
    v_ovec s' ! j = start - 1"
proof -
  from stub_plain_success [OF assms(1,2,4)] assms(5-7) obtain s' where
    s': "pcre2_match_stub0 lib opt rex pos start v_subj None False s = Inr (Inr (), s')"
    "v_ovec s' = map (\<lambda>w. Val_long (w + word_of_int start)) (take (2 * nat code) ov) @
      replicate (2 * n - 2 * nat code) (- 1) @ drop (2 * n) (v_ovec s)" by auto
  have "Val_long (PCRE2_UNSET + word_of_int start) = start - 1"
  proof (cases "start = 0")
    case False
    then have "0 \<le> start - 1" "start - 1 < 2 ^ 62" using assms(1,3) by (auto simp: args_ok_def)
    from Val_long_small [OF this] show ?thesis by simp
  qed (simp add: Val_long_minus_1)
  with s' assms(7-9) show ?thesis by (simp add: nth_append min_absorb2)
qed

lemma unset_group_shifted_example:
  "\<exists>s'. pcre2_match_stub0 ex_lib 0 () 3 1 ''abcdef'' None False ex_pst = Inr (Inr (), s') \<and>
    v_ovec s' ! 2 = 1 - 1"
  by (rule unset_group_shifted [where n = 2 and code = 2 and ov = "[2, 4, - 1, - 1]" and ws = "[4, 5]"])
    (simp_all add: args_ok_def run_of_def engine_def ex_lib_def ex_found_def)

text \<open>A result of 0, by which the engine says that the vector was too small, counts as a success and
  leaves the OCaml vector as the caller made it.\<close>

lemma zero_result_keeps_vector:
  assumes "args_ok pos start v_subj" "vector_for n (v_ovec s)"
    and "run_plain (run_of lib opt rex pos start v_subj False s) = (0, ov, ws)"
  shows "\<exists>s'. pcre2_match_stub0 lib opt rex pos start v_subj None False s = Inr (Inr (), s') \<and> v_ovec s' = v_ovec s"
  using stub_plain_success [OF assms] by simp

lemma zero_result_keeps_vector_example:
  "\<exists>s'. pcre2_match_stub0 (ex_lib\<lparr>pcre2_match := (\<lambda>_ _ _ _. Finished 0 [] [])\<rparr>) 0 () 0 0 ''ab'' None False ex_pst =
      Inr (Inr (), s') \<and> v_ovec s' = v_ovec ex_pst"
  by (rule zero_result_keeps_vector [where n = 2]) (simp_all add: args_ok_def run_of_def engine_def)

text \<open>A DFA match with a callout function loses the engine's workspace: the array is overwritten
  with the contents of a block that was allocated and never filled.\<close>

lemma dfa_callout_workspace_uninitialised:
  assumes "args_ok pos start v_subj" "\<forall>i. stat_ok lib i" "vector_for n (v_ovec s)"
    and "engine_ok n (run_of lib opt rex pos start v_subj True s)"
    and "pcre2_match_stub0 lib opt rex pos start v_subj (Some f) True s = Inr (Inr (), s')"
  shows "v_workspace s' = map (stat_junk lib) [0..<length (v_workspace s)]"
  using stub_callouts_result [OF assms(1-4), of f] assms(5) by (auto split: if_splits)

lemma dfa_callout_workspace_uninitialised_example:
  "\<exists>s'. pcre2_match_stub0 ex_lib 0 () 3 1 ''abcdef'' (Some (ex_cof None)) True ex_pst = Inr (Inr (), s') \<and>
    v_workspace s' = map (stat_junk ex_lib) [0..<length (v_workspace ex_pst)]"
proof -
  have "case pcre2_match_stub0 ex_lib 0 () 3 1 ''abcdef'' (Some (ex_cof None)) True ex_pst of
      Inr (Inr v, s') \<Rightarrow> True | _ \<Rightarrow> False" by code_simp
  then obtain s' where r: "pcre2_match_stub0 ex_lib 0 () 3 1 ''abcdef'' (Some (ex_cof None)) True ex_pst = Inr (Inr (), s')"
    by (elim returnsE) auto
  with dfa_callout_workspace_uninitialised [OF _ _ _ _ r, of 2] show ?thesis by (simp add: args_ok_def)
qed

text \<open>Every negative code of the engine becomes the documented exception of the OCaml interface: the
  argument built in C decodes to the constructor that pcre2.ml gives for the code, and no code is
  lost.\<close>

lemma match_error_mapping:
  "handle_match_error loc code =
     (if code = - 1 then Not_found else Pcre2_Error (case handle_match_error loc code of Pcre2_Error a \<Rightarrow> a | _ \<Rightarrow> Const 9)) \<and>
   (case handle_match_error loc code of Pcre2_Error a \<Rightarrow> decode_error a | _ \<Rightarrow> None) =
     (if code = - 1 then None else if code = - 2 then Some Partial else if code = - 47 then Some MatchLimit
      else if code = - 36 then Some BadUTFOffset else if code = - 53 then Some DepthLimit
      else if code = - 43 then Some WorkspaceSize else if - 23 \<le> code \<and> code \<le> - 3 then Some BadUTF
      else Some (InternalError (take 99 (loc @ '': unhandled PCRE2 error code: '' @ decimal code))))"
  by (simp add: handle_match_error_def raise_partial_def raise_match_limit_def raise_bad_utf_offset_def
    raise_depth_limit_def raise_workspace_size_def raise_bad_utf_def raise_internal_error_def)

end
