(* ===== verification/PcreQuery.thy ===== *)
theory PcreQuery imports PcreData begin

text \<open>
  libs/pcre2/pcre2_stubs.c, third part: the questions about a pattern and about the library. The
  library's answers are parameters; its types are those of pcre2.h.
\<close>

section \<open>Questions about a pattern\<close>

datatype info = SIZE | CAPTURECOUNT | BACKREFMAX | NAMECOUNT | NAMEENTRYSIZE | ARGOPTIONS | FIRSTCODETYPE
  | FIRSTCODEUNIT | LASTCODETYPE | LASTCODEUNIT

text \<open>
  \<open>pattern_info\<close> returns a code and, when that is 0, stores the answer; \<open>nametable\<close> is the memory its
  pointer leads to.
\<close>

record 'r plib =
  pattern_info :: "'r \<Rightarrow> info \<Rightarrow> int \<times> nat"
  nametable :: "'r \<Rightarrow> int \<times> string"
  number_from_name :: "'r \<Rightarrow> string \<Rightarrow> int"

type_synonym 'a query = "pexn + 'a"

definition pcre2_pattern_info_stub :: "'r plib \<Rightarrow> 'r \<Rightarrow> info \<Rightarrow> string \<Rightarrow> nat query" where
  "pcre2_pattern_info_stub lib rex what msg =
     (let (code, x) = pattern_info lib rex what
      in if code \<noteq> 0 then Inl (raise_internal_error msg) else Inr x)"

text \<open>
  \<open>make_intnat_info\<close>: the preprocessor does not replace \<open>##name##\<close> inside a string, so the message is
  the same for all five. The answer goes through a \<open>size_t\<close> or an int.
\<close>

definition info_message :: string where
  "info_message = ''pcre2_##name##_stub''"

definition intnat_info :: "(nat \<Rightarrow> int) \<Rightarrow> info \<Rightarrow> 'r plib \<Rightarrow> 'r \<Rightarrow> int query" where
  "intnat_info conv what lib rex = rbind (pcre2_pattern_info_stub lib rex what info_message) (\<lambda>x. Inr (conv x))"

definition size_t_conv :: "nat \<Rightarrow> int" where
  "size_t_conv x = sint (of_nat x :: 64 word)"

definition int_conv :: "nat \<Rightarrow> int" where
  "int_conv x = s32 (int x)"

definition pcre2_size_stub :: "'r plib \<Rightarrow> 'r \<Rightarrow> int query" where
  "pcre2_size_stub = intnat_info size_t_conv SIZE"

definition pcre2_capturecount_stub :: "'r plib \<Rightarrow> 'r \<Rightarrow> int query" where
  "pcre2_capturecount_stub = intnat_info int_conv CAPTURECOUNT"

definition pcre2_backrefmax_stub :: "'r plib \<Rightarrow> 'r \<Rightarrow> int query" where
  "pcre2_backrefmax_stub = intnat_info int_conv BACKREFMAX"

definition pcre2_namecount_stub :: "'r plib \<Rightarrow> 'r \<Rightarrow> int query" where
  "pcre2_namecount_stub = intnat_info int_conv NAMECOUNT"

definition pcre2_nameentrysize_stub :: "'r plib \<Rightarrow> 'r \<Rightarrow> int query" where
  "pcre2_nameentrysize_stub = intnat_info int_conv NAMEENTRYSIZE"

definition pcre2_argoptions_stub :: "'r plib \<Rightarrow> 'r \<Rightarrow> int query" where
  "pcre2_argoptions_stub lib rex =
     rbind (pcre2_pattern_info_stub lib rex ARGOPTIONS ''pcre2_argoptions_stub'') (\<lambda>x. Inr (int x mod 2 ^ 32))"

datatype firstcode = Start_only | ANCHORED | Char int

definition pcre2_firstcodeunit_stub :: "'r plib \<Rightarrow> 'r \<Rightarrow> firstcode query" where
  "pcre2_firstcodeunit_stub lib rex =
     rbind (pcre2_pattern_info_stub lib rex FIRSTCODETYPE ''pcre2_firstcodeunit_stub'') (\<lambda>t.
       if t = 2 then Inr Start_only
       else if t = 0 then Inr ANCHORED
       else if t = 1
       then rbind (pcre2_pattern_info_stub lib rex FIRSTCODEUNIT ''pcre2_firstcodeunit_stub'') (\<lambda>u.
            Inr (Char (int u)))
       else Inl (raise_internal_error ''pcre2_firstcodeunit_stub''))"

definition pcre2_lastcodeunit_stub :: "'r plib \<Rightarrow> 'r \<Rightarrow> int option query" where
  "pcre2_lastcodeunit_stub lib rex =
     rbind (pcre2_pattern_info_stub lib rex LASTCODETYPE ''pcre2_lastcodeunit_stub'') (\<lambda>t.
       if t = 0 then Inr None
       else if t \<noteq> 1 then Inl (raise_internal_error ''pcre2_lastcodeunit_stub'')
       else rbind (pcre2_pattern_info_stub lib rex LASTCODEUNIT ''pcre2_lastcodeunit_stub'') (\<lambda>u. Inr (Some (int u))))"

definition pcre2_substring_number_from_name_stub :: "'r plib \<Rightarrow> 'r \<Rightarrow> string \<Rightarrow> int query" where
  "pcre2_substring_number_from_name_stub lib rex name =
     (let code = number_from_name lib rex name
      in if code = PCRE2_ERROR_NOSUBSTRING then Inl (Invalid_argument ''Named string not found'') else Inr code)"

text \<open>A C string in the name table; running past the table's end is undefined.\<close>

definition c_string_at :: "string \<Rightarrow> nat \<Rightarrow> c_fault + string" where
  "c_string_at mem off =
     (if CHR 0x00 \<in> set (drop off mem) then Inr (takeWhile (\<lambda>c. c \<noteq> CHR 0x00) (drop off mem))
      else Inl (Undef ''name table''))"

fun read_names :: "string \<Rightarrow> nat \<Rightarrow> nat \<Rightarrow> nat \<Rightarrow> c_fault + string list" where
  "read_names mem entry_size off 0 = Inr []"
| "read_names mem entry_size off (Suc n) =
     rbind (c_string_at mem (off + 2)) (\<lambda>name.
     rbind (read_names mem entry_size (off + entry_size) n) (\<lambda>names. Inr (name # names)))"

definition pcre2_names_stub :: "'r plib \<Rightarrow> 'r \<Rightarrow> c_fault + string list query" where
  "pcre2_names_stub lib rex =
     (case pcre2_pattern_info_stub lib rex NAMECOUNT ''pcre2_names_stub: namecount'' of
        Inl e \<Rightarrow> Inr (Inl e)
      | Inr name_count \<Rightarrow>
     (case pcre2_pattern_info_stub lib rex NAMEENTRYSIZE ''pcre2_names_stub: nameentrysize'' of
        Inl e \<Rightarrow> Inr (Inl e)
      | Inr entry_size \<Rightarrow>
          let (code, tbl) = nametable lib rex
          in if code \<noteq> 0 then Inr (Inl (raise_internal_error ''pcre2_names_stub: nametable''))
             else rbind (read_names tbl entry_size 0 name_count) (\<lambda>names. Inr (Inr names))))"

section \<open>Questions about the library\<close>

text \<open>
  \<open>pcre2_config\<close> stores 32 bits (and text for the version). An int is covered by them; of a long they
  are the low half, the high half stays as the stack left it.
\<close>

definition pcre2_config_int :: "32 word \<Rightarrow> int" where
  "pcre2_config_int stored = sint stored"

definition pcre2_config_long :: "64 word \<Rightarrow> 32 word \<Rightarrow> int" where
  "pcre2_config_long junk stored = sint ((junk AND NOT (mask 32)) OR ucast stored)"

datatype config_item = UNICODE | NEWLINE | LINKSIZE | MATCHLIMIT | DEPTHLIMIT | STACKRECURSE

record config =
  stored_config :: "config_item \<Rightarrow> 32 word"
  stack_junk :: "config_item \<Rightarrow> 64 word"

definition pcre2_config_unicode_stub :: "config \<Rightarrow> bool" where
  "pcre2_config_unicode_stub c \<longleftrightarrow> pcre2_config_int (stored_config c UNICODE) \<noteq> 0"

definition pcre2_config_newline_stub :: "config \<Rightarrow> int" where
  "pcre2_config_newline_stub c = pcre2_config_int (stored_config c NEWLINE)"

definition pcre2_config_link_size_stub :: "config \<Rightarrow> int" where
  "pcre2_config_link_size_stub c = pcre2_config_int (stored_config c LINKSIZE)"

definition pcre2_config_match_limit_stub :: "config \<Rightarrow> int" where
  "pcre2_config_match_limit_stub c = pcre2_config_long (stack_junk c MATCHLIMIT) (stored_config c MATCHLIMIT)"

definition pcre2_config_depth_limit_stub :: "config \<Rightarrow> int" where
  "pcre2_config_depth_limit_stub c = pcre2_config_long (stack_junk c DEPTHLIMIT) (stored_config c DEPTHLIMIT)"

definition pcre2_config_stackrecurse_stub :: "config \<Rightarrow> bool" where
  "pcre2_config_stackrecurse_stub c \<longleftrightarrow> pcre2_config_int (stored_config c STACKRECURSE) \<noteq> 0"

text \<open>\<open>isspace\<close> of the C locale.\<close>

definition pcre2_isspace_stub :: "int \<Rightarrow> bool" where
  "pcre2_isspace_stub c \<longleftrightarrow> c = 32 \<or> (9 \<le> c \<and> c \<le> 13)"

text \<open>The version: a fresh string of 32 bytes into which the library writes text and a zero.\<close>

definition pcre2_version_stub :: "string \<Rightarrow> string \<Rightarrow> c_fault + string" where
  "pcre2_version_stub junk version =
     (if length junk = 32 \<and> length version < 32 then Inr (version @ [CHR 0x00] @ drop (length version + 1) junk)
      else Inl (Undef ''string overflow''))"

section \<open>The name table\<close>

text \<open>An entry: two bytes with the number, the name, a zero, and padding to the entry size.\<close>

definition name_entry :: "nat \<Rightarrow> (char \<times> char) \<times> string \<Rightarrow> string" where
  "name_entry esize e = (case e of ((hi, lo), name) \<Rightarrow>
     [hi, lo] @ name @ replicate (esize - 2 - length name) (CHR 0x00))"

definition entry_fits :: "nat \<Rightarrow> (char \<times> char) \<times> string \<Rightarrow> bool" where
  "entry_fits esize e \<longleftrightarrow> length (snd e) + 3 \<le> esize \<and> CHR 0x00 \<notin> set (snd e)"

lemma length_name_entry: "entry_fits esize e \<Longrightarrow> length (name_entry esize e) = esize"
  by (auto simp: name_entry_def entry_fits_def split: prod.splits)

lemma c_string_at_entry:
  assumes "entry_fits esize e"
  shows "c_string_at (pre @ name_entry esize e @ post) (length pre + 2) = Inr (snd e)"
proof -
  obtain h l name where e: "e = ((h, l), name)" by (metis prod.collapse)
  have "esize - 2 - length name = Suc (esize - 3 - length name)" using assms by (auto simp: entry_fits_def e)
  then have "drop (length pre + 2) (pre @ name_entry esize e @ post) =
      name @ CHR 0x00 # (replicate (esize - 3 - length name) (CHR 0x00) @ post)"
    by (simp add: name_entry_def e)
  with assms show ?thesis unfolding c_string_at_def by (simp add: entry_fits_def e)
qed

lemma read_names_entries:
  "list_all (entry_fits esize) es \<Longrightarrow>
     read_names (pre @ concat (map (name_entry esize) es)) esize (length pre) (length es) = Inr (map snd es)"
proof (induction es arbitrary: pre)
  case (Cons e es)
  have "read_names ((pre @ name_entry esize e) @ concat (map (name_entry esize) es)) esize
      (length (pre @ name_entry esize e)) (length es) = Inr (map snd es)"
    using Cons.prems by (intro Cons.IH) simp
  moreover have "length (name_entry esize e) = esize" using Cons.prems length_name_entry by simp
  moreover have "c_string_at (pre @ name_entry esize e @ concat (map (name_entry esize) es)) (length pre + 2) = Inr (snd e)"
    using Cons.prems by (intro c_string_at_entry) simp
  ultimately show ?case by simp
qed simp

lemma other_errors_are_numbers:
  "number_from_name lib rex name = code \<Longrightarrow> code \<noteq> PCRE2_ERROR_NOSUBSTRING \<Longrightarrow>
     pcre2_substring_number_from_name_stub lib rex name = Inr code"
  by (simp add: pcre2_substring_number_from_name_stub_def)

section \<open>Properties\<close>

text \<open>The names of the groups are read from the library's table as it is laid out, whatever the
  numbers in front of the names and the entry size.\<close>

lemma names_stub_reads_table:
  assumes "list_all (entry_fits esize) es"
    and "pattern_info lib rex NAMECOUNT = (0, length es)" "pattern_info lib rex NAMEENTRYSIZE = (0, esize)"
    and "nametable lib rex = (0, concat (map (name_entry esize) es))"
  shows "pcre2_names_stub lib rex = Inr (Inr (map snd es))"
  using read_names_entries [OF assms(1), of "[]"] assms(2-4)
  by (simp add: pcre2_names_stub_def pcre2_pattern_info_stub_def)

lemma names_stub_reads_table_example:
  "pcre2_names_stub \<lparr>pattern_info = (\<lambda>_ i. if i = NAMECOUNT then (0, 2) else (0, 8)),
      nametable = (\<lambda>_. (0, concat (map (name_entry 8) [((CHR 0x00, CHR 0x01), ''year''), ((CHR 0x00, CHR 0x02), ''mo'')]))),
      number_from_name = (\<lambda>_ _. 0)\<rparr> () =
    Inr (Inr (map snd [((CHR 0x00, CHR 0x01), ''year''), ((CHR 0x00, CHR 0x02), ''mo'')]))"
  by (rule names_stub_reads_table [where esize = 8]) (simp_all add: entry_fits_def)

text \<open>The match and depth limits are read into a long of which the library sets only 32 bits: the
  answer is right exactly when the other half of the uninitialised variable happens to be zero.\<close>

lemma config_long_half_initialised:
  "pcre2_config_long junk stored = uint stored \<longleftrightarrow> junk AND NOT (mask 32) = 0"
proof -
  let ?w = "(junk AND NOT (mask 32)) OR ucast stored"
  have bits: "bit ?w i \<longleftrightarrow> i < 64 \<and> (if i < 32 then bit stored i else bit junk i)" for i
    by (auto simp: bit_simps dest: bit_imp_le_length)
  have v: "sint (ucast stored :: 64 word) = uint stored"
  proof -
    have u: "uint (ucast stored :: 64 word) = uint stored" by (rule uint_up_ucast) (simp add: is_up)
    have lo: "- (2 ^ 63) \<le> uint stored" by (rule order_trans [OF _ uint_ge_0]) simp
    have "uint stored < 2 ^ 32" using uint_lt2p [of stored] by simp
    then have hi: "uint stored < 2 ^ 63" by (rule less_le_trans) simp
    have "sint (ucast stored :: 64 word) = signed_take_bit 63 (uint stored)"
      by (simp only: sint_uint u) simp
    also have "\<dots> = uint stored" by (rule signed_take_bit_int_eq_self) (rule lo hi)+
    finally show ?thesis .
  qed
  have "pcre2_config_long junk stored = uint stored \<longleftrightarrow> ?w = ucast stored"
    using v by (metis pcre2_config_long_def signed_word_eqI)
  also have "\<dots> \<longleftrightarrow> junk AND NOT (mask 32) = 0"
  proof
    assume eq: "?w = ucast stored"
    show "junk AND NOT (mask 32) = 0"
    proof (rule bit_word_eqI)
      fix i
      assume "i < LENGTH(64)"
      have "bit ?w i = bit (ucast stored :: 64 word) i" by (simp add: eq)
      moreover have "bit (ucast stored :: 64 word) i \<longleftrightarrow> i < 64 \<and> bit stored i" by (simp add: bit_simps)
      moreover have "bit stored i \<Longrightarrow> i < 32" by (drule bit_imp_le_length) simp
      ultimately have "\<not> (i \<ge> 32 \<and> bit junk i)" using bits [of i] \<open>i < LENGTH(64)\<close> by auto
      then show "bit (junk AND NOT (mask 32)) i = bit (0 :: 64 word) i"
        by (auto simp: bit_and_iff bit_not_iff bit_mask_iff)
    qed
  qed simp
  finally show ?thesis .
qed

end
