(* ===== verification/PcreCompile.thy ===== *)
theory PcreCompile imports PcreData begin

text \<open>
  libs/pcre2/pcre2_stubs.c, fourth part: compiling patterns, their limits, character tables, and the
  finalisers with which the garbage collector returns them to the library.
\<close>

section \<open>State\<close>

datatype regexp_resource = Compile_context | Code | Context | Tables

text \<open>
  A regexp is a custom block with the code and a match context. The code keeps the pointer to the
  tables it was compiled with (pcre2api), here the handle of their block.
\<close>

record 'r regexp =
  rex :: 'r
  match_limit :: "32 word option"
  depth_limit :: "32 word option"
  char_tables :: "nat option"

text \<open>The blocks that OCaml has made, \<open>None\<close> after finalisation, and the library objects alive.\<close>

record ('r, 't) regs =
  regexps :: "'r regexp option list"
  tables :: "'t option list"
  held :: "regexp_resource multiset"

section \<open>Operations\<close>

definition get_tables :: "('r, 't) regs \<Rightarrow> nat \<Rightarrow> c_fault + 't" where
  "get_tables s h =
     (if h < length (tables s)
      then (case tables s ! h of None \<Rightarrow> Inl (Undef ''freed tables'') | Some t \<Rightarrow> Inr t)
      else Inl (Undef ''invalid handle''))"

definition pcre2_maketables_stub :: "'t \<Rightarrow> (('r, 't) regs, pexn, nat) prim" where
  "pcre2_maketables_stub t s =
     Inr (Inr (length (tables s)), s\<lparr>tables := tables s @ [Some t], held := add_mset Tables (held s)\<rparr>)"

text \<open>
  The compiler is a parameter: pattern, 32-bit options and tables give an error number with its
  offset or a code.
\<close>

type_synonym ('r, 't) compiler = "string \<Rightarrow> 32 word \<Rightarrow> 't option \<Rightarrow> (int \<times> int) + 'r"

text \<open>The compile context, a null pointer without tables.\<close>

definition make_ccontext :: "nat option \<Rightarrow> ('r, 't) regs \<Rightarrow> c_fault + 't option \<times> ('r, 't) regs" where
  "make_ccontext v_tables s =
     (case v_tables of
        None \<Rightarrow> Inr (None, s)
      | Some h \<Rightarrow> rbind (get_tables s h) (\<lambda>t. Inr (Some t, s\<lparr>held := add_mset Compile_context (held s)\<rparr>)))"

definition pcre2_compile_stub ::
  "('r, 't) compiler \<Rightarrow> (int \<Rightarrow> string) \<Rightarrow> int \<Rightarrow> nat option \<Rightarrow> string \<Rightarrow> (('r, 't) regs, pexn, nat) prim" where
  "pcre2_compile_stub compile get_message opt v_tables pat s =
     rbind (make_ccontext v_tables s) (\<lambda>(ccontext, s).
       let result = compile pat (word_of_int opt) ccontext;
           s = (if ccontext = None then s else s\<lparr>held := held s - {#Compile_context#}\<rparr>)
       in case result of
            Inl (code, ofs) \<Rightarrow> Inr (Inl (raise_bad_pattern get_message code ofs), s)
          | Inr r \<Rightarrow> Inr (Inr (length (regexps s)),
              s\<lparr>regexps := regexps s @ [Some \<lparr>rex = r, match_limit = None, depth_limit = None, char_tables = v_tables\<rparr>],
                held := held s + {#Code, Context#}\<rparr>))"

definition on_regexp :: "nat \<Rightarrow> ('r regexp \<Rightarrow> 'r regexp) \<Rightarrow> (('r, 't) regs, pexn, nat) prim" where
  "on_regexp h f s =
     (if h < length (regexps s)
      then (case regexps s ! h of None \<Rightarrow> Inl (Undef ''finalised'')
            | Some r \<Rightarrow> Inr (Inr h, s\<lparr>regexps := (regexps s)[h := Some (f r)]\<rparr>))
      else Inl (Undef ''invalid handle''))"

definition pcre2_set_imp_match_limit_stub :: "nat \<Rightarrow> int \<Rightarrow> (('r, 't) regs, pexn, nat) prim" where
  "pcre2_set_imp_match_limit_stub h lim = on_regexp h (\<lambda>r. r\<lparr>match_limit := Some (word_of_int lim)\<rparr>)"

definition pcre2_set_imp_depth_limit_stub :: "nat \<Rightarrow> int \<Rightarrow> (('r, 't) regs, pexn, nat) prim" where
  "pcre2_set_imp_depth_limit_stub h lim = on_regexp h (\<lambda>r. r\<lparr>depth_limit := Some (word_of_int lim)\<rparr>)"

text \<open>The finalisers, which the garbage collector runs once for an unreachable block.\<close>

definition pcre2_dealloc_regexp :: "nat \<Rightarrow> (('r, 't) regs, pexn, unit) prim" where
  "pcre2_dealloc_regexp h s =
     (if h < length (regexps s) \<and> regexps s ! h \<noteq> None \<and> {#Code, Context#} \<subseteq># held s
      then Inr (Inr (), s\<lparr>regexps := (regexps s)[h := None], held := held s - {#Code, Context#}\<rparr>)
      else Inl (Undef ''double free''))"

definition pcre2_dealloc_tables :: "nat \<Rightarrow> (('r, 't) regs, pexn, unit) prim" where
  "pcre2_dealloc_tables h s =
     (if h < length (tables s) \<and> tables s ! h \<noteq> None \<and> Tables \<in># held s
      then Inr (Inr (), s\<lparr>tables := (tables s)[h := None], held := held s - {#Tables#}\<rparr>)
      else Inl (Undef ''double free''))"

text \<open>What a match with a pattern reads: its block and the tables the code points to.\<close>

definition match_memory_ok :: "('r, 't) regs \<Rightarrow> nat \<Rightarrow> bool" where
  "match_memory_ok s h \<longleftrightarrow>
     h < length (regexps s) \<and>
     (case regexps s ! h of
        None \<Rightarrow> False
      | Some r \<Rightarrow> (case char_tables r of None \<Rightarrow> True
                  | Some t \<Rightarrow> t < length (tables s) \<and> tables s ! t \<noteq> None))"

section \<open>The state machine of compiled patterns\<close>

inductive rstep :: "('r, 't) compiler \<Rightarrow> (int \<Rightarrow> string) \<Rightarrow> ('r, 't) regs \<Rightarrow> ('r, 't) regs \<Rightarrow> bool"
  for compile get_message where
  compile: "pcre2_compile_stub compile get_message opt v_tables pat s = Inr (r, s') \<Longrightarrow> rstep compile get_message s s'"
| maketables: "pcre2_maketables_stub t s = Inr (r, s') \<Longrightarrow> rstep compile get_message s s'"
| match_limit: "pcre2_set_imp_match_limit_stub h lim s = Inr (r, s') \<Longrightarrow> rstep compile get_message s s'"
| depth_limit: "pcre2_set_imp_depth_limit_stub h lim s = Inr (r, s') \<Longrightarrow> rstep compile get_message s s'"
| dealloc_regexp: "pcre2_dealloc_regexp h s = Inr (u, s') \<Longrightarrow> rstep compile get_message s s'"
| dealloc_tables: "pcre2_dealloc_tables h s = Inr (u, s') \<Longrightarrow> rstep compile get_message s s'"

inductive_cases rstepE: "rstep compile get_message s s'"

text \<open>
  Exactly the live blocks hold library objects: a code and a context, or tables. No compile context
  outlives a call.
\<close>

definition live_count :: "'a option list \<Rightarrow> nat" where
  "live_count rs = length (filter (\<lambda>r. r \<noteq> None) rs)"

definition block_resources :: "('r, 't) regs \<Rightarrow> regexp_resource multiset" where
  "block_resources s =
     replicate_mset (live_count (regexps s)) Code + replicate_mset (live_count (regexps s)) Context +
     replicate_mset (live_count (tables s)) Tables"

definition balanced :: "('r, 't) regs \<Rightarrow> bool" where
  "balanced s \<longleftrightarrow> held s = block_resources s"

lemma live_count_Nil [simp]: "live_count [] = 0"
  by (simp add: live_count_def)

lemma live_count_append [simp]: "live_count (rs @ [Some r]) = Suc (live_count rs)"
  by (simp add: live_count_def)

lemma live_count_update_Some [simp]:
  "h < length rs \<Longrightarrow> rs ! h \<noteq> None \<Longrightarrow> live_count (rs[h := Some r]) = live_count rs"
  by (induction rs arbitrary: h) (auto simp: live_count_def nth_Cons split: nat.splits)

lemma live_count_update_None:
  "h < length rs \<Longrightarrow> rs ! h \<noteq> None \<Longrightarrow> live_count rs = Suc (live_count (rs[h := None]))"
  by (induction rs arbitrary: h) (auto simp: live_count_def nth_Cons split: nat.splits)

lemmas balance_defs = balanced_def block_resources_def

lemma on_regexp_balanced: "on_regexp h f s = Inr (r, s') \<Longrightarrow> balanced s \<Longrightarrow> balanced s'"
  by (auto simp: on_regexp_def balance_defs split: if_splits option.splits)

text \<open>Compiling without its context: what remains of the call.\<close>

lemma compile_stub_cases:
  "pcre2_compile_stub compile get_message opt v_tables pat s =
     (case (case v_tables of None \<Rightarrow> Inr None | Some h \<Rightarrow> rbind (get_tables s h) (\<lambda>t. Inr (Some t))) of
        Inl c \<Rightarrow> Inl c
      | Inr ts \<Rightarrow>
     (case compile pat (word_of_int opt) ts of
        Inl e \<Rightarrow> Inr (Inl (raise_bad_pattern get_message (fst e) (snd e)), s)
      | Inr r \<Rightarrow> Inr (Inr (length (regexps s)),
          s\<lparr>regexps := regexps s @ [Some \<lparr>rex = r, match_limit = None, depth_limit = None, char_tables = v_tables\<rparr>],
            held := held s + {#Code, Context#}\<rparr>)))"
proof (cases v_tables)
  case None
  then show ?thesis
    by (cases "compile pat (word_of_int opt) None")
      (simp_all add: pcre2_compile_stub_def make_ccontext_def split: prod.splits)
next
  case (Some h)
  then show ?thesis
  proof (cases "get_tables s h")
    case (Inr t)
    with Some show ?thesis
      by (cases "compile pat (word_of_int opt) (Some t)")
        (simp_all add: pcre2_compile_stub_def make_ccontext_def split: prod.splits)
  qed (simp add: pcre2_compile_stub_def make_ccontext_def)
qed

lemma compile_balanced:
  "pcre2_compile_stub compile get_message opt v_tables pat s = Inr (r, s') \<Longrightarrow> balanced s \<Longrightarrow> balanced s'"
  by (auto simp: compile_stub_cases balance_defs split: sum.splits)

lemma maketables_balanced: "pcre2_maketables_stub t s = Inr (r, s') \<Longrightarrow> balanced s \<Longrightarrow> balanced s'"
  by (auto simp: pcre2_maketables_stub_def balance_defs)

lemma dealloc_regexp_balanced: "pcre2_dealloc_regexp h s = Inr (u, s') \<Longrightarrow> balanced s \<Longrightarrow> balanced s'"
  using live_count_update_None [of h "regexps s"]
  by (auto simp: pcre2_dealloc_regexp_def balance_defs split: if_splits)

lemma dealloc_tables_balanced: "pcre2_dealloc_tables h s = Inr (u, s') \<Longrightarrow> balanced s \<Longrightarrow> balanced s'"
  using live_count_update_None [of h "tables s"]
  by (auto simp: pcre2_dealloc_tables_def balance_defs split: if_splits)

lemma rstep_balanced: "rstep compile get_message s s' \<Longrightarrow> balanced s \<Longrightarrow> balanced s'"
  by (auto elim!: rstepE simp: pcre2_set_imp_match_limit_stub_def pcre2_set_imp_depth_limit_stub_def
    intro: on_regexp_balanced compile_balanced maketables_balanced dealloc_regexp_balanced dealloc_tables_balanced)

text \<open>In a balanced state the finaliser of a live block always succeeds.\<close>

lemma live_count_pos: "h < length rs \<Longrightarrow> rs ! h \<noteq> None \<Longrightarrow> 0 < live_count rs"
  using live_count_update_None by fastforce

lemma dealloc_tables_ok:
  "balanced s \<Longrightarrow> h < length (tables s) \<Longrightarrow> tables s ! h \<noteq> None \<Longrightarrow>
     pcre2_dealloc_tables h s = Inr (Inr (), s\<lparr>tables := (tables s)[h := None], held := held s - {#Tables#}\<rparr>)"
  using live_count_pos [of h "tables s"]
  by (auto simp: pcre2_dealloc_tables_def balance_defs)

lemma dealloc_regexp_ok:
  "balanced s \<Longrightarrow> h < length (regexps s) \<Longrightarrow> regexps s ! h \<noteq> None \<Longrightarrow>
     pcre2_dealloc_regexp h s = Inr (Inr (), s\<lparr>regexps := (regexps s)[h := None], held := held s - {#Code, Context#}\<rparr>)"
  using live_count_pos [of h "regexps s"]
  by (cases "live_count (regexps s)") (auto simp: pcre2_dealloc_regexp_def balance_defs subset_mset.add_increasing2)

text \<open>A pattern (\<open>Inl\<close>) or a table set (\<open>Inr\<close>) that is still there, and its finaliser.\<close>

fun block_live :: "('r, 't) regs \<Rightarrow> nat + nat \<Rightarrow> bool" where
  "block_live s (Inl h) \<longleftrightarrow> h < length (regexps s) \<and> regexps s ! h \<noteq> None"
| "block_live s (Inr h) \<longleftrightarrow> h < length (tables s) \<and> tables s ! h \<noteq> None"

fun block_finalize :: "nat + nat \<Rightarrow> (('r, 't) regs, pexn, unit) prim" where
  "block_finalize (Inl h) = pcre2_dealloc_regexp h"
| "block_finalize (Inr h) = pcre2_dealloc_tables h"

lemma block_finalize_ok: "balanced s \<Longrightarrow> block_live s b \<Longrightarrow> \<exists>s'. block_finalize b s = Inr (Inr (), s')"
  by (cases b) (auto simp: dealloc_regexp_ok dealloc_tables_ok)

lemma block_finalize_step: "block_finalize b s = Inr (r, s') \<Longrightarrow> rstep compile get_message s s'"
  by (cases b) (auto intro: rstep.intros)

lemma block_finalize_live:
  "block_finalize b s = Inr (Inr (), s') \<Longrightarrow> block_live s' c \<longleftrightarrow> block_live s c \<and> c \<noteq> b"
  by (cases b; cases c) (auto simp: pcre2_dealloc_regexp_def pcre2_dealloc_tables_def nth_list_update split: if_splits)

interpretation regs: finalised "rstep compile get_message" balanced block_live block_finalize
  using block_finalize_ok block_finalize_step block_finalize_live rstep_balanced by unfold_locales blast+

lemmas reachable_balanced = regs.always

section \<open>Properties\<close>

text \<open>C16: no compiled pattern or table set leaks and none is freed twice. Whatever a program compiles,
  with and without character tables, successfully or not, limits or drops, the library objects alive
  are one code and one match context for each pattern that OCaml still reaches and one object for
  each table set.\<close>

theorem compiled_patterns_balanced:
  assumes "(rstep compile get_message)\<^sup>*\<^sup>* s s'" "regexps s = []" "tables s = []" "held s = {#}"
  shows "held s' = block_resources s'"
proof -
  have "balanced s" using assms(2-4) by (simp add: balance_defs)
  with assms(1) show ?thesis using reachable_balanced by (auto simp: balanced_def)
qed

definition ex_compile :: "(nat, bool) compiler" where
  "ex_compile pat opt ts = (if pat = ''('' then Inl (114, 1) else Inr (length pat))"

definition ex_regs :: "(nat, bool) regs" where
  "ex_regs = \<lparr>regexps = [], tables = [], held = {#}\<rparr>"

definition ex_regs1 :: "(nat, bool) regs" where
  "ex_regs1 = \<lparr>regexps = [], tables = [Some True], held = {#Tables#}\<rparr>"

definition ex_regs2 :: "(nat, bool) regs" where
  "ex_regs2 = \<lparr>regexps = [Some \<lparr>rex = 2, match_limit = None, depth_limit = None, char_tables = Some 0\<rparr>],
     tables = [Some True], held = {#Tables, Code, Context#}\<rparr>"

lemmas ex_regs_defs = ex_regs_def ex_regs1_def ex_regs2_def

lemma ex_regs_steps:
  "pcre2_maketables_stub True ex_regs = Inr (Inr 0, ex_regs1)"
  "pcre2_compile_stub ex_compile msg 0 (Some 0) ''('' ex_regs1 = Inr (Inl (raise_bad_pattern msg 114 1), ex_regs1)"
  "pcre2_compile_stub ex_compile msg 0 (Some 0) ''ab'' ex_regs1 = Inr (Inr 0, ex_regs2)"
  by (simp_all add: pcre2_maketables_stub_def pcre2_compile_stub_def make_ccontext_def get_tables_def ex_compile_def
    ex_regs_defs Let_def)

theorem compiled_patterns_balanced_witness:
  "(rstep ex_compile (\<lambda>_. []))\<^sup>*\<^sup>* ex_regs ex_regs2 \<and> held ex_regs2 = block_resources ex_regs2 \<and>
    held ex_regs2 = {#Code, Context, Tables#}"
proof -
  have "rstep ex_compile (\<lambda>_. []) ex_regs ex_regs1" "rstep ex_compile (\<lambda>_. []) ex_regs1 ex_regs2"
    using ex_regs_steps by (blast intro: rstep.intros)+
  then have r: "(rstep ex_compile (\<lambda>_. []))\<^sup>*\<^sup>* ex_regs ex_regs2" by auto
  from compiled_patterns_balanced [OF r] have "held ex_regs2 = block_resources ex_regs2" by (simp add: ex_regs_def)
  with r show ?thesis by (auto simp: ex_regs2_def)
qed



end
