(* ===== verification/PcreEntry.thy ===== *)
theory PcreEntry imports PcreStubs PcreQuery PcreCompile begin

text \<open>
  libs/pcre2/pcre2_stubs.c, the ways in: the registration of the exceptions, which every error needs,
  and the entry points that bytecode programs use instead of the stubs.
\<close>

section \<open>Registration\<close>

text \<open>The static variables; \<open>None\<close> is a null pointer.\<close>

record caches =
  pcre2_exc_Error :: "string option"
  pcre2_exc_Backtrack :: "string option"
  variants :: "int option \<times> int option \<times> int option"

definition caches_start :: caches where
  "caches_start = \<lparr>pcre2_exc_Error = None, pcre2_exc_Backtrack = None, variants = (None, None, None)\<rparr>"

text \<open>
  \<open>named\<close>: what OCaml registered by \<open>Callback.register_exception\<close>; \<open>hash_variant\<close>: the number of a
  polymorphic variant.
\<close>

definition pcre2_ocaml_init :: "(string \<Rightarrow> string option) \<Rightarrow> (string \<Rightarrow> int) \<Rightarrow> caches \<Rightarrow> caches" where
  "pcre2_ocaml_init named hash_variant c =
     c\<lparr>pcre2_exc_Error := named ''Pcre2.Error'', pcre2_exc_Backtrack := named ''Pcre2.Backtrack'',
       variants := (Some (hash_variant ''Start_only''), Some (hash_variant ''ANCHORED''), Some (hash_variant ''Char''))\<rparr>"

definition raise_pcre2_error :: "caches \<Rightarrow> ml_arg \<Rightarrow> c_fault + string \<times> ml_arg" where
  "raise_pcre2_error c v_arg =
     (case pcre2_exc_Error c of None \<Rightarrow> Inl (Undef ''null pointer'') | Some e \<Rightarrow> Inr (e, v_arg))"

text \<open>pcre2.ml registers both exceptions and then calls \<open>pcre2_ocaml_init\<close>; an error before that, or one
  whose exception was not registered, dereferences a null pointer.\<close>

lemma errors_after_init:
  assumes "named ''Pcre2.Error'' = Some e"
  shows "raise_pcre2_error (pcre2_ocaml_init named hash_variant c) v_arg = Inr (e, v_arg)"
    and "raise_pcre2_error caches_start v_arg = Inl (Undef ''null pointer'')"
  using assms by (simp_all add: raise_pcre2_error_def pcre2_ocaml_init_def caches_start_def)

section \<open>Matching from bytecode\<close>

text \<open>The positions go through \<open>Int_val\<close>, an \<open>int\<close>; compiled programs pass them unchanged.\<close>

definition pcre2_match_stub_bc ::
  "'r pcre \<Rightarrow> int \<Rightarrow> 'r \<Rightarrow> int \<Rightarrow> int \<Rightarrow> string \<Rightarrow> 'u cof option \<Rightarrow> ('u pst, pexn, unit) prim" where
  "pcre2_match_stub_bc lib opt pat pos start v_subj maybe_cof =
     pcre2_match_stub0 lib opt pat (s32 pos) (s32 start) v_subj maybe_cof False"

definition pcre2_dfa_match_stub_bc ::
  "'r pcre \<Rightarrow> int \<Rightarrow> 'r \<Rightarrow> int \<Rightarrow> int \<Rightarrow> string \<Rightarrow> 'u cof option \<Rightarrow> ('u pst, pexn, unit) prim" where
  "pcre2_dfa_match_stub_bc lib opt pat pos start v_subj maybe_cof =
     pcre2_match_stub0 lib opt pat (s32 pos) (s32 start) v_subj maybe_cof True"

lemma s32_add: "s32 (x + 2 ^ 32) = s32 x"
proof -
  have "x + 2 ^ 32 + 2 ^ 31 = (x + 2 ^ 31) + 2 ^ 32" by simp
  then show ?thesis unfolding s32_def by (simp only: mod_add_self2)
qed

lemma s32_mod: "s32 x mod 2 ^ 32 = x mod 2 ^ 32"
  unfolding s32_def by (subst mod_diff_left_eq) simp

lemma bytecode_match_agrees:
  assumes "- (2 ^ 31) \<le> pos" "pos < 2 ^ 31" "- (2 ^ 31) \<le> start" "start < 2 ^ 31"
  shows "pcre2_match_stub_bc lib opt pat pos start v_subj cof = pcre2_match_stub lib opt pat pos start v_subj cof"
  using assms by (simp add: pcre2_match_stub_bc_def pcre2_match_stub_def)

text \<open>So a position far outside of the subject, which the compiled stub rejects, starts a match.\<close>

lemma bytecode_match_wraps:
  assumes "0 \<le> pos" "pos \<le> int (length v_subj)" "length v_subj < 2 ^ 31"
  shows "pcre2_match_stub_bc lib opt pat (pos + 2 ^ 32) 0 v_subj cof = pcre2_match_stub lib opt pat pos 0 v_subj cof"
    and "pcre2_match_stub lib opt pat (pos + 2 ^ 32) 0 v_subj cof s =
      Inr (Inl (Invalid_argument ''Pcre2.pcre2_match_stub: illegal position''), s)"
proof -
  show "pcre2_match_stub_bc lib opt pat (pos + 2 ^ 32) 0 v_subj cof = pcre2_match_stub lib opt pat pos 0 v_subj cof"
    using assms by (simp add: pcre2_match_stub_bc_def pcre2_match_stub_def s32_add [simplified])
  show "pcre2_match_stub lib opt pat (pos + 2 ^ 32) 0 v_subj cof s =
      Inr (Inl (Invalid_argument ''Pcre2.pcre2_match_stub: illegal position''), s)"
    using assms by (simp add: pcre2_match_stub_def pcre2_match_stub0_def)
qed

section \<open>The other entry points\<close>

definition pcre2_compile_stub_bc ::
  "('r, 't) compiler \<Rightarrow> (int \<Rightarrow> string) \<Rightarrow> int \<Rightarrow> nat option \<Rightarrow> string \<Rightarrow> (('r, 't) regs, pexn, nat) prim" where
  "pcre2_compile_stub_bc = pcre2_compile_stub"

definition pcre2_set_imp_match_limit_stub_bc :: "nat \<Rightarrow> int \<Rightarrow> (('r, 't) regs, pexn, nat) prim" where
  "pcre2_set_imp_match_limit_stub_bc h v_lim = pcre2_set_imp_match_limit_stub h (s32 v_lim)"

definition pcre2_set_imp_depth_limit_stub_bc :: "nat \<Rightarrow> int \<Rightarrow> (('r, 't) regs, pexn, nat) prim" where
  "pcre2_set_imp_depth_limit_stub_bc h v_lim = pcre2_set_imp_depth_limit_stub h (s32 v_lim)"

text \<open>Limits are stored with 32 bits, so here nothing is lost on the way.\<close>

lemma bytecode_limits_agree:
  "pcre2_set_imp_match_limit_stub_bc h lim = pcre2_set_imp_match_limit_stub h lim"
  "pcre2_set_imp_depth_limit_stub_bc h lim = pcre2_set_imp_depth_limit_stub h lim"
proof -
  have "(word_of_int (s32 lim) :: 32 word) = word_of_int lim"
    unfolding word_of_int_eq_iff take_bit_eq_mod using s32_mod [of lim] by simp
  then show "pcre2_set_imp_match_limit_stub_bc h lim = pcre2_set_imp_match_limit_stub h lim"
    "pcre2_set_imp_depth_limit_stub_bc h lim = pcre2_set_imp_depth_limit_stub h lim"
    by (simp_all add: pcre2_set_imp_match_limit_stub_bc_def pcre2_set_imp_match_limit_stub_def
        pcre2_set_imp_depth_limit_stub_bc_def pcre2_set_imp_depth_limit_stub_def)
qed

text \<open>Numbers come back tagged, with 63 bits.\<close>

definition tagged :: "int \<Rightarrow> int" where
  "tagged x = signed_take_bit 62 x"

definition intnat_info_bc :: "(nat \<Rightarrow> int) \<Rightarrow> info \<Rightarrow> 'r plib \<Rightarrow> 'r \<Rightarrow> int query" where
  "intnat_info_bc conv what lib pat = rbind (intnat_info conv what lib pat) (\<lambda>x. Inr (tagged x))"

definition pcre2_argoptions_stub_bc :: "'r plib \<Rightarrow> 'r \<Rightarrow> int query" where
  "pcre2_argoptions_stub_bc = pcre2_argoptions_stub"

definition pcre2_substring_number_from_name_stub_bc :: "'r plib \<Rightarrow> 'r \<Rightarrow> string \<Rightarrow> int query" where
  "pcre2_substring_number_from_name_stub_bc lib pat name =
     rbind (pcre2_substring_number_from_name_stub lib pat name) (\<lambda>x. Inr (tagged x))"

definition pcre2_config_link_size_stub_bc :: "config \<Rightarrow> int" where
  "pcre2_config_link_size_stub_bc c = tagged (pcre2_config_link_size_stub c)"

definition pcre2_config_match_limit_stub_bc :: "config \<Rightarrow> int" where
  "pcre2_config_match_limit_stub_bc c = tagged (pcre2_config_match_limit_stub c)"

definition pcre2_config_depth_limit_stub_bc :: "config \<Rightarrow> int" where
  "pcre2_config_depth_limit_stub_bc c = tagged (pcre2_config_depth_limit_stub c)"

lemma tagged_id: "- (2 ^ 62) \<le> x \<Longrightarrow> x < 2 ^ 62 \<Longrightarrow> tagged x = x"
  by (simp add: tagged_def signed_take_bit_int_eq_self)

lemma bytecode_info_agrees: "intnat_info_bc int_conv what lib pat = intnat_info int_conv what lib pat"
proof -
  have "tagged (int_conv x) = int_conv x" for x
    using s32_bounds [of "int x"] by (intro tagged_id) (simp_all add: int_conv_def)
  then show ?thesis by (simp add: intnat_info_bc_def intnat_info_def rbind_def split: sum.split)
qed

end
