(* ===== verification/XmlParse.thy ===== *)
theory XmlParse imports Prelude begin

text \<open>
  std/cpp/NativeXmlImport.cpp: the event-driven XML parser of the C++ target. Memory is the list of
  the string's bytes with the zero behind it, a pointer is an index, and a read behind the list is
  undefined. The loop of \<open>do_parse_xml\<close> is a partial function, so that its termination is a theorem.
  The callbacks are a log of events.
\<close>

section \<open>State\<close>

datatype xstate =
  IGNORE_SPACES | BEGIN | BEGIN_NODE | TAG_NAME | BODY | ATTRIB_NAME | EQUALS | ATTVAL_BEGIN | ATTRIB_VAL
| CHILDS | CLOSE | WAIT_END | WAIT_END_RET | PCDATA | HEADER | COMMENT | DOCTYPE | CDATA

type_synonym attrs = "(string \<times> string) list"

datatype event = Xml string attrs | Done | Pcdata string | Cdata string | Comment string | Doctype string

text \<open>The locals of \<open>do_parse_xml\<close>, the line counter it shares with its callers, and the log.\<close>

record parser =
  state :: xstate
  next_state :: xstate
  aname :: string
  attribs :: attrs
  nodename :: string
  start :: nat
  ptr :: nat
  nsubs :: int
  nbrackets :: int
  line :: int
  events :: "event list"

definition enter_parser :: "nat \<Rightarrow> int \<Rightarrow> event list \<Rightarrow> parser" where
  "enter_parser lp ln evs =
     \<lparr>state = BEGIN, next_state = BEGIN, aname = [], attribs = [], nodename = [], start = 0, ptr = lp,
      nsubs = 0, nbrackets = 0, line = ln, events = evs\<rparr>"

text \<open>How an iteration goes on, and how a call ends.\<close>

datatype move = Continue parser | Break parser | Recurse parser | Return parser | Throw string

datatype outcome = Returned parser | Thrown string "event list"

section \<open>Reading\<close>

abbreviation NUL :: char where "NUL \<equiv> CHR 0x00"

definition peek :: "string \<Rightarrow> nat \<Rightarrow> c_fault + char" where
  "peek mem i = (if i < length mem then Inr (mem ! i) else Inl (Undef ''read behind the string''))"

text \<open>Comparisons joined by \<open>&&\<close> or \<open>||\<close>: the next byte is read only if the one before was accepted.\<close>

fun looking_at :: "string \<Rightarrow> nat \<Rightarrow> string list \<Rightarrow> c_fault + bool" where
  "looking_at mem i [] = Inr True"
| "looking_at mem i (cs # rest) =
     rbind (peek mem i) (\<lambda>c. if c \<in> set cs then looking_at mem (i + 1) rest else Inr False)"

definition sub :: "string \<Rightarrow> nat \<Rightarrow> nat \<Rightarrow> string" where
  "sub mem i j = take (j - i) (drop i mem)"

definition is_valid_char :: "char \<Rightarrow> bool" where
  "is_valid_char ch \<longleftrightarrow>
     (let c = (of_char ch :: nat)
      in 97 \<le> c \<and> c \<le> 122 \<or> 65 \<le> c \<and> c \<le> 90 \<or> 48 \<le> c \<and> c \<le> 57 \<or> c = 58 \<or> c = 46 \<or> c = 95 \<or> c = 45)"

definition is_space :: "char \<Rightarrow> bool" where
  "is_space c \<longleftrightarrow> c = CHR 0x0A \<or> c = CHR 0x0D \<or> c = CHR 0x09 \<or> c = CHR 0x20"

text \<open>\<open>strcmpi\<close>: equal up to the case of ASCII letters.\<close>

definition to_lower :: "char \<Rightarrow> char" where
  "to_lower c = (let n = (of_char c :: nat) in if 65 \<le> n \<and> n \<le> 90 then char_of (n + 32) else c)"

definition strcmpi_eq :: "string \<Rightarrow> string \<Rightarrow> bool" where
  "strcmpi_eq a b \<longleftrightarrow> map to_lower a = map to_lower b"

section \<open>Errors\<close>

text \<open>The message: what is wrong, the line and the text from there on, cut after 30 bytes.\<close>

definition xml_error :: "string \<Rightarrow> nat \<Rightarrow> parser \<Rightarrow> string \<Rightarrow> string" where
  "xml_error mem xml s msg =
     (let at = takeWhile (\<lambda>c. c \<noteq> NUL) (drop (ptr s) mem);
          b = ''Xml parse error : '' @ msg @ '' at line '' @ decimal (line s) @ '' : '' @
              (if ptr s \<noteq> xml then ''...'' else [])
      in if length at = 0 then b @ ''<eof>''
         else if length at < 30 then b @ at
         else b @ take 30 at @ ''...'')"

section \<open>One iteration\<close>

definition emit :: "event \<Rightarrow> parser \<Rightarrow> parser" where
  "emit e s = s\<lparr>events := events s @ [e]\<rparr>"

definition count_sub :: "parser \<Rightarrow> parser" where
  "count_sub s = s\<lparr>nsubs := nsubs s + 1\<rparr>"

definition skip_to :: "xstate \<Rightarrow> parser \<Rightarrow> parser" where
  "skip_to n s = s\<lparr>state := IGNORE_SPACES, next_state := n\<rparr>"

definition throw :: "string \<Rightarrow> nat \<Rightarrow> parser \<Rightarrow> string \<Rightarrow> c_fault + move" where
  "throw mem xml s msg = Inr (Throw (xml_error mem xml s msg))"

text \<open>\<open>BEGIN_NODE\<close> at an exclamation mark.\<close>

definition step_markup :: "string \<Rightarrow> nat \<Rightarrow> parser \<Rightarrow> c_fault + move" where
  "step_markup mem xml s =
     (let i = ptr s
      in rbind (peek mem (i + 1)) (\<lambda>c1.
         if c1 = CHR ''[''
         then rbind (looking_at mem (i + 2) [''Cc'', ''Dd'', ''Aa'', ''Tt'', ''Aa'', ''['']) (\<lambda>ok.
              if ok then Inr (Break (s\<lparr>ptr := i + 7, state := CDATA, start := i + 8\<rparr>))
              else throw mem xml (s\<lparr>ptr := i + 2\<rparr>) ''Expected <![CDATA['')
         else if c1 = CHR ''D'' \<or> c1 = CHR ''d''
         then rbind (looking_at mem (i + 2) [''Oo'', ''Cc'', ''Tt'', ''Yy'', ''Pp'', ''Ee'']) (\<lambda>ok.
              if ok then Inr (Break (s\<lparr>ptr := i + 7, state := DOCTYPE, start := i + 8\<rparr>))
              else throw mem xml s ''Expected <!DOCTYPE'')
         else rbind (looking_at mem (i + 1) [''-'', ''-'']) (\<lambda>ok.
              if ok then Inr (Break (s\<lparr>ptr := i + 2, state := COMMENT, start := i + 3\<rparr>))
              else throw mem xml s ''Expected <!--'')))"

definition step_begin_node :: "string \<Rightarrow> nat \<Rightarrow> string option \<Rightarrow> char \<Rightarrow> parser \<Rightarrow> c_fault + move" where
  "step_begin_node mem xml parentname c s =
     (if c = CHR ''!'' then step_markup mem xml s
      else if c = CHR ''?'' then Inr (Break (s\<lparr>state := HEADER, start := ptr s\<rparr>))
      else if c = CHR ''/''
      then if parentname = None \<or> parentname = Some [] then throw mem xml s ''Expected node name''
           else Inr (Break (skip_to CLOSE (s\<lparr>start := ptr s + 1\<rparr>)))
      else Inr (Continue (s\<lparr>state := TAG_NAME, start := ptr s\<rparr>)))"

definition step_tag_name :: "string \<Rightarrow> nat \<Rightarrow> char \<Rightarrow> parser \<Rightarrow> c_fault + move" where
  "step_tag_name mem xml c s =
     (if \<not> is_valid_char c
      then if ptr s = start s then throw mem xml s ''Expected node name''
           else Inr (Continue (skip_to BODY (s\<lparr>nodename := sub mem (start s) (ptr s), attribs := []\<rparr>)))
      else Inr (Break s))"

definition step_body :: "char \<Rightarrow> parser \<Rightarrow> c_fault + move" where
  "step_body c s =
     (if c = CHR ''/'' then Inr (Break (emit (Xml (nodename s) (attribs s)) (count_sub (s\<lparr>state := WAIT_END\<rparr>))))
      else if c = CHR ''>'' then Inr (Break (emit (Xml (nodename s) (attribs s)) (count_sub (s\<lparr>state := CHILDS\<rparr>))))
      else Inr (Continue (s\<lparr>state := ATTRIB_NAME, start := ptr s\<rparr>)))"

definition step_attrib_name :: "string \<Rightarrow> nat \<Rightarrow> char \<Rightarrow> parser \<Rightarrow> c_fault + move" where
  "step_attrib_name mem xml c s =
     (if \<not> is_valid_char c
      then if start s = ptr s then throw mem xml s ''Expected attribute name''
           else let name = sub mem (start s) (ptr s); s' = s\<lparr>aname := name\<rparr>
                in if map_of (attribs s') name \<noteq> None then throw mem xml s' ''Duplicate attribute''
                   else Inr (Continue (skip_to EQUALS s'))
      else Inr (Break s))"

text \<open>The byte at \<open>start\<close> is the opening quote.\<close>

definition step_attrib_val :: "string \<Rightarrow> char \<Rightarrow> parser \<Rightarrow> c_fault + move" where
  "step_attrib_val mem c s =
     rbind (peek mem (start s)) (\<lambda>q.
       if c = q
       then Inr (Break (skip_to BODY (s\<lparr>attribs := attribs s @ [(aname s, sub mem (start s + 1) (ptr s))]\<rparr>)))
       else Inr (Break s))"

definition step_close :: "string \<Rightarrow> nat \<Rightarrow> string option \<Rightarrow> char \<Rightarrow> parser \<Rightarrow> c_fault + move" where
  "step_close mem xml parentname c s =
     (if \<not> is_valid_char c
      then if start s = ptr s then throw mem xml s ''Expected node name''
           else let v = sub mem (start s) (ptr s); parent = (case parentname of None \<Rightarrow> [] | Some n \<Rightarrow> n)
                in if \<not> strcmpi_eq parent v then throw mem xml s (''Expected </'' @ parent @ ''>'')
                   else Inr (Continue (skip_to WAIT_END_RET s))
      else Inr (Break s))"

definition step_doctype :: "string \<Rightarrow> char \<Rightarrow> parser \<Rightarrow> parser" where
  "step_doctype mem c s =
     (if c = CHR ''['' then s\<lparr>nbrackets := nbrackets s + 1\<rparr>
      else if c = CHR '']'' then s\<lparr>nbrackets := nbrackets s - 1\<rparr>
      else if c = CHR ''>'' \<and> nbrackets s = 0
      then emit (Doctype (sub mem (start s) (ptr s))) (s\<lparr>state := BEGIN\<rparr>)
      else s)"

definition step_attval_begin :: "string \<Rightarrow> nat \<Rightarrow> char \<Rightarrow> parser \<Rightarrow> c_fault + move" where
  "step_attval_begin mem xml c s =
     (if c = CHR 0x22 \<or> c = CHR 0x27 then Inr (Break (s\<lparr>state := ATTRIB_VAL, start := ptr s\<rparr>))
      else throw mem xml s (''Expected '' @ [CHR 0x22]))"

definition step_wait_end :: "string \<Rightarrow> nat \<Rightarrow> char \<Rightarrow> parser \<Rightarrow> c_fault + move" where
  "step_wait_end mem xml c s =
     (if c = CHR ''>'' then Inr (Break (emit Done (s\<lparr>state := BEGIN\<rparr>))) else throw mem xml s ''Expected >'')"

definition step_wait_end_ret :: "string \<Rightarrow> nat \<Rightarrow> char \<Rightarrow> parser \<Rightarrow> c_fault + move" where
  "step_wait_end_ret mem xml c s =
     (if c = CHR ''>'' then Inr (Return (if nsubs s = 0 then emit (Pcdata []) s else s))
      else throw mem xml s ''Expected >'')"

definition step_comment :: "string \<Rightarrow> parser \<Rightarrow> c_fault + move" where
  "step_comment mem s =
     rbind (looking_at mem (ptr s) [''-'', ''-'', ''>'']) (\<lambda>ends.
       if ends
       then Inr (Break (emit (Comment (sub mem (start s) (ptr s))) (s\<lparr>ptr := ptr s + 2, state := BEGIN\<rparr>)))
       else Inr (Break s))"

text \<open>The question mark before the end belongs to what is reported.\<close>

definition step_header :: "string \<Rightarrow> parser \<Rightarrow> c_fault + move" where
  "step_header mem s =
     rbind (looking_at mem (ptr s) [''?'', ''>'']) (\<lambda>ends.
       if ends
       then Inr (Break (emit (Comment (sub mem (start s) (ptr s + 1))) (s\<lparr>ptr := ptr s + 1, state := BEGIN\<rparr>)))
       else Inr (Break s))"

definition step :: "string \<Rightarrow> nat \<Rightarrow> string option \<Rightarrow> char \<Rightarrow> parser \<Rightarrow> c_fault + move" where
  "step mem xml parentname c s =
     (case state s of
        IGNORE_SPACES \<Rightarrow>
          if is_space c then Inr (Break s) else Inr (Continue (s\<lparr>state := next_state s\<rparr>))
      | BEGIN \<Rightarrow>
          if c = CHR ''<'' then Inr (Break (skip_to BEGIN_NODE s))
          else Inr (Continue (s\<lparr>start := ptr s, state := PCDATA\<rparr>))
      | PCDATA \<Rightarrow>
          if c = CHR ''<''
          then Inr (Break (skip_to BEGIN_NODE (count_sub (emit (Pcdata (sub mem (start s) (ptr s))) s))))
          else Inr (Break s)
      | CDATA \<Rightarrow>
          rbind (looking_at mem (ptr s) ['']'', '']'', ''>'']) (\<lambda>ends.
            if ends
            then Inr (Break (count_sub (emit (Cdata (sub mem (start s) (ptr s))) (s\<lparr>ptr := ptr s + 2, state := BEGIN\<rparr>))))
            else Inr (Break s))
      | BEGIN_NODE \<Rightarrow> step_begin_node mem xml parentname c s
      | TAG_NAME \<Rightarrow> step_tag_name mem xml c s
      | BODY \<Rightarrow> step_body c s
      | ATTRIB_NAME \<Rightarrow> step_attrib_name mem xml c s
      | EQUALS \<Rightarrow>
          if c = CHR ''='' then Inr (Break (skip_to ATTVAL_BEGIN s)) else throw mem xml s ''Expected =''
      | ATTVAL_BEGIN \<Rightarrow> step_attval_begin mem xml c s
      | ATTRIB_VAL \<Rightarrow> step_attrib_val mem c s
      | CHILDS \<Rightarrow> Inr (Recurse s)
      | WAIT_END \<Rightarrow> step_wait_end mem xml c s
      | WAIT_END_RET \<Rightarrow> step_wait_end_ret mem xml c s
      | CLOSE \<Rightarrow> step_close mem xml parentname c s
      | COMMENT \<Rightarrow> step_comment mem s
      | DOCTYPE \<Rightarrow> Inr (Break (step_doctype mem c s))
      | HEADER \<Rightarrow> step_header mem s)"

lemmas step_unfold =
  step_def step_attval_begin_def step_wait_end_def step_wait_end_ret_def step_comment_def step_header_def

section \<open>The loop\<close>

text \<open>\<open>c = *++p; if( c == '\n' ) (*line)++;\<close>\<close>

definition advance :: "string \<Rightarrow> parser \<Rightarrow> c_fault + parser" where
  "advance mem s =
     rbind (peek mem (ptr s + 1)) (\<lambda>c.
       Inr (s\<lparr>ptr := ptr s + 1, line := (if c = CHR 0x0A then line s + 1 else line s)\<rparr>))"

text \<open>After the loop.\<close>

definition at_end :: "string \<Rightarrow> nat \<Rightarrow> string option \<Rightarrow> parser \<Rightarrow> outcome" where
  "at_end mem xml parentname s =
     (let s = (if state s = BEGIN then s\<lparr>start := ptr s, state := PCDATA\<rparr> else s)
      in if parentname = None \<and> state s = PCDATA
         then Returned (if ptr s \<noteq> start s \<or> nsubs s = 0 then emit (Pcdata (sub mem (start s) (ptr s))) s else s)
         else Thrown (xml_error mem xml s ''Unexpected end'') (events s))"

text \<open>What the caller takes from a call that returned.\<close>

definition after_call :: "parser \<Rightarrow> parser \<Rightarrow> parser" where
  "after_call s r = s\<lparr>ptr := ptr r, start := ptr r, state := BEGIN, line := line r, events := events r\<rparr>"

partial_function (option) do_parse_xml ::
  "string \<Rightarrow> nat \<Rightarrow> string option \<Rightarrow> parser \<Rightarrow> (c_fault + outcome) option" where
  "do_parse_xml mem xml parentname s =
     (case peek mem (ptr s) of
        Inl f \<Rightarrow> Some (Inl f)
      | Inr c \<Rightarrow>
          if c = NUL then Some (Inr (at_end mem xml parentname s))
          else case step mem xml parentname c s of
            Inl f \<Rightarrow> Some (Inl f)
          | Inr (Throw msg) \<Rightarrow> Some (Inr (Thrown msg (events s)))
          | Inr (Return s) \<Rightarrow> Some (Inr (Returned s))
          | Inr (Continue s) \<Rightarrow> do_parse_xml mem xml parentname s
          | Inr (Break s) \<Rightarrow>
              (case advance mem s of Inl f \<Rightarrow> Some (Inl f) | Inr s \<Rightarrow> do_parse_xml mem xml parentname s)
          | Inr (Recurse s) \<Rightarrow>
              Option.bind (do_parse_xml mem xml (Some (nodename s)) (enter_parser (ptr s) (line s) (events s))) (\<lambda>r.
                case r of
                  Inl f \<Rightarrow> Some (Inl f)
                | Inr (Thrown msg evs) \<Rightarrow> Some (Inr (Thrown msg evs))
                | Inr (Returned r) \<Rightarrow>
                    (case advance mem (after_call s r) of
                       Inl f \<Rightarrow> Some (Inl f)
                     | Inr s \<Rightarrow> do_parse_xml mem xml parentname s)))"

declare do_parse_xml.simps [code]

definition parse_xml :: "string \<Rightarrow> (c_fault + outcome) option" where
  "parse_xml src =
     (let mem = src @ [NUL]
      in case looking_at mem 0 [[CHR 0xEF], [CHR 0xBB], [CHR 0xBF]] of
           Inl f \<Rightarrow> Some (Inl f)
         | Inr bom \<Rightarrow> let p = (if bom then 3 else 0) in do_parse_xml mem p None (enter_parser p 0 []))"

end
