(* ===== verification/XmlSafe.thy ===== *)
theory XmlSafe imports XmlParse begin

text \<open>
  The XML parser returns for every text and reads no byte behind the terminating zero: each
  iteration either moves the pointer or lowers the rank of the state, and a comparison goes on only
  behind a byte that is not zero.
\<close>

section \<open>Memory with a final zero\<close>

definition terminated :: "string \<Rightarrow> bool" where
  "terminated mem \<longleftrightarrow> mem \<noteq> [] \<and> last mem = NUL"

lemma terminated_text [simp]: "terminated (src @ [NUL])"
  by (simp add: terminated_def)

lemma terminated_next: "terminated mem \<Longrightarrow> i < length mem \<Longrightarrow> mem ! i \<noteq> NUL \<Longrightarrow> Suc i < length mem"
  unfolding terminated_def by (metis Suc_lessI diff_Suc_1 last_conv_nth)

lemma peek_ok [simp]: "i < length mem \<Longrightarrow> peek mem i = Inr (mem ! i)"
  by (simp add: peek_def)

lemma looking_at_ok:
  "terminated mem \<Longrightarrow> i < length mem \<Longrightarrow> list_all (\<lambda>cs. NUL \<notin> set cs) pats \<Longrightarrow>
     \<exists>b. looking_at mem i pats = Inr b \<and> (b \<longrightarrow> i + length pats < length mem)"
proof (induction pats arbitrary: i)
  case (Cons cs pats)
  show ?case
  proof (cases "mem ! i \<in> set cs")
    case True
    with Cons.prems have "mem ! i \<noteq> NUL" by auto
    with Cons.prems have "Suc i < length mem" by (blast intro: terminated_next)
    with Cons.IH [of "Suc i"] Cons.prems True show ?thesis by auto
  qed (use Cons.prems in auto)
qed auto

section \<open>The invariant and the rank\<close>

definition state_rank :: "xstate \<Rightarrow> nat" where
  "state_rank n =
     (case n of TAG_NAME \<Rightarrow> 3 | ATTRIB_NAME \<Rightarrow> 2 | CLOSE \<Rightarrow> 2 | CHILDS \<Rightarrow> 2 | BODY \<Rightarrow> 1 | BEGIN \<Rightarrow> 1
      | BEGIN_NODE \<Rightarrow> 1 | _ \<Rightarrow> 0)"

definition rank :: "parser \<Rightarrow> nat" where
  "rank s =
     (if state s = IGNORE_SPACES then Suc (state_rank (next_state s))
      else if state s \<in> {TAG_NAME, ATTRIB_NAME} \<and> start s = ptr s then 0 else state_rank (state s))"

definition sound :: "string \<Rightarrow> parser \<Rightarrow> bool" where
  "sound mem s \<longleftrightarrow> ptr s < length mem \<and> next_state s \<notin> {IGNORE_SPACES, ATTRIB_VAL} \<and>
     (state s = ATTRIB_VAL \<longrightarrow> start s < length mem)"

lemma rank_bound: "rank s < 5"
  by (auto simp: rank_def state_rank_def split: xstate.splits)

lemma sound_enter [simp]: "lp < length mem \<Longrightarrow> sound mem (enter_parser lp ln evs)"
  by (simp add: sound_def enter_parser_def)

definition move_ok :: "string \<Rightarrow> parser \<Rightarrow> move \<Rightarrow> bool" where
  "move_ok mem s m =
     (case m of
        Continue s' \<Rightarrow> sound mem s' \<and> ptr s' = ptr s \<and> rank s' < rank s
      | Break s' \<Rightarrow> sound mem s' \<and> ptr s \<le> ptr s' \<and> Suc (ptr s') < length mem
      | Recurse s' \<Rightarrow> s' = s \<and> state s = CHILDS
      | Return s' \<Rightarrow> ptr s' = ptr s
      | Throw msg \<Rightarrow> True)"

lemma move_ok_simps [simp]:
  "move_ok mem s (Continue s') \<longleftrightarrow> sound mem s' \<and> ptr s' = ptr s \<and> rank s' < rank s"
  "move_ok mem s (Break s') \<longleftrightarrow> sound mem s' \<and> ptr s \<le> ptr s' \<and> Suc (ptr s') < length mem"
  "move_ok mem s (Recurse s') \<longleftrightarrow> s' = s \<and> state s = CHILDS"
  "move_ok mem s (Return s') \<longleftrightarrow> ptr s' = ptr s"
  "move_ok mem s (Throw msg)"
  by (simp_all add: move_ok_def)

lemmas step_parts = step_begin_node_def step_tag_name_def step_body_def step_attrib_name_def step_attrib_val_def
  step_close_def throw_def skip_to_def emit_def count_sub_def

text \<open>What an iteration starts from: a sound state at a byte that is not zero.\<close>

definition reads :: "string \<Rightarrow> parser \<Rightarrow> bool" where
  "reads mem s \<longleftrightarrow> ptr s < length mem \<and> mem ! ptr s \<noteq> NUL"

lemma readsD: "terminated mem \<Longrightarrow> reads mem s \<Longrightarrow> ptr s < length mem \<and> Suc (ptr s) < length mem"
  by (simp add: reads_def terminated_next)

lemma look_here:
  "terminated mem \<Longrightarrow> reads mem s \<Longrightarrow> list_all (\<lambda>cs. NUL \<notin> set cs) pats \<Longrightarrow>
     \<exists>b. looking_at mem (ptr s) pats = Inr b \<and> (b \<longrightarrow> ptr s + length pats < length mem)"
  by (simp add: reads_def looking_at_ok)

lemma step_markup_ok:
  assumes mem: "terminated mem" and s: "sound mem s" and rd: "reads mem s"
  shows "\<exists>m. step_markup mem xml s = Inr m \<and> move_ok mem s m"
proof -
  note room = conjunct1 [OF readsD [OF mem rd]] conjunct2 [OF readsD [OF mem rd]]
  obtain b where b: "looking_at mem (Suc (ptr s)) [''-'', ''-''] = Inr b" "b \<longrightarrow> Suc (ptr s) + 2 < length mem"
    using looking_at_ok [OF mem room(2), of "[''-'', ''-'']"] by auto
  show ?thesis
  proof (cases "mem ! Suc (ptr s) = CHR ''['' \<or> mem ! Suc (ptr s) = CHR ''D'' \<or> mem ! Suc (ptr s) = CHR ''d''")
    case True
    then have "mem ! Suc (ptr s) \<noteq> NUL" by auto
    from terminated_next [OF mem room(2) this] have r: "Suc (Suc (ptr s)) < length mem" .
    from looking_at_ok [OF mem r, of "[''Cc'', ''Dd'', ''Aa'', ''Tt'', ''Aa'', ''['']"] obtain b1 where
      b1: "looking_at mem (Suc (Suc (ptr s))) [''Cc'', ''Dd'', ''Aa'', ''Tt'', ''Aa'', ''[''] = Inr b1"
        "b1 \<longrightarrow> ptr s + 8 < length mem" by auto
    from looking_at_ok [OF mem r, of "[''Oo'', ''Cc'', ''Tt'', ''Yy'', ''Pp'', ''Ee'']"] obtain b2 where
      b2: "looking_at mem (Suc (Suc (ptr s))) [''Oo'', ''Cc'', ''Tt'', ''Yy'', ''Pp'', ''Ee''] = Inr b2"
        "b2 \<longrightarrow> ptr s + 8 < length mem" by auto
    from True b1 b2 room s show ?thesis
      by (cases b1; cases b2) (auto simp: step_markup_def throw_def sound_def Let_def simp del: looking_at.simps)
  next
    case False
    with b room s show ?thesis
      by (cases b) (auto simp: step_markup_def throw_def sound_def Let_def simp del: looking_at.simps)
  qed
qed

lemma step_ok:
  assumes mem: "terminated mem" and s: "sound mem s" and rd: "reads mem s"
  shows "\<exists>m. step mem xml parent (mem ! ptr s) s = Inr m \<and> move_ok mem s m"
proof -
  note room = conjunct1 [OF readsD [OF mem rd]] conjunct2 [OF readsD [OF mem rd]]
  note look = look_here [OF mem rd]
  show ?thesis
  proof (cases "state s")
    case BEGIN_NODE
    with step_markup_ok [OF mem s rd] s room show ?thesis
      by (auto simp: step_unfold step_parts sound_def rank_def state_rank_def)
  next
    case CDATA
    from look [of "['']'', '']'', ''>'']"] CDATA s room show ?thesis
      by (auto simp: step_unfold step_parts sound_def simp del: looking_at.simps)
  next
    case COMMENT
    from look [of "[''-'', ''-'', ''>'']"] COMMENT s room show ?thesis
      by (auto simp: step_unfold step_parts sound_def simp del: looking_at.simps)
  next
    case HEADER
    from look [of "[''?'', ''>'']"] HEADER s room show ?thesis
      by (auto simp: step_unfold step_parts sound_def simp del: looking_at.simps)
  next
    case DOCTYPE
    with s room show ?thesis by (auto simp: step_unfold step_doctype_def emit_def sound_def)
  next
    case IGNORE_SPACES
    with s room show ?thesis
      by (auto simp: step_unfold sound_def rank_def)
  next
    case CHILDS
    then show ?thesis by (simp add: step_unfold)
  qed (use s room in \<open>auto simp: step_unfold step_parts sound_def rank_def state_rank_def Let_def\<close>)
qed

section \<open>The loop, one iteration at a time\<close>

abbreviation step_at :: "string \<Rightarrow> nat \<Rightarrow> string option \<Rightarrow> parser \<Rightarrow> c_fault + move" where
  "step_at mem xml parent s \<equiv> step mem xml parent (mem ! ptr s) s"

lemma loop_end:
  "ptr s < length mem \<Longrightarrow> mem ! ptr s = NUL \<Longrightarrow> do_parse_xml mem xml parent s = Some (Inr (at_end mem xml parent s))"
  by (subst do_parse_xml.simps) simp

lemma loop_continue:
  "reads mem s \<Longrightarrow> step_at mem xml parent s = Inr (Continue s') \<Longrightarrow>
     do_parse_xml mem xml parent s = do_parse_xml mem xml parent s'"
  by (subst do_parse_xml.simps) (simp add: reads_def)

lemma loop_break:
  "reads mem s \<Longrightarrow> step_at mem xml parent s = Inr (Break s') \<Longrightarrow> advance mem s' = Inr s'' \<Longrightarrow>
     do_parse_xml mem xml parent s = do_parse_xml mem xml parent s''"
  by (subst do_parse_xml.simps) (simp add: reads_def)

lemma loop_return:
  "reads mem s \<Longrightarrow> step_at mem xml parent s = Inr (Return s') \<Longrightarrow>
     do_parse_xml mem xml parent s = Some (Inr (Returned s'))"
  by (subst do_parse_xml.simps) (simp add: reads_def)

lemma loop_throw:
  "reads mem s \<Longrightarrow> step_at mem xml parent s = Inr (Throw msg) \<Longrightarrow>
     do_parse_xml mem xml parent s = Some (Inr (Thrown msg (events s)))"
  by (subst do_parse_xml.simps) (simp add: reads_def)

abbreviation call_of :: "parser \<Rightarrow> parser" where
  "call_of s \<equiv> enter_parser (ptr s) (line s) (events s)"

lemma loop_call:
  assumes "reads mem s" "state s = CHILDS"
  shows "do_parse_xml mem xml (Some (nodename s)) (call_of s) = Some (Inr (Thrown msg evs)) \<Longrightarrow>
      do_parse_xml mem xml parent s = Some (Inr (Thrown msg evs))"
    and "do_parse_xml mem xml (Some (nodename s)) (call_of s) = Some (Inr (Returned r)) \<Longrightarrow>
      advance mem (after_call s r) = Inr s' \<Longrightarrow>
      do_parse_xml mem xml parent s = do_parse_xml mem xml parent s'"
  using assms by (subst do_parse_xml.simps, simp add: reads_def step_unfold)+

section \<open>The loop returns\<close>

lemma advance_ok:
  "Suc (ptr s) < length mem \<Longrightarrow> sound mem s \<Longrightarrow> \<exists>s'. advance mem s = Inr s' \<and> ptr s' = Suc (ptr s) \<and> sound mem s'"
  by (auto simp: advance_def sound_def)

lemma parse_returns:
  assumes "terminated mem" "sound mem s"
  shows "\<exists>r. do_parse_xml mem xml parent s = Some (Inr r) \<and>
    (\<forall>s'. r = Returned s' \<longrightarrow> ptr s \<le> ptr s' \<and> ptr s' < length mem \<and> (parent \<noteq> None \<longrightarrow> mem ! ptr s' \<noteq> NUL))"
  using assms(2)
proof (induction "(length mem - ptr s) * 5 + rank s" arbitrary: s parent rule: less_induct)
  case less
  have p: "ptr s < length mem" using less.prems by (simp add: sound_def)
  have later: "(length mem - ptr s') * 5 + rank s' < (length mem - ptr s) * 5 + rank s"
    if "ptr s < ptr s'" for s' :: parser
    using that p rank_bound [of s'] by simp
  show ?case
  proof (cases "mem ! ptr s = NUL")
    case True
    with p loop_end [OF p] show ?thesis by (auto simp: at_end_def Let_def emit_def)
  next
    case False
    have rd: "reads mem s" using False p by (simp add: reads_def)
    from step_ok [OF assms(1) less.prems rd] obtain m where
      m: "step mem xml parent (mem ! ptr s) s = Inr m" "move_ok mem s m" by blast
    show ?thesis
    proof (cases m)
      case (Continue s')
      with less.hyps [of s' parent] m loop_continue [OF rd] show ?thesis by auto
    next
      case (Break s')
      with m obtain s2 where s2: "advance mem s' = Inr s2" "ptr s2 = Suc (ptr s')" "sound mem s2" "ptr s \<le> ptr s'"
        using advance_ok [of s'] by auto
      then have "ptr s < ptr s2" by simp
      from less.hyps [OF later [OF this] s2(3), of parent] loop_break [OF rd] s2 Break m \<open>ptr s < ptr s2\<close>
      show ?thesis by fastforce
    next
      case (Recurse s')
      with m have s': "state s = CHILDS" by auto
      have "rank (call_of s) < rank s" using s' by (simp add: rank_def state_rank_def enter_parser_def)
      then have "(length mem - ptr (call_of s)) * 5 + rank (call_of s) < (length mem - ptr s) * 5 + rank s"
        by (simp add: enter_parser_def)
      from less.hyps [OF this, of "Some (nodename s)"] p obtain r where
        r: "do_parse_xml mem xml (Some (nodename s)) (call_of s) = Some (Inr r)"
          "\<And>t. r = Returned t \<Longrightarrow> ptr s \<le> ptr t \<and> ptr t < length mem \<and> mem ! ptr t \<noteq> NUL"
        by (auto simp: enter_parser_def sound_def)
      show ?thesis
      proof (cases r)
        case (Thrown msg evs)
        with r loop_call(1) [OF rd s'] show ?thesis by auto
      next
        case (Returned t)
        with r have t: "ptr s \<le> ptr t" "ptr t < length mem" "mem ! ptr t \<noteq> NUL" by auto
        have "sound mem (after_call s t)" using less.prems t by (simp add: after_call_def sound_def)
        with t terminated_next [OF assms(1) t(2,3)] advance_ok [of "after_call s t"] obtain s2 where
          s2: "advance mem (after_call s t) = Inr s2" "ptr s2 = Suc (ptr t)" "sound mem s2"
          by (auto simp: after_call_def)
        then have lt: "ptr s < ptr s2" using t by simp
        from less.hyps [OF later [OF lt] s2(3), of parent] loop_call(2) [OF rd s' r(1) [unfolded Returned] s2(1)] lt
        show ?thesis by fastforce
      qed
    next
      case (Return s')
      with m loop_return [OF rd] False p show ?thesis by auto
    next
      case (Throw msg)
      with m loop_throw [OF rd] show ?thesis by auto
    qed
  qed
qed

section \<open>Property\<close>

text \<open>C14: the parser returns for every text, with a result or an exception, and never reads behind the
  zero that ends it, however the text is cut or nested.\<close>

theorem parse_xml_returns: "\<exists>r. parse_xml src = Some (Inr r)"
proof -
  let ?mem = "src @ [NUL]"
  from looking_at_ok [of ?mem 0 "[[CHR 0xEF], [CHR 0xBB], [CHR 0xBF]]"] obtain b where
    b: "looking_at ?mem 0 [[CHR 0xEF], [CHR 0xBB], [CHR 0xBF]] = Inr b" "b \<longrightarrow> 3 < length ?mem" by auto
  then have "(if b then 3 else 0) < length ?mem" by auto
  from parse_returns [OF terminated_text sound_enter [OF this], of "if b then 3 else 0" None 0 "[]"] b(1)
  show ?thesis by (auto simp: parse_xml_def Let_def simp del: looking_at.simps)
qed

end
