(* ===== verification/XmlMarkup.thy ===== *)
theory XmlMarkup imports XmlSafe begin

text \<open>
  What the XML parser promises: a document, printed, is parsed into the events of its nodes in
  order. The document type and its printer are the specification; \<open>NativeXmlState\<close> of
  std/cpp/NativeXml.hx, which receives the events, is modelled as far as its position goes.
\<close>

section \<open>Documents\<close>

datatype node =
  Elem string attrs "node list" | EmptyElem string attrs | Text string | Section string | Remark string
| Instruction string | DocType string

fun attr_text :: "string \<times> string \<Rightarrow> string" where
  "attr_text (n, v) = CHR '' '' # n @ [CHR ''='', CHR 0x22] @ v @ [CHR 0x22]"

definition attrs_text :: "attrs \<Rightarrow> string" where
  "attrs_text as = concat (map attr_text as)"

fun node_text :: "node \<Rightarrow> string" and nodes_text :: "node list \<Rightarrow> string" where
  "node_text (Elem n as ns) = CHR ''<'' # n @ attrs_text as @ CHR ''>'' # nodes_text ns @ ''</'' @ n @ ''>''"
| "node_text (EmptyElem n as) = CHR ''<'' # n @ attrs_text as @ ''/>''"
| "node_text (Text t) = t"
| "node_text (Section t) = ''<![CDATA['' @ t @ '']]>''"
| "node_text (Remark t) = ''<!--'' @ t @ ''-->''"
| "node_text (Instruction t) = ''<?'' @ t @ ''?>''"
| "node_text (DocType t) = ''<!DOCTYPE'' @ t @ ''>''"
| "nodes_text [] = []"
| "nodes_text (x # xs) = node_text x @ nodes_text xs"

text \<open>How many children the parser counts, and the events of a node.\<close>

fun counted :: "node \<Rightarrow> int" where
  "counted (Remark t) = 0" | "counted (Instruction t) = 0" | "counted (DocType t) = 0" | "counted _ = 1"

definition subs :: "node list \<Rightarrow> int" where
  "subs ns = sum_list (map counted ns)"

fun node_events :: "node \<Rightarrow> event list" and nodes_events :: "node list \<Rightarrow> event list" where
  "node_events (Elem n as ns) = Xml n as # nodes_events ns @ (if subs ns = 0 then [Pcdata []] else [])"
| "node_events (EmptyElem n as) = [Xml n as, Done]"
| "node_events (Text t) = [Pcdata t]"
| "node_events (Section t) = [Cdata t]"
| "node_events (Remark t) = [Comment t]"
| "node_events (Instruction t) = [Comment (CHR ''?'' # t @ ''?'')]"
| "node_events (DocType t) = [Doctype t]"
| "nodes_events [] = []"
| "nodes_events (x # xs) = node_events x @ nodes_events xs"

definition document_events :: "node list \<Rightarrow> event list" where
  "document_events ns = nodes_events ns @ (if subs ns = 0 then [Pcdata []] else [])"

section \<open>Well-formed documents\<close>

definition name_ok :: "string \<Rightarrow> bool" where
  "name_ok n \<longleftrightarrow> n \<noteq> [] \<and> list_all is_valid_char n"

definition attrs_ok :: "attrs \<Rightarrow> bool" where
  "attrs_ok as \<longleftrightarrow> distinct (map fst as) \<and> list_all (\<lambda>(n, v). name_ok n \<and> NUL \<notin> set v \<and> CHR 0x22 \<notin> set v) as"

text \<open>\<open>closes_first en t\<close>: in \<open>t\<close> followed by \<open>en\<close> the first occurrence of \<open>en\<close> is the one behind \<open>t\<close>.\<close>

definition closes_first :: "string \<Rightarrow> string \<Rightarrow> bool" where
  "closes_first en t \<longleftrightarrow> NUL \<notin> set t \<and> (\<forall>k < length t. take (length en) (drop k (t @ en)) \<noteq> en)"

text \<open>The brackets of a document type: no closing angle bracket outside of square brackets.\<close>

fun brackets_ok :: "int \<Rightarrow> string \<Rightarrow> bool" where
  "brackets_ok d [] \<longleftrightarrow> d = 0"
| "brackets_ok d (c # cs) \<longleftrightarrow>
     c \<noteq> NUL \<and>
     (if c = CHR ''['' then brackets_ok (d + 1) cs
      else if c = CHR '']'' then brackets_ok (d - 1) cs
      else \<not> (c = CHR ''>'' \<and> d = 0) \<and> brackets_ok d cs)"

definition is_text :: "node \<Rightarrow> bool" where
  "is_text x \<longleftrightarrow> (case x of Text t \<Rightarrow> True | _ \<Rightarrow> False)"

fun node_ok :: "node \<Rightarrow> bool" and nodes_ok :: "node list \<Rightarrow> bool" where
  "node_ok (Elem n as ns) \<longleftrightarrow> name_ok n \<and> attrs_ok as \<and> nodes_ok ns"
| "node_ok (EmptyElem n as) \<longleftrightarrow> name_ok n \<and> attrs_ok as"
| "node_ok (Text t) \<longleftrightarrow> t \<noteq> [] \<and> CHR ''<'' \<notin> set t \<and> NUL \<notin> set t"
| "node_ok (Section t) \<longleftrightarrow> closes_first '']]>'' t"
| "node_ok (Remark t) \<longleftrightarrow> closes_first ''-->'' t"
| "node_ok (Instruction t) \<longleftrightarrow> closes_first ''?>'' t"
| "node_ok (DocType t) \<longleftrightarrow> brackets_ok 0 t"
| "nodes_ok [] \<longleftrightarrow> True"
| "nodes_ok (x # xs) \<longleftrightarrow> node_ok x \<and> nodes_ok xs \<and> (is_text x \<longrightarrow> xs = [] \<or> \<not> is_text (hd xs))"

section \<open>Moving through the text\<close>

abbreviation rest_at :: "string \<Rightarrow> parser \<Rightarrow> string" where
  "rest_at mem s \<equiv> drop (ptr s) mem"

lemma drop_ConsD: "drop i mem = c # r \<Longrightarrow> i < length mem \<and> mem ! i = c \<and> drop (Suc i) mem = r"
  by (metis Cons_nth_drop_Suc drop_all leI list.distinct(1) list.inject)

lemma drop_append: "drop i mem = w @ r \<Longrightarrow> drop (i + length w) mem = r"
  by (metis add.commute append_eq_conv_conj drop_drop)

lemma sub_text: "drop i mem = w @ r \<Longrightarrow> sub mem i (i + length w) = w"
  by (simp add: sub_def)

lemma on_continue:
  "rest_at mem s = c # r \<Longrightarrow> c \<noteq> NUL \<Longrightarrow> step mem xml parent c s = Inr (Continue s') \<Longrightarrow>
     do_parse_xml mem xml parent s = do_parse_xml mem xml parent s'"
  by (drule drop_ConsD) (rule loop_continue, simp_all add: reads_def)

lemma on_break:
  assumes "rest_at mem s = c # r" "c \<noteq> NUL" "step mem xml parent c s = Inr (Break s')" "Suc (ptr s') < length mem"
  shows "\<exists>l. do_parse_xml mem xml parent s = do_parse_xml mem xml parent (s'\<lparr>ptr := Suc (ptr s'), line := l\<rparr>)"
proof -
  from drop_ConsD [OF assms(1)] assms(2) have "reads mem s" "mem ! ptr s = c" by (simp_all add: reads_def)
  moreover from assms(4) obtain l where "advance mem s' = Inr (s'\<lparr>ptr := Suc (ptr s'), line := l\<rparr>)"
    by (auto simp: advance_def)
  ultimately show ?thesis using assms(3) by (metis loop_break)
qed

text \<open>A byte that is taken in place, and a stretch of bytes that leave the state as it is.\<close>

lemma on_break1:
  assumes "rest_at mem s = c # d # r" "c \<noteq> NUL" "step mem xml parent c s = Inr (Break s')" "ptr s' = ptr s"
  shows "\<exists>l. do_parse_xml mem xml parent s = do_parse_xml mem xml parent (s'\<lparr>ptr := Suc (ptr s), line := l\<rparr>)"
proof -
  have "drop (Suc (ptr s)) mem = d # r" using drop_ConsD [OF assms(1)] by simp
  from drop_ConsD [OF this] assms(4) on_break [OF assms(1-3)] show ?thesis by simp
qed

lemma scan:
  assumes "\<And>k l. k < length w \<Longrightarrow> step mem xml parent (w ! k) (s\<lparr>ptr := ptr s + k, line := l\<rparr>) =
      Inr (Break (s\<lparr>ptr := ptr s + k, line := l\<rparr>))"
    and "rest_at mem s = w @ d # r" "NUL \<notin> set w"
  shows "\<exists>l. do_parse_xml mem xml parent s = do_parse_xml mem xml parent (s\<lparr>ptr := ptr s + length w, line := l\<rparr>)"
  using assms
proof (induction w arbitrary: s)
  case Nil
  show ?case by (intro exI [of _ "line s"]) simp
next
  case (Cons c w)
  have "\<exists>l. do_parse_xml mem xml parent s = do_parse_xml mem xml parent (s\<lparr>ptr := Suc (ptr s), line := l\<rparr>)"
  proof (rule on_break1)
    show "step mem xml parent c s = Inr (Break s)" using Cons.prems(1) [of 0 "line s"] by simp
    show "rest_at mem s = c # hd (w @ d # r) # tl (w @ d # r)" using Cons.prems(2) by (cases w) auto
  qed (use Cons.prems(3) in auto)
  then obtain l where l: "do_parse_xml mem xml parent s = do_parse_xml mem xml parent (s\<lparr>ptr := Suc (ptr s), line := l\<rparr>)" ..
  have "\<exists>l'. do_parse_xml mem xml parent (s\<lparr>ptr := Suc (ptr s), line := l\<rparr>) =
      do_parse_xml mem xml parent (s\<lparr>ptr := Suc (ptr s), line := l, ptr := ptr (s\<lparr>ptr := Suc (ptr s), line := l\<rparr>) + length w, line := l'\<rparr>)"
  proof (rule Cons.IH)
    show "step mem xml parent (w ! k) (s\<lparr>ptr := Suc (ptr s), line := l, ptr := ptr (s\<lparr>ptr := Suc (ptr s), line := l\<rparr>) + k, line := l'\<rparr>) =
        Inr (Break (s\<lparr>ptr := Suc (ptr s), line := l, ptr := ptr (s\<lparr>ptr := Suc (ptr s), line := l\<rparr>) + k, line := l'\<rparr>))"
      if "k < length w" for k l'
      using Cons.prems(1) [of "Suc k" l'] that by simp
    show "rest_at mem (s\<lparr>ptr := Suc (ptr s), line := l\<rparr>) = w @ d # r"
      using drop_ConsD [of "ptr s" mem c "w @ d # r"] Cons.prems(2) by simp
  qed (use Cons.prems(3) in simp)
  with l show ?case by auto
qed

section \<open>Characters\<close>

lemma not_valid_char [simp]:
  "\<not> is_valid_char NUL" "\<not> is_valid_char CHR ''<''" "\<not> is_valid_char CHR ''>''" "\<not> is_valid_char CHR ''/''"
  "\<not> is_valid_char CHR ''=''" "\<not> is_valid_char CHR '' ''" "\<not> is_valid_char CHR 0x22" "\<not> is_valid_char CHR ''!''"
  "\<not> is_valid_char CHR ''?''" "\<not> is_valid_char CHR 0x0A" "\<not> is_valid_char CHR 0x0D" "\<not> is_valid_char CHR 0x09"
  by (simp_all add: is_valid_char_def)

lemma valid_charD:
  assumes "is_valid_char c"
  shows "c \<noteq> NUL" "\<not> is_space c" "c \<noteq> CHR ''!''" "c \<noteq> CHR ''?''" "c \<noteq> CHR ''/''" "c \<noteq> CHR ''>''"
  using assms by (auto simp: is_space_def)

lemma name_okD:
  assumes "name_ok n"
  obtains c cs where "n = c # cs" "is_valid_char c" "NUL \<notin> set n" "\<And>k. k < length n \<Longrightarrow> is_valid_char (n ! k)"
proof -
  obtain c cs where n: "n = c # cs" using assms by (cases n) (auto simp: name_ok_def)
  have v: "\<forall>x \<in> set n. is_valid_char x" using assms by (simp add: name_ok_def list_all_iff)
  have "is_valid_char c" using n v by simp
  moreover have "NUL \<notin> set n" using v by auto
  moreover have "is_valid_char (n ! k)" if "k < length n" for k using v that by simp
  ultimately show thesis by (rule that [OF n])
qed

section \<open>Inside a tag\<close>

text \<open>Between nodes: nothing is open, or a text that ends here.\<close>

definition ready :: "string \<Rightarrow> parser \<Rightarrow> event list \<Rightarrow> int \<Rightarrow> bool" where
  "ready mem s evs n \<longleftrightarrow> nbrackets s = 0 \<and>
     (state s = BEGIN \<and> events s = evs \<and> nsubs s = n \<or>
      state s = PCDATA \<and> start s < ptr s \<and> 0 \<le> nsubs s \<and> events s @ [Pcdata (sub mem (start s) (ptr s))] = evs \<and> nsubs s + 1 = n)"

text \<open>Behind the name of a tag or an attribute.\<close>

definition in_body :: "parser \<Rightarrow> string \<Rightarrow> attrs \<Rightarrow> event list \<Rightarrow> int \<Rightarrow> bool" where
  "in_body s n as evs k \<longleftrightarrow> state s = IGNORE_SPACES \<and> next_state s = BODY \<and> nodename s = n \<and> attribs s = as \<and>
     events s = evs \<and> nsubs s = k \<and> nbrackets s = 0"

lemma unskip:
  "state s = IGNORE_SPACES \<Longrightarrow> rest_at mem s = c # r \<Longrightarrow> c \<noteq> NUL \<Longrightarrow> \<not> is_space c \<Longrightarrow>
     do_parse_xml mem xml parent s = do_parse_xml mem xml parent (s\<lparr>state := next_state s\<rparr>)"
  by (rule on_continue) (simp_all add: step_unfold)

lemma open_angle:
  assumes "ready mem s evs n" "rest_at mem s = CHR ''<'' # d # r"
  shows "\<exists>s'. do_parse_xml mem xml parent s = do_parse_xml mem xml parent s' \<and> state s' = IGNORE_SPACES \<and>
    next_state s' = BEGIN_NODE \<and> ptr s' = Suc (ptr s) \<and> events s' = evs \<and> nsubs s' = n \<and> nbrackets s' = 0"
proof -
  define s1 where "s1 = skip_to BEGIN_NODE
    (if state s = BEGIN then s else count_sub (emit (Pcdata (sub mem (start s) (ptr s))) s))"
  have "step mem xml parent (CHR ''<'') s = Inr (Break s1)"
    using assms(1) by (auto simp: step_unfold ready_def s1_def)
  moreover have f: "ptr s1 = ptr s" "state s1 = IGNORE_SPACES" "next_state s1 = BEGIN_NODE" "events s1 = evs"
    "nsubs s1 = n" "nbrackets s1 = 0"
    using assms(1) by (auto simp: s1_def ready_def skip_to_def count_sub_def emit_def)
  ultimately obtain l where
    "do_parse_xml mem xml parent s = do_parse_xml mem xml parent (s1\<lparr>ptr := Suc (ptr s), line := l\<rparr>)"
    using on_break1 [OF assms(2)] by fastforce
  with f show ?thesis by (intro exI [of _ "s1\<lparr>ptr := Suc (ptr s), line := l\<rparr>"]) simp
qed

lemma scan_name:
  assumes "state s \<in> {TAG_NAME, ATTRIB_NAME, CLOSE}" "name_ok n" "rest_at mem s = n @ d # r"
  shows "\<exists>l. do_parse_xml mem xml parent s = do_parse_xml mem xml parent (s\<lparr>ptr := ptr s + length n, line := l\<rparr>)"
proof (rule scan [OF _ assms(3)])
  from assms(2) show "NUL \<notin> set n" by (rule name_okD)
  show "step mem xml parent (n ! k) (s\<lparr>ptr := ptr s + k, line := l\<rparr>) = Inr (Break (s\<lparr>ptr := ptr s + k, line := l\<rparr>))"
    if "k < length n" for k l
    using assms(1,2) that
    by (auto simp: step_unfold step_tag_name_def step_attrib_name_def step_close_def elim!: name_okD)
qed

lemma open_tag:
  assumes "ready mem s evs k" "name_ok n" "rest_at mem s = CHR ''<'' # n @ d # r" "\<not> is_valid_char d" "d \<noteq> NUL"
  shows "\<exists>s'. do_parse_xml mem xml parent s = do_parse_xml mem xml parent s' \<and> in_body s' n [] evs k \<and>
    ptr s' = ptr s + Suc (length n)"
proof -
  obtain c cs where n: "n = c # cs" "is_valid_char c" using assms(2) by (auto elim: name_okD)
  obtain s1 where s1: "do_parse_xml mem xml parent s = do_parse_xml mem xml parent s1" "state s1 = IGNORE_SPACES"
    "next_state s1 = BEGIN_NODE" "ptr s1 = Suc (ptr s)" "events s1 = evs" "nsubs s1 = k" "nbrackets s1 = 0"
    using open_angle [OF assms(1), of c "cs @ d # r"] assms(3) n by auto
  have r1: "drop (Suc (ptr s)) mem = n @ d # r" using drop_ConsD [OF assms(3)] by simp
  let ?s2 = "s1\<lparr>state := TAG_NAME, start := ptr s1\<rparr>"
  have "do_parse_xml mem xml parent s1 = do_parse_xml mem xml parent (s1\<lparr>state := BEGIN_NODE\<rparr>)"
    using unskip [of s1 mem c "cs @ d # r"] s1 r1 n valid_charD [OF n(2)] by simp
  also have "\<dots> = do_parse_xml mem xml parent ?s2"
    using valid_charD [OF n(2)] r1 n s1(4)
    by (intro on_continue [where c = c and r = "cs @ d # r"]) (auto simp: step_unfold step_begin_node_def)
  finally have s2: "do_parse_xml mem xml parent s = do_parse_xml mem xml parent ?s2" using s1(1) by simp
  from scan_name [of ?s2 n mem d r xml parent] assms(2) r1 s1(4) obtain l where
    s3: "do_parse_xml mem xml parent ?s2 = do_parse_xml mem xml parent (?s2\<lparr>ptr := ptr s1 + length n, line := l\<rparr>)"
    by auto
  let ?s3 = "?s2\<lparr>ptr := ptr s1 + length n, line := l\<rparr>"
  have d: "drop (ptr s1 + length n) mem = d # r" using drop_append [of "Suc (ptr s)" mem n] r1 s1(4) by simp
  have sub: "sub mem (ptr s1) (ptr s1 + length n) = n" using sub_text [of "Suc (ptr s)" mem n] r1 s1(4) by simp
  let ?s4 = "skip_to BODY (?s3\<lparr>nodename := n, attribs := []\<rparr>)"
  have "step mem xml parent d ?s3 = Inr (Continue ?s4)"
    using assms(4) n sub by (simp add: step_unfold step_tag_name_def)
  with d assms(5) have "do_parse_xml mem xml parent ?s3 = do_parse_xml mem xml parent ?s4"
    by (intro on_continue) auto
  then have "do_parse_xml mem xml parent s = do_parse_xml mem xml parent ?s4" using s2 s3 by simp
  then show ?thesis using s1 by (intro exI [of _ ?s4]) (simp add: in_body_def skip_to_def)
qed

text \<open>Behind the name of an attribute, and inside its value.\<close>

definition named :: "parser \<Rightarrow> string \<Rightarrow> string \<Rightarrow> attrs \<Rightarrow> event list \<Rightarrow> int \<Rightarrow> bool" where
  "named s a n as evs k \<longleftrightarrow> aname s = a \<and> nodename s = n \<and> attribs s = as \<and>
     events s = evs \<and> nsubs s = k \<and> nbrackets s = 0"

lemma take_break:
  assumes "rest_at mem s = c # d # r" "c \<noteq> NUL" "step mem xml parent c s = Inr (Break s')" "ptr s' = ptr s"
  obtains l where "do_parse_xml mem xml parent s = do_parse_xml mem xml parent (s'\<lparr>ptr := Suc (ptr s), line := l\<rparr>)"
  using on_break1 [OF assms] by blast

lemma attribute_name:
  assumes b: "in_body s n as evs k" and "name_ok a" "a \<notin> fst ` set as"
    and r0: "rest_at mem s = CHR '' '' # a @ CHR ''='' # d # r"
  shows "\<exists>s'. do_parse_xml mem xml parent s = do_parse_xml mem xml parent s' \<and> named s' a n as evs k \<and>
    state s' = EQUALS \<and> ptr s' = ptr s + Suc (length a)"
proof -
  obtain c cs where a: "a = c # cs" "is_valid_char c" using assms(2) by (auto elim: name_okD)
  note b = b [unfolded in_body_def]
  obtain l1 where s1: "do_parse_xml mem xml parent s = do_parse_xml mem xml parent (s\<lparr>ptr := Suc (ptr s), line := l1\<rparr>)"
    by (rule take_break [where s = s and s' = s and c = "CHR '' ''" and mem = mem and d = c])
      (use r0 a b in \<open>auto simp: step_unfold is_space_def\<close>)
  let ?s1 = "s\<lparr>ptr := Suc (ptr s), line := l1\<rparr>"
  have r1: "drop (Suc (ptr s)) mem = a @ CHR ''='' # d # r" using drop_ConsD [OF r0] by simp
  let ?s2 = "?s1\<lparr>state := ATTRIB_NAME, start := Suc (ptr s)\<rparr>"
  have "do_parse_xml mem xml parent ?s1 = do_parse_xml mem xml parent (?s1\<lparr>state := BODY\<rparr>)"
    using unskip [of ?s1 mem c] r1 a b valid_charD [OF a(2)] by simp
  also have "\<dots> = do_parse_xml mem xml parent ?s2"
    using valid_charD [OF a(2)] r1 a
    by (intro on_continue [where c = c]) (auto simp: step_unfold step_body_def)
  finally have s2: "do_parse_xml mem xml parent s = do_parse_xml mem xml parent ?s2" using s1 by simp
  from scan_name [of ?s2 a mem "CHR ''=''" "d # r" xml parent] assms(2) r1 obtain l2 where
    s3: "do_parse_xml mem xml parent ?s2 = do_parse_xml mem xml parent (?s2\<lparr>ptr := Suc (ptr s) + length a, line := l2\<rparr>)"
    by auto
  let ?i = "Suc (ptr s) + length a"
  let ?s3 = "?s2\<lparr>ptr := ?i, line := l2\<rparr>"
  let ?s4 = "skip_to EQUALS (?s3\<lparr>aname := a\<rparr>)"
  have r3: "drop ?i mem = CHR ''='' # d # r" using drop_append [OF r1] by simp
  have sub1: "sub mem (Suc (ptr s)) ?i = a" using sub_text [OF r1] by simp
  have "step mem xml parent (CHR ''='') ?s3 = Inr (Continue ?s4)"
    using a assms(3) b sub1 by (simp add: step_unfold step_attrib_name_def Let_def map_of_eq_None_iff)
  with r3 have "do_parse_xml mem xml parent ?s3 = do_parse_xml mem xml parent ?s4"
    by (intro on_continue) auto
  also have "\<dots> = do_parse_xml mem xml parent (?s4\<lparr>state := EQUALS\<rparr>)"
    using unskip [of ?s4 mem "CHR ''=''"] r3 by (simp add: skip_to_def is_space_def)
  finally show ?thesis using s2 s3 b
    by (intro exI [of _ "?s4\<lparr>state := EQUALS\<rparr>"]) (simp add: skip_to_def named_def)
qed

lemma attribute_value:
  assumes b: "named s a n as evs k" "state s = EQUALS" and v: "NUL \<notin> set v" "CHR 0x22 \<notin> set v"
    and r0: "rest_at mem s = CHR ''='' # CHR 0x22 # v @ CHR 0x22 # d # r"
  shows "\<exists>s'. do_parse_xml mem xml parent s = do_parse_xml mem xml parent s' \<and> in_body s' n (as @ [(a, v)]) evs k \<and>
    ptr s' = ptr s + 3 + length v"
proof -
  note b = b [unfolded named_def]
  let ?i = "ptr s"
  let ?s1 = "\<lambda>l. skip_to ATTVAL_BEGIN s\<lparr>ptr := Suc ?i, line := l\<rparr>"
  obtain l1 where s1: "do_parse_xml mem xml parent s = do_parse_xml mem xml parent (?s1 l1)"
    by (rule take_break [where s = s and s' = "skip_to ATTVAL_BEGIN s" and c = "CHR ''=''" and mem = mem and d = "CHR 0x22"])
      (use r0 b in \<open>auto simp: step_unfold skip_to_def\<close>)
  have r1: "drop (Suc ?i) mem = CHR 0x22 # v @ CHR 0x22 # d # r" using drop_ConsD [OF r0] by simp
  have q: "Suc ?i < length mem" "mem ! Suc ?i = CHR 0x22" using drop_ConsD [OF r1] by auto
  let ?s2 = "(?s1 l1)\<lparr>state := ATTVAL_BEGIN\<rparr>"
  have s2: "do_parse_xml mem xml parent (?s1 l1) = do_parse_xml mem xml parent ?s2"
    using unskip [of "?s1 l1" mem "CHR 0x22"] r1 by (simp add: skip_to_def is_space_def)
  let ?s3 = "?s2\<lparr>state := ATTRIB_VAL, start := Suc ?i\<rparr>"
  obtain l2 where s3: "do_parse_xml mem xml parent ?s2 =
      do_parse_xml mem xml parent (?s3\<lparr>ptr := Suc (Suc ?i), line := l2\<rparr>)"
    using r1 by (cases v; auto simp: step_unfold skip_to_def
      intro: take_break [where s = ?s2 and s' = ?s3 and c = "CHR 0x22" and mem = mem and xml = xml and parent = parent])
  have r3: "drop (Suc (Suc ?i)) mem = v @ CHR 0x22 # d # r" using drop_ConsD [OF r1] by simp
  let ?s4 = "?s3\<lparr>ptr := Suc (Suc ?i), line := l2\<rparr>"
  have "\<exists>l. do_parse_xml mem xml parent ?s4 = do_parse_xml mem xml parent (?s4\<lparr>ptr := ptr ?s4 + length v, line := l\<rparr>)"
  proof (rule scan)
    show "step mem xml parent (v ! j) (?s4\<lparr>ptr := ptr ?s4 + j, line := l\<rparr>) =
        Inr (Break (?s4\<lparr>ptr := ptr ?s4 + j, line := l\<rparr>))" if "j < length v" for j l
    proof -
      have "v ! j \<noteq> CHR 0x22" using that v(2) by (metis nth_mem)
      with q show ?thesis by (simp add: step_unfold step_attrib_val_def)
    qed
  qed (use r3 v in auto)
  then obtain l3 where s5: "do_parse_xml mem xml parent ?s4 =
      do_parse_xml mem xml parent (?s4\<lparr>ptr := Suc (Suc ?i) + length v, line := l3\<rparr>)" by auto
  let ?s5 = "?s4\<lparr>ptr := Suc (Suc ?i) + length v, line := l3\<rparr>"
  let ?s6 = "skip_to BODY (?s5\<lparr>attribs := as @ [(a, v)]\<rparr>)"
  have r5: "drop (Suc (Suc ?i) + length v) mem = CHR 0x22 # d # r" using drop_append [OF r3] by simp
  obtain l4 where s6: "do_parse_xml mem xml parent ?s5 =
      do_parse_xml mem xml parent (?s6\<lparr>ptr := Suc (Suc (Suc ?i) + length v), line := l4\<rparr>)"
    by (rule take_break [where s = ?s5 and s' = ?s6 and c = "CHR 0x22" and mem = mem and d = d])
      (use r5 q b sub_text [OF r3] in \<open>auto simp: step_unfold step_attrib_val_def skip_to_def\<close>)
  show ?thesis using s1 s2 s3 s5 s6 b
    by (intro exI [of _ "?s6\<lparr>ptr := Suc (Suc (Suc ?i) + length v), line := l4\<rparr>"]) (simp add: in_body_def skip_to_def)
qed

lemma attribute:
  assumes "in_body s n as evs k" "name_ok a" "a \<notin> fst ` set as" "NUL \<notin> set v" "CHR 0x22 \<notin> set v"
    and "rest_at mem s = attr_text (a, v) @ d # r"
  shows "\<exists>s'. do_parse_xml mem xml parent s = do_parse_xml mem xml parent s' \<and> in_body s' n (as @ [(a, v)]) evs k \<and>
    ptr s' = ptr s + length (attr_text (a, v))"
proof -
  have r: "rest_at mem s = (CHR '' '' # a) @ CHR ''='' # CHR 0x22 # v @ CHR 0x22 # d # r" using assms(6) by simp
  from attribute_name [OF assms(1-3), of mem "CHR 0x22" "v @ CHR 0x22 # d # r"] r obtain s1 where
    s1: "do_parse_xml mem xml parent s = do_parse_xml mem xml parent s1" "named s1 a n as evs k" "state s1 = EQUALS"
      "ptr s1 = ptr s + Suc (length a)" by auto
  have "rest_at mem s1 = CHR ''='' # CHR 0x22 # v @ CHR 0x22 # d # r" using drop_append [OF r] s1(4) by simp
  from attribute_value [OF s1(2,3) assms(4,5) this] s1(1,4) show ?thesis by fastforce
qed

lemma attributes:
  assumes "in_body s n as evs k" "attrs_ok (as @ bs)" "rest_at mem s = attrs_text bs @ d # r"
  shows "\<exists>s'. do_parse_xml mem xml parent s = do_parse_xml mem xml parent s' \<and> in_body s' n (as @ bs) evs k \<and>
    ptr s' = ptr s + length (attrs_text bs)"
  using assms
proof (induction bs arbitrary: s as)
  case Nil
  then show ?case by (intro exI [of _ s]) (simp add: attrs_text_def)
next
  case (Cons b bs)
  obtain a v where b: "b = (a, v)" by (cases b)
  have r: "rest_at mem s = attr_text (a, v) @ attrs_text bs @ d # r" using Cons.prems(3) by (simp add: attrs_text_def b)
  then obtain e q where e: "rest_at mem s = attr_text (a, v) @ e # q" by (cases "attrs_text bs") auto
  have "name_ok a" "a \<notin> fst ` set as" "NUL \<notin> set v" "CHR 0x22 \<notin> set v"
    using Cons.prems(2) by (auto simp: attrs_ok_def b)
  from attribute [OF Cons.prems(1) this e] obtain s1 where
    s1: "do_parse_xml mem xml parent s = do_parse_xml mem xml parent s1" "in_body s1 n (as @ [b]) evs k"
      "ptr s1 = ptr s + length (attr_text b)" by (auto simp: b)
  have "rest_at mem s1 = attrs_text bs @ d # r" using drop_append [OF r] s1(3) b by simp
  from Cons.IH [OF s1(2) _ this] Cons.prems(2) s1(1,3) show ?case by (fastforce simp: attrs_text_def)
qed

section \<open>Markup without children\<close>

text \<open>The state behind a node: nothing is open.\<close>

definition between :: "parser \<Rightarrow> event list \<Rightarrow> int \<Rightarrow> bool" where
  "between s evs n \<longleftrightarrow> state s = BEGIN \<and> events s = evs \<and> nsubs s = n \<and> nbrackets s = 0"

lemma between_ready: "between s evs n \<Longrightarrow> ready mem s evs n"
  by (simp add: between_def ready_def)

text \<open>From the angle bracket to the end of the head of an element.\<close>

lemma element_head:
  assumes "ready mem s evs k" "name_ok n" "attrs_ok as" "rest_at mem s = CHR ''<'' # n @ attrs_text as @ d # r"
    and "d = CHR ''/'' \<or> d = CHR ''>''"
  shows "\<exists>s'. do_parse_xml mem xml parent s = do_parse_xml mem xml parent s' \<and> state s' = BODY \<and> nodename s' = n \<and>
    attribs s' = as \<and> events s' = evs \<and> nsubs s' = k \<and> nbrackets s' = 0 \<and>
    ptr s' = ptr s + Suc (length n + length (attrs_text as))"
proof -
  have "\<exists>e q. attrs_text as @ d # r = e # q \<and> \<not> is_valid_char e \<and> e \<noteq> NUL"
    using assms(5) by (cases as; cases "hd as") (auto simp: attrs_text_def)
  then obtain e q where e: "attrs_text as @ d # r = e # q" "\<not> is_valid_char e" "e \<noteq> NUL" by blast
  have r: "rest_at mem s = (CHR ''<'' # n) @ attrs_text as @ d # r" using assms(4) by simp
  from open_tag [OF assms(1,2) _ e(2,3)] assms(4) e(1) obtain s1 where
    s1: "do_parse_xml mem xml parent s = do_parse_xml mem xml parent s1" "in_body s1 n [] evs k"
      "ptr s1 = ptr s + Suc (length n)" by fastforce
  have r1: "rest_at mem s1 = attrs_text as @ d # r" using drop_append [OF r] s1(3) by simp
  from attributes [OF s1(2) _ r1] assms(3) obtain s2 where
    s2: "do_parse_xml mem xml parent s1 = do_parse_xml mem xml parent s2" "in_body s2 n as evs k"
      "ptr s2 = ptr s1 + length (attrs_text as)" by auto
  have "rest_at mem s2 = d # r" using drop_append [OF r1] s2(3) by simp
  with s2(2) assms(5) have "do_parse_xml mem xml parent s2 = do_parse_xml mem xml parent (s2\<lparr>state := BODY\<rparr>)"
    using unskip [of s2 mem d r] by (auto simp: in_body_def is_space_def)
  with s1 s2 show ?thesis by (intro exI [of _ "s2\<lparr>state := BODY\<rparr>"]) (simp add: in_body_def)
qed

lemma empty_element:
  assumes "ready mem s evs k" "name_ok n" "attrs_ok as" "rest_at mem s = node_text (EmptyElem n as) @ d # r"
  shows "\<exists>s'. do_parse_xml mem xml parent s = do_parse_xml mem xml parent s' \<and>
    between s' (evs @ [Xml n as, Done]) (k + 1) \<and> ptr s' = ptr s + length (node_text (EmptyElem n as))"
proof -
  have r0: "rest_at mem s = (CHR ''<'' # n @ attrs_text as) @ CHR ''/'' # CHR ''>'' # d # r" using assms(4) by simp
  from element_head [OF assms(1-3), of "CHR ''/''" "CHR ''>'' # d # r"] r0 obtain s1 where
    s1: "do_parse_xml mem xml parent s = do_parse_xml mem xml parent s1" "state s1 = BODY" "nodename s1 = n"
      "attribs s1 = as" "events s1 = evs" "nsubs s1 = k" "nbrackets s1 = 0"
      "ptr s1 = ptr s + Suc (length n + length (attrs_text as))" by auto
  have r1: "rest_at mem s1 = CHR ''/'' # CHR ''>'' # d # r" using drop_append [OF r0] s1(8) by simp
  let ?s2 = "emit (Xml n as) (count_sub (s1\<lparr>state := WAIT_END\<rparr>))"
  obtain l2 where s2: "do_parse_xml mem xml parent s1 = do_parse_xml mem xml parent (?s2\<lparr>ptr := Suc (ptr s1), line := l2\<rparr>)"
    by (rule take_break [where s = s1 and s' = ?s2, OF r1]) (use s1 in \<open>auto simp: step_unfold step_body_def emit_def count_sub_def\<close>)
  let ?s3 = "?s2\<lparr>ptr := Suc (ptr s1), line := l2\<rparr>"
  have r3: "rest_at mem ?s3 = CHR ''>'' # d # r" using drop_ConsD [OF r1] by simp
  let ?s4 = "emit Done (?s3\<lparr>state := BEGIN\<rparr>)"
  obtain l4 where s4: "do_parse_xml mem xml parent ?s3 = do_parse_xml mem xml parent (?s4\<lparr>ptr := Suc (ptr ?s3), line := l4\<rparr>)"
    by (rule take_break [where s = ?s3 and s' = ?s4, OF r3]) (auto simp: step_unfold emit_def count_sub_def)
  show ?thesis using s1 s2 s4
    by (intro exI [of _ "?s4\<lparr>ptr := Suc (ptr ?s3), line := l4\<rparr>"]) (simp add: between_def emit_def count_sub_def)
qed

end
