(* ===== verification/XmlRoundTrip.thy ===== *)
theory XmlRoundTrip imports XmlMarkup begin

text \<open>
  The round trip of the XML parser, from the sections between angle brackets to whole documents.
\<close>

section \<open>Comparing with the text\<close>

lemma looking_at_True:
  "drop i mem = w @ r \<Longrightarrow> list_all2 (\<lambda>c cs. c \<in> set cs) w pats \<Longrightarrow> looking_at mem i pats = Inr True"
proof (induction pats arbitrary: i w)
  case (Cons cs pats)
  then obtain c w' where w: "w = c # w'" "c \<in> set cs" "list_all2 (\<lambda>c cs. c \<in> set cs) w' pats"
    by (auto simp: list_all2_Cons2)
  with Cons.prems drop_ConsD [of i mem c "w' @ r"] Cons.IH [of "Suc i" w'] show ?case by simp
qed simp

lemma looking_at_word:
  "drop i mem = u @ r \<Longrightarrow> length en \<le> length u \<Longrightarrow>
     looking_at mem i (map (\<lambda>c. [c]) en) = Inr (take (length en) u = en)"
proof (induction en arbitrary: i u)
  case (Cons e en)
  then obtain c u' where u: "u = c # u'" by (cases u) auto
  with Cons.prems drop_ConsD [of i mem c "u' @ r"] Cons.IH [of "Suc i" u'] show ?case by auto
qed simp

text \<open>Inside a section that ends with \<open>en\<close> nothing is taken for the end before its time.\<close>

lemma not_yet:
  assumes "closes_first en t" "drop i mem = t @ en @ d # r" "k < length t"
  shows "looking_at mem (i + k) (map (\<lambda>c. [c]) en) = Inr False"
proof -
  have "drop (i + k) mem = drop k t @ en @ d # r"
    using assms(2,3) drop_drop [of k i mem] by (simp add: add.commute)
  then have "drop (i + k) mem = drop k (t @ en) @ d # r" using assms(3) by simp
  from looking_at_word [OF this, of en] assms(1,3) show ?thesis by (auto simp: closes_first_def)
qed

lemma at_last:
  assumes "drop i mem = t @ en @ d # r"
  shows "looking_at mem (i + length t) (map (\<lambda>c. [c]) en) = Inr True"
  using looking_at_word [of "i + length t" mem "en @ [d]" r en] drop_append [OF assms] by simp

section \<open>Sections, remarks, instructions\<close>

lemma markup_start:
  assumes "ready mem s evs k" "rest_at mem s = CHR ''<'' # c # r" "c \<noteq> NUL" "\<not> is_space c"
  shows "\<exists>s'. do_parse_xml mem xml parent s = do_parse_xml mem xml parent s' \<and> state s' = BEGIN_NODE \<and>
    ptr s' = Suc (ptr s) \<and> events s' = evs \<and> nsubs s' = k \<and> nbrackets s' = 0"
proof -
  from open_angle [OF assms(1,2)] obtain s1 where
    s1: "do_parse_xml mem xml parent s = do_parse_xml mem xml parent s1" "state s1 = IGNORE_SPACES"
      "next_state s1 = BEGIN_NODE" "ptr s1 = Suc (ptr s)" "events s1 = evs" "nsubs s1 = k" "nbrackets s1 = 0" by auto
  have "rest_at mem s1 = c # r" using drop_ConsD [OF assms(2)] s1(4) by simp
  from unskip [OF s1(2) this assms(3,4)] s1 show ?thesis
    by (intro exI [of _ "s1\<lparr>state := BEGIN_NODE\<rparr>"]) simp
qed

text \<open>\<open>head\<close> opens the section, \<open>en\<close> closes it; \<open>ev\<close> is the event of its text.\<close>

lemma section_body:
  assumes s: "state s = X" "start s + j = ptr s" "events s = evs" "nsubs s = k" "nbrackets s = 0"
    and t: "closes_first en t" "rest_at mem s = t @ en @ d # r" "en \<noteq> []" "NUL \<notin> set en"
    and inside: "\<And>s'. state s' = X \<Longrightarrow> looking_at mem (ptr s') (map (\<lambda>c. [c]) en) = Inr False \<Longrightarrow>
        step mem xml parent (mem ! ptr s') s' = Inr (Break s')"
    and last: "\<And>s'. state s' = X \<Longrightarrow> looking_at mem (ptr s') (map (\<lambda>c. [c]) en) = Inr True \<Longrightarrow>
        \<exists>s2. step mem xml parent (mem ! ptr s') s' = Inr (Break s2) \<and> state s2 = BEGIN \<and> ptr s2 = ptr s' + (length en - 1) \<and>
          events s2 = events s' @ [ev (start s') (ptr s')] \<and> nsubs s2 = nsubs s' + m \<and> nbrackets s2 = nbrackets s'"
  shows "\<exists>s'. do_parse_xml mem xml parent s = do_parse_xml mem xml parent s' \<and>
    between s' (evs @ [ev (start s) (ptr s + length t)]) (k + m) \<and> ptr s' = ptr s + length t + length en"
proof -
  obtain e es where en: "en = e # es" using t(3) by (cases en) auto
  have idx: "k < length t \<Longrightarrow> mem ! (ptr s + k) = t ! k" for k
    using t(2) by (metis (no_types, lifting) drop_all leI less_imp_le list.discI append_is_Nil_conv nth_append nth_drop)
  have "\<exists>l. do_parse_xml mem xml parent s = do_parse_xml mem xml parent (s\<lparr>ptr := ptr s + length t, line := l\<rparr>)"
  proof (rule scan)
    show "step mem xml parent (t ! k) (s\<lparr>ptr := ptr s + k, line := l\<rparr>) = Inr (Break (s\<lparr>ptr := ptr s + k, line := l\<rparr>))"
      if "k < length t" for k l
      using inside [of "s\<lparr>ptr := ptr s + k, line := l\<rparr>"] not_yet [OF t(1,2) that] s(1) idx [OF that] by simp
    show "rest_at mem s = t @ e # es @ d # r" using t(2) en by simp
    show "NUL \<notin> set t" using t(1) by (simp add: closes_first_def)
  qed
  then obtain l where s1: "do_parse_xml mem xml parent s = do_parse_xml mem xml parent (s\<lparr>ptr := ptr s + length t, line := l\<rparr>)" ..
  let ?s1 = "s\<lparr>ptr := ptr s + length t, line := l\<rparr>"
  have r1: "rest_at mem ?s1 = e # es @ d # r" using drop_append [OF t(2)] en by simp
  have c: "mem ! ptr ?s1 = e" using drop_ConsD [OF r1] by simp
  from last [of ?s1] at_last [OF t(2)] s(1) c obtain s2 where
    s2: "step mem xml parent e ?s1 = Inr (Break s2)" "state s2 = BEGIN" "ptr s2 = ptr ?s1 + length es"
      "events s2 = events s @ [ev (start s) (ptr s + length t)]" "nsubs s2 = nsubs s + m" "nbrackets s2 = nbrackets s"
    by (auto simp: en)
  have "drop (ptr s2 + 1) mem = d # r" using drop_append [of "ptr ?s1" mem "e # es"] r1 s2(3) by simp
  then have "Suc (ptr s2) < length mem" using drop_ConsD [of "Suc (ptr s2)" mem d r] by simp
  from on_break [OF r1 _ s2(1) this] t(4) en obtain l2 where
    "do_parse_xml mem xml parent ?s1 = do_parse_xml mem xml parent (s2\<lparr>ptr := Suc (ptr s2), line := l2\<rparr>)" by auto
  with s1 s2 s(3-5) show ?thesis
    by (intro exI [of _ "s2\<lparr>ptr := Suc (ptr s2), line := l2\<rparr>"]) (simp add: between_def en)
qed

lemma cdata_section:
  assumes "ready mem s evs k" "closes_first '']]>'' t" "rest_at mem s = node_text (Section t) @ d # r"
  shows "\<exists>s'. do_parse_xml mem xml parent s = do_parse_xml mem xml parent s' \<and>
    between s' (evs @ [Cdata t]) (k + 1) \<and> ptr s' = ptr s + length (node_text (Section t))"
proof -
  have r0: "rest_at mem s = CHR ''<'' # CHR ''!'' # ''[CDATA['' @ t @ '']]>'' @ d # r" using assms(3) by simp
  from markup_start [OF assms(1) r0] obtain s1 where
    s1: "do_parse_xml mem xml parent s = do_parse_xml mem xml parent s1" "state s1 = BEGIN_NODE"
      "ptr s1 = Suc (ptr s)" "events s1 = evs" "nsubs s1 = k" "nbrackets s1 = 0" by (auto simp: is_space_def)
  have r1: "rest_at mem s1 = CHR ''!'' # ''[CDATA['' @ t @ '']]>'' @ d # r" using drop_ConsD [OF r0] s1(3) by simp
  have r2: "drop (Suc (ptr s1)) mem = CHR ''['' # ''CDATA['' @ t @ '']]>'' @ d # r" using drop_ConsD [OF r1] by simp
  have "drop (ptr s1 + 2) mem = ''CDATA['' @ t @ '']]>'' @ d # r" using drop_ConsD [OF r2] by simp
  then have la: "looking_at mem (ptr s1 + 2) [''Cc'', ''Dd'', ''Aa'', ''Tt'', ''Aa'', ''['']  = Inr True"
    by (rule looking_at_True) simp
  let ?s2 = "s1\<lparr>ptr := ptr s1 + 7, state := CDATA, start := ptr s1 + 8\<rparr>"
  have st: "step mem xml parent (CHR ''!'') s1 = Inr (Break ?s2)"
    using s1 drop_ConsD [OF r2] la by (simp add: step_unfold step_begin_node_def step_markup_def Let_def del: looking_at.simps)
  have r8: "drop (ptr s1 + 8) mem = t @ '']]>'' @ d # r" using drop_append [of "ptr s1" mem "''![CDATA[''"] r1 by (simp add: eval_nat_numeral)
  then have "Suc (ptr ?s2) < length mem" by (cases "ptr s1 + 8 < length mem") auto
  from on_break [OF r1 _ st this] obtain l where
    s3: "do_parse_xml mem xml parent s1 = do_parse_xml mem xml parent (?s2\<lparr>ptr := ptr s1 + 8, line := l\<rparr>)" by (auto simp: add.commute)
  let ?s3 = "?s2\<lparr>ptr := ptr s1 + 8, line := l\<rparr>"
  have "\<exists>s'. do_parse_xml mem xml parent ?s3 = do_parse_xml mem xml parent s' \<and>
      between s' (evs @ [Cdata (sub mem (start ?s3) (ptr ?s3 + length t))]) (k + 1) \<and>
      ptr s' = ptr ?s3 + length t + length '']]>''"
    by (rule section_body [where X = CDATA and ev = "\<lambda>i j. Cdata (sub mem i j)" and j = 0])
      (use s1 r8 assms(2) in \<open>simp_all add: step_unfold emit_def count_sub_def\<close>)
  with s1 s3 sub_text [OF r8] show ?thesis by (auto simp: numeral_eq_Suc)
qed

lemma remark:
  assumes "ready mem s evs k" "closes_first ''-->'' t" "rest_at mem s = node_text (Remark t) @ d # r"
  shows "\<exists>s'. do_parse_xml mem xml parent s = do_parse_xml mem xml parent s' \<and>
    between s' (evs @ [Comment t]) k \<and> ptr s' = ptr s + length (node_text (Remark t))"
proof -
  have r0: "rest_at mem s = CHR ''<'' # CHR ''!'' # ''--'' @ t @ ''-->'' @ d # r" using assms(3) by simp
  from markup_start [OF assms(1) r0] obtain s1 where
    s1: "do_parse_xml mem xml parent s = do_parse_xml mem xml parent s1" "state s1 = BEGIN_NODE"
      "ptr s1 = Suc (ptr s)" "events s1 = evs" "nsubs s1 = k" "nbrackets s1 = 0" by (auto simp: is_space_def)
  have r1: "rest_at mem s1 = CHR ''!'' # ''--'' @ t @ ''-->'' @ d # r" using drop_ConsD [OF r0] s1(3) by simp
  have r2: "drop (Suc (ptr s1)) mem = ''--'' @ t @ ''-->'' @ d # r" using drop_ConsD [OF r1] by simp
  then have la: "looking_at mem (Suc (ptr s1)) [''-'', ''-'']  = Inr True" by (rule looking_at_True) simp
  let ?s2 = "s1\<lparr>ptr := ptr s1 + 2, state := COMMENT, start := ptr s1 + 3\<rparr>"
  have st: "step mem xml parent (CHR ''!'') s1 = Inr (Break ?s2)"
    using s1 drop_ConsD [of "Suc (ptr s1)" mem "CHR ''-''"] r2 la
    by (simp add: step_unfold step_begin_node_def step_markup_def Let_def del: looking_at.simps)
  have r3: "drop (ptr s1 + 3) mem = t @ ''-->'' @ d # r" using drop_append [of "ptr s1" mem "''!--''"] r1 by (simp add: eval_nat_numeral)
  then have "Suc (ptr ?s2) < length mem" by (cases "ptr s1 + 3 < length mem") auto
  from on_break [OF r1 _ st this] obtain l where
    s3: "do_parse_xml mem xml parent s1 = do_parse_xml mem xml parent (?s2\<lparr>ptr := ptr s1 + 3, line := l\<rparr>)" by (auto simp: eval_nat_numeral)
  let ?s3 = "?s2\<lparr>ptr := ptr s1 + 3, line := l\<rparr>"
  have "\<exists>s'. do_parse_xml mem xml parent ?s3 = do_parse_xml mem xml parent s' \<and>
      between s' (evs @ [Comment (sub mem (start ?s3) (ptr ?s3 + length t))]) (k + 0) \<and>
      ptr s' = ptr ?s3 + length t + length ''-->''"
    by (rule section_body [where X = COMMENT and ev = "\<lambda>i j. Comment (sub mem i j)" and j = 0])
      (use s1 r3 assms(2) in \<open>simp_all add: step_unfold emit_def count_sub_def\<close>)
  with s1 s3 sub_text [OF r3] show ?thesis by (auto simp: numeral_eq_Suc)
qed

lemma instruction:
  assumes "ready mem s evs k" "closes_first ''?>'' t" "rest_at mem s = node_text (Instruction t) @ d # r"
  shows "\<exists>s'. do_parse_xml mem xml parent s = do_parse_xml mem xml parent s' \<and>
    between s' (evs @ [Comment (CHR ''?'' # t @ ''?'')]) k \<and> ptr s' = ptr s + length (node_text (Instruction t))"
proof -
  have r0: "rest_at mem s = CHR ''<'' # CHR ''?'' # t @ ''?>'' @ d # r" using assms(3) by simp
  from markup_start [OF assms(1) r0] obtain s1 where
    s1: "do_parse_xml mem xml parent s = do_parse_xml mem xml parent s1" "state s1 = BEGIN_NODE"
      "ptr s1 = Suc (ptr s)" "events s1 = evs" "nsubs s1 = k" "nbrackets s1 = 0" by (auto simp: is_space_def)
  have r1: "rest_at mem s1 = CHR ''?'' # t @ ''?>'' @ d # r" using drop_ConsD [OF r0] s1(3) by simp
  then have rr: "rest_at mem s1 = (CHR ''?'' # t @ ''?'') @ CHR ''>'' # d # r" by simp
  have r2: "drop (Suc (ptr s1)) mem = t @ ''?>'' @ d # r" using drop_ConsD [OF r1] by simp
  let ?s2 = "s1\<lparr>state := HEADER, start := ptr s1\<rparr>"
  have st: "step mem xml parent (CHR ''?'') s1 = Inr (Break ?s2)"
    using s1 by (simp add: step_unfold step_begin_node_def)
  have "Suc (ptr ?s2) < length mem" using r2 by (cases "Suc (ptr s1) < length mem") auto
  from on_break [OF r1 _ st this] obtain l where
    s3: "do_parse_xml mem xml parent s1 = do_parse_xml mem xml parent (?s2\<lparr>ptr := Suc (ptr s1), line := l\<rparr>)" by auto
  let ?s3 = "?s2\<lparr>ptr := Suc (ptr s1), line := l\<rparr>"
  have "\<exists>s'. do_parse_xml mem xml parent ?s3 = do_parse_xml mem xml parent s' \<and>
      between s' (evs @ [Comment (sub mem (start ?s3) (ptr ?s3 + length t + 1))]) (k + 0) \<and>
      ptr s' = ptr ?s3 + length t + length ''?>''"
    by (rule section_body [where X = HEADER and ev = "\<lambda>i j. Comment (sub mem i (j + 1))" and j = 1])
      (use s1 r2 assms(2) in \<open>simp_all add: step_unfold emit_def count_sub_def\<close>)
  with s1 s3 sub_text [OF rr] show ?thesis by auto
qed

lemma doctype_body:
  assumes "state s = DOCTYPE" "brackets_ok (nbrackets s) t" "rest_at mem s = t @ d # r"
  shows "\<exists>l. do_parse_xml mem xml parent s =
    do_parse_xml mem xml parent (s\<lparr>ptr := ptr s + length t, nbrackets := 0, line := l\<rparr>)"
  using assms
proof (induction t arbitrary: s)
  case Nil
  then have "s\<lparr>nbrackets := 0\<rparr> = s" by (cases s) simp
  then show ?case by (intro exI [of _ "line s"]) simp
next
  case (Cons c t)
  let ?b = "if c = CHR ''['' then nbrackets s + 1 else if c = CHR '']'' then nbrackets s - 1 else nbrackets s"
  have ok: "c \<noteq> NUL" "brackets_ok ?b t" "c = CHR ''>'' \<longrightarrow> nbrackets s \<noteq> 0" using Cons.prems(2) by (auto split: if_splits)
  have r: "drop (Suc (ptr s)) mem = t @ d # r" using drop_ConsD [of "ptr s" mem c "t @ d # r"] Cons.prems(3) by simp
  have "step mem xml parent c s = Inr (Break (s\<lparr>nbrackets := ?b\<rparr>))"
    using Cons.prems(1) ok(3) by (auto simp: step_unfold step_doctype_def)
  from on_break [OF _ ok(1) this] Cons.prems(3) r obtain l where
    s1: "do_parse_xml mem xml parent s = do_parse_xml mem xml parent (s\<lparr>nbrackets := ?b, ptr := Suc (ptr s), line := l\<rparr>)"
    by (cases "Suc (ptr s) < length mem") auto
  let ?s1 = "s\<lparr>nbrackets := ?b, ptr := Suc (ptr s), line := l\<rparr>"
  obtain l' where "do_parse_xml mem xml parent ?s1 =
      do_parse_xml mem xml parent (?s1\<lparr>ptr := ptr ?s1 + length t, nbrackets := 0, line := l'\<rparr>)"
    using Cons.IH [of ?s1] Cons.prems(1) ok(2) r by auto
  with s1 show ?case by auto
qed

lemma doctype:
  assumes "ready mem s evs k" "brackets_ok 0 t" "rest_at mem s = node_text (DocType t) @ d # r"
  shows "\<exists>s'. do_parse_xml mem xml parent s = do_parse_xml mem xml parent s' \<and>
    between s' (evs @ [Doctype t]) k \<and> ptr s' = ptr s + length (node_text (DocType t))"
proof -
  have r0: "rest_at mem s = CHR ''<'' # CHR ''!'' # ''DOCTYPE'' @ t @ CHR ''>'' # d # r" using assms(3) by simp
  from markup_start [OF assms(1) r0] obtain s1 where
    s1: "do_parse_xml mem xml parent s = do_parse_xml mem xml parent s1" "state s1 = BEGIN_NODE"
      "ptr s1 = Suc (ptr s)" "events s1 = evs" "nsubs s1 = k" "nbrackets s1 = 0" by (auto simp: is_space_def)
  have r1: "rest_at mem s1 = CHR ''!'' # ''DOCTYPE'' @ t @ CHR ''>'' # d # r" using drop_ConsD [OF r0] s1(3) by simp
  have r2: "drop (Suc (ptr s1)) mem = CHR ''D'' # ''OCTYPE'' @ t @ CHR ''>'' # d # r" using drop_ConsD [OF r1] by simp
  have "drop (ptr s1 + 2) mem = ''OCTYPE'' @ t @ CHR ''>'' # d # r" using drop_ConsD [OF r2] by simp
  then have la: "looking_at mem (ptr s1 + 2) [''Oo'', ''Cc'', ''Tt'', ''Yy'', ''Pp'', ''Ee'']  = Inr True"
    by (rule looking_at_True) simp
  let ?s2 = "s1\<lparr>ptr := ptr s1 + 7, state := DOCTYPE, start := ptr s1 + 8\<rparr>"
  have st: "step mem xml parent (CHR ''!'') s1 = Inr (Break ?s2)"
    using s1 drop_ConsD [OF r2] la by (simp add: step_unfold step_begin_node_def step_markup_def Let_def del: looking_at.simps)
  have r8: "drop (ptr s1 + 8) mem = t @ CHR ''>'' # d # r"
    using drop_append [of "ptr s1" mem "''!DOCTYPE''"] r1 by (simp add: eval_nat_numeral)
  then have "Suc (ptr ?s2) < length mem" by (cases "ptr s1 + 8 < length mem") auto
  from on_break [OF r1 _ st this] obtain l where
    s3: "do_parse_xml mem xml parent s1 = do_parse_xml mem xml parent (?s2\<lparr>ptr := ptr s1 + 8, line := l\<rparr>)"
    by (auto simp: add.commute)
  let ?s3 = "?s2\<lparr>ptr := ptr s1 + 8, line := l\<rparr>"
  obtain l' where s4: "do_parse_xml mem xml parent ?s3 =
      do_parse_xml mem xml parent (?s3\<lparr>ptr := ptr ?s3 + length t, nbrackets := 0, line := l'\<rparr>)"
    using doctype_body [of ?s3 t mem "CHR ''>''" "d # r" xml parent] s1(6) assms(2) r8 by auto
  let ?s4 = "?s3\<lparr>ptr := ptr ?s3 + length t, nbrackets := 0, line := l'\<rparr>"
  let ?s5 = "emit (Doctype t) (?s4\<lparr>state := BEGIN\<rparr>)"
  have r4: "rest_at mem ?s4 = CHR ''>'' # d # r" using drop_append [OF r8] by simp
  obtain l5 where "do_parse_xml mem xml parent ?s4 = do_parse_xml mem xml parent (?s5\<lparr>ptr := Suc (ptr ?s4), line := l5\<rparr>)"
    by (rule take_break [where s = ?s4 and s' = ?s5, OF r4])
      (use sub_text [OF r8] in \<open>simp_all add: step_unfold step_doctype_def emit_def\<close>)
  with s1 s3 s4 show ?thesis
    by (intro exI [of _ "?s5\<lparr>ptr := Suc (ptr ?s4), line := l5\<rparr>"]) (simp add: between_def emit_def)
qed

section \<open>Text and elements\<close>

lemma text_node:
  assumes "between s evs k" "0 \<le> k" "t \<noteq> []" "CHR ''<'' \<notin> set t" "NUL \<notin> set t" "rest_at mem s = t @ d # r"
  shows "\<exists>s'. do_parse_xml mem xml parent s = do_parse_xml mem xml parent s' \<and> ready mem s' (evs @ [Pcdata t]) (k + 1) \<and>
    ptr s' = ptr s + length t"
proof -
  note b = assms(1) [unfolded between_def]
  obtain c cs where t: "t = c # cs" using assms(3) by (cases t) auto
  let ?s1 = "s\<lparr>start := ptr s, state := PCDATA\<rparr>"
  have s1: "do_parse_xml mem xml parent s = do_parse_xml mem xml parent ?s1"
    using assms(4-6) t b by (intro on_continue [where c = c]) (auto simp: step_unfold)
  have "\<exists>l. do_parse_xml mem xml parent ?s1 = do_parse_xml mem xml parent (?s1\<lparr>ptr := ptr ?s1 + length t, line := l\<rparr>)"
  proof (rule scan)
    show "step mem xml parent (t ! j) (?s1\<lparr>ptr := ptr ?s1 + j, line := l\<rparr>) = Inr (Break (?s1\<lparr>ptr := ptr ?s1 + j, line := l\<rparr>))"
      if "j < length t" for j l
    proof -
      have "t ! j \<noteq> CHR ''<''" using that assms(4) by (metis nth_mem)
      then show ?thesis by (simp add: step_unfold)
    qed
  qed (use assms in auto)
  then obtain l where "do_parse_xml mem xml parent ?s1 = do_parse_xml mem xml parent (?s1\<lparr>ptr := ptr s + length t, line := l\<rparr>)"
    by auto
  with s1 b t assms(2) sub_text [OF assms(6)] show ?thesis
    by (intro exI [of _ "?s1\<lparr>ptr := ptr s + length t, line := l\<rparr>"]) (simp add: ready_def)
qed

text \<open>The name in a closing tag; then the tag ends the call that reads the children, or is an error.\<close>

lemma closing_name:
  assumes "ready mem s evs k" "name_ok m" "rest_at mem s = ''</'' @ m @ ''>'' @ d # r" "n \<noteq> []"
  shows "\<exists>s'. do_parse_xml mem xml (Some n) s = do_parse_xml mem xml (Some n) s' \<and> state s' = CLOSE \<and>
    events s' = evs \<and> nsubs s' = k \<and> ptr s' = ptr s + 2 + length m \<and> start s' \<noteq> ptr s' \<and>
    sub mem (start s') (ptr s') = m \<and> rest_at mem s' = CHR ''>'' # d # r"
proof -
  obtain c cs where m: "m = c # cs" "is_valid_char c" using assms(2) by (auto elim: name_okD)
  have r0: "rest_at mem s = CHR ''<'' # CHR ''/'' # m @ CHR ''>'' # d # r" using assms(3) by simp
  from markup_start [OF assms(1) r0] obtain s1 where
    s1: "do_parse_xml mem xml (Some n) s = do_parse_xml mem xml (Some n) s1" "state s1 = BEGIN_NODE"
      "ptr s1 = Suc (ptr s)" "events s1 = evs" "nsubs s1 = k" by (auto simp: is_space_def)
  have r1: "rest_at mem s1 = CHR ''/'' # m @ CHR ''>'' # d # r" using drop_ConsD [OF r0] s1(3) by simp
  let ?s2 = "skip_to CLOSE (s1\<lparr>start := Suc (ptr s1)\<rparr>)"
  obtain l2 where s2: "do_parse_xml mem xml (Some n) s1 = do_parse_xml mem xml (Some n) (?s2\<lparr>ptr := Suc (ptr s1), line := l2\<rparr>)"
    by (rule take_break [where s = s1 and s' = ?s2 and c = "CHR ''/''" and mem = mem])
      (use r1 m s1 assms(4) in \<open>auto simp: step_unfold step_begin_node_def skip_to_def\<close>)
  have r2: "drop (Suc (ptr s1)) mem = m @ CHR ''>'' # d # r" using drop_ConsD [OF r1] by simp
  let ?s3 = "?s2\<lparr>ptr := Suc (ptr s1), line := l2, state := CLOSE\<rparr>"
  have s3: "do_parse_xml mem xml (Some n) (?s2\<lparr>ptr := Suc (ptr s1), line := l2\<rparr>) = do_parse_xml mem xml (Some n) ?s3"
    using unskip [of "?s2\<lparr>ptr := Suc (ptr s1), line := l2\<rparr>" mem c] r2 m valid_charD [OF m(2)] by (simp add: skip_to_def)
  from scan_name [of ?s3 m mem "CHR ''>''" "d # r" xml "Some n"] assms(2) r2 obtain l4 where
    s4: "do_parse_xml mem xml (Some n) ?s3 = do_parse_xml mem xml (Some n) (?s3\<lparr>ptr := Suc (ptr s1) + length m, line := l4\<rparr>)"
    by auto
  with s1 s2 s3 sub_text [OF r2] drop_append [OF r2] m show ?thesis
    by (intro exI [of _ "?s3\<lparr>ptr := Suc (ptr s1) + length m, line := l4\<rparr>"]) (simp add: skip_to_def)
qed

lemma closing_tag:
  assumes "ready mem s evs k" "name_ok n" "rest_at mem s = ''</'' @ n @ ''>'' @ d # r"
  shows "\<exists>s'. do_parse_xml mem xml (Some n) s = Some (Inr (Returned s')) \<and>
    events s' = evs @ (if k = 0 then [Pcdata []] else []) \<and> ptr s' = ptr s + 2 + length n"
proof -
  have "n \<noteq> []" using assms(2) by (auto simp: name_ok_def)
  from closing_name [OF assms this] obtain s4 where
    s4: "do_parse_xml mem xml (Some n) s = do_parse_xml mem xml (Some n) s4" "state s4 = CLOSE" "events s4 = evs"
      "nsubs s4 = k" "ptr s4 = ptr s + 2 + length n" "start s4 \<noteq> ptr s4" "sub mem (start s4) (ptr s4) = n"
      "rest_at mem s4 = CHR ''>'' # d # r" by blast
  let ?s5 = "skip_to WAIT_END_RET s4"
  have "step mem xml (Some n) (CHR ''>'') s4 = Inr (Continue ?s5)"
    using s4 by (simp add: step_unfold step_close_def strcmpi_eq_def skip_to_def)
  from on_continue [OF s4(8) _ this] unskip [of ?s5 mem "CHR ''>''" "d # r" xml "Some n"] s4(8)
  have s5: "do_parse_xml mem xml (Some n) s4 = do_parse_xml mem xml (Some n) (?s5\<lparr>state := WAIT_END_RET\<rparr>)"
    by (simp add: skip_to_def is_space_def)
  let ?s6 = "?s5\<lparr>state := WAIT_END_RET\<rparr>"
  have "step_at mem xml (Some n) ?s6 = Inr (Return (if k = 0 then emit (Pcdata []) ?s6 else ?s6))" "reads mem ?s6"
    using drop_ConsD [OF s4(8)] s4(4) by (simp_all add: step_unfold skip_to_def reads_def)
  from loop_return [OF this(2,1)] s4 s5 show ?thesis
    by (intro exI [of _ "if k = 0 then emit (Pcdata []) ?s6 else ?s6"]) (simp add: skip_to_def emit_def)
qed

lemma wrong_closing_tag:
  assumes "ready mem s evs k" "name_ok m" "rest_at mem s = ''</'' @ m @ ''>'' @ d # r" "n \<noteq> []" "\<not> strcmpi_eq n m"
  shows "\<exists>msg. do_parse_xml mem xml (Some n) s =
    Some (Inr (Thrown (''Xml parse error : Expected </'' @ n @ ''>'' @ msg) evs))"
proof -
  from closing_name [OF assms(1-4)] obtain s4 where
    s4: "do_parse_xml mem xml (Some n) s = do_parse_xml mem xml (Some n) s4" "state s4 = CLOSE" "events s4 = evs"
      "nsubs s4 = k" "ptr s4 = ptr s + 2 + length m" "start s4 \<noteq> ptr s4" "sub mem (start s4) (ptr s4) = m"
      "rest_at mem s4 = CHR ''>'' # d # r" by blast
  have "step_at mem xml (Some n) s4 = Inr (Throw (xml_error mem xml s4 (''Expected </'' @ n @ ''>'')))" "reads mem s4"
    using s4 drop_ConsD [OF s4(8)] assms(5) by (simp_all add: step_unfold step_close_def throw_def Let_def reads_def)
  from loop_throw [OF this(2,1)] s4 show ?thesis by (auto simp: xml_error_def Let_def)
qed

lemma between_enter: "between (enter_parser i l evs) evs 0"
  by (simp add: between_def enter_parser_def)

text \<open>From the opening tag of an element to its content, which is read by a call.\<close>

lemma open_element:
  assumes "ready mem s evs k" "name_ok n" "attrs_ok as"
    and r0: "rest_at mem s = (CHR ''<'' # n @ attrs_text as) @ CHR ''>'' # c # cs"
  shows "\<exists>s'. do_parse_xml mem xml parent s = do_parse_xml mem xml parent s' \<and> state s' = CHILDS \<and> nodename s' = n \<and>
    events s' = evs @ [Xml n as] \<and> nsubs s' = k + 1 \<and> nbrackets s' = 0 \<and> rest_at mem s' = c # cs \<and>
    ptr s' = ptr s + 2 + length n + length (attrs_text as)"
proof -
  from element_head [OF assms(1-3), of "CHR ''>''" "c # cs"] r0 obtain s1 where
    s1: "do_parse_xml mem xml parent s = do_parse_xml mem xml parent s1" "state s1 = BODY" "nodename s1 = n"
      "attribs s1 = as" "events s1 = evs" "nsubs s1 = k" "nbrackets s1 = 0"
      "ptr s1 = ptr s + Suc (length n + length (attrs_text as))" by auto
  have r1: "rest_at mem s1 = CHR ''>'' # c # cs" using drop_append [OF r0] s1(8) by simp
  let ?s2 = "emit (Xml n as) (count_sub (s1\<lparr>state := CHILDS\<rparr>))"
  obtain l2 where "do_parse_xml mem xml parent s1 = do_parse_xml mem xml parent (?s2\<lparr>ptr := Suc (ptr s1), line := l2\<rparr>)"
    by (rule take_break [where s = s1 and s' = ?s2 and c = "CHR ''>''" and mem = mem and d = c])
      (use s1 r1 in \<open>auto simp: step_unfold step_body_def emit_def count_sub_def\<close>)
  with s1 drop_ConsD [OF r1] show ?thesis
    by (intro exI [of _ "?s2\<lparr>ptr := Suc (ptr s1), line := l2\<rparr>"]) (simp add: emit_def count_sub_def)
qed

text \<open>An element, when its children are read as they should.\<close>

definition kids_read :: "string \<Rightarrow> nat \<Rightarrow> string \<Rightarrow> string \<Rightarrow> string \<Rightarrow> event list \<Rightarrow> event list \<Rightarrow> int \<Rightarrow> bool" where
  "kids_read mem xml n w rest evs kid_evs m \<longleftrightarrow>
     (\<forall>i l. drop i mem = w @ rest \<longrightarrow>
       (\<exists>s'. do_parse_xml mem xml (Some n) (enter_parser i l evs) = do_parse_xml mem xml (Some n) s' \<and>
         ready mem s' (evs @ kid_evs) m \<and> ptr s' = i + length w))"

lemma element:
  assumes "ready mem s evs k" "name_ok n" "attrs_ok as" "NUL \<notin> set w"
    and r0: "rest_at mem s = (CHR ''<'' # n @ attrs_text as) @ CHR ''>'' # (w @ ''</'' @ n @ ''>'' @ d # r)"
    and kids: "kids_read mem xml n w (''</'' @ n @ ''>'' @ d # r) (evs @ [Xml n as]) kid_evs m"
  shows "\<exists>s'. do_parse_xml mem xml parent s = do_parse_xml mem xml parent s' \<and>
    between s' (evs @ Xml n as # kid_evs @ (if m = 0 then [Pcdata []] else [])) (k + 1) \<and>
    ptr s' = ptr s + 5 + 2 * length n + length (attrs_text as) + length w"
proof -
  obtain c cs where rest: "w @ ''</'' @ n @ ''>'' @ d # r = c # cs" "c \<noteq> NUL"
    using assms(4) by (cases w) auto
  from open_element [OF assms(1-3)] r0 rest(1) obtain s3 where
    s3: "do_parse_xml mem xml parent s = do_parse_xml mem xml parent s3" "state s3 = CHILDS" "nodename s3 = n"
      "events s3 = evs @ [Xml n as]" "nsubs s3 = k + 1" "nbrackets s3 = 0" "rest_at mem s3 = c # cs"
      "ptr s3 = ptr s + 2 + length n + length (attrs_text as)" by metis
  note r3 = s3(7) [folded rest(1)]
  from kids r3 s3(4) obtain s4 where
    s4: "do_parse_xml mem xml (Some n) (call_of s3) = do_parse_xml mem xml (Some n) s4"
      "ready mem s4 ((evs @ [Xml n as]) @ kid_evs) m" "ptr s4 = ptr s3 + length w"
    unfolding kids_read_def by metis
  have "rest_at mem s4 = ''</'' @ n @ ''>'' @ d # r" using drop_append [OF r3] s4(3) by simp
  from closing_tag [OF s4(2) assms(2) this] obtain s5 where
    s5: "do_parse_xml mem xml (Some n) s4 = Some (Inr (Returned s5))"
      "events s5 = evs @ Xml n as # kid_evs @ (if m = 0 then [Pcdata []] else [])" "ptr s5 = ptr s4 + 2 + length n"
    by auto
  have "drop (ptr s5) mem = CHR ''>'' # d # r"
    using drop_append [of "ptr s3" mem "w @ ''</'' @ n" "CHR ''>'' # d # r"] r3 s4(3) s5(3) by (simp add: add.assoc)
  from drop_ConsD [OF this] have d: "drop (Suc (ptr s5)) mem = d # r" by simp
  let ?s6 = "after_call s3 s5"
  obtain l6 where s6: "advance mem ?s6 = Inr (?s6\<lparr>ptr := Suc (ptr s5), line := l6\<rparr>)"
    using drop_ConsD [OF d] by (auto simp: advance_def after_call_def)
  have "reads mem s3" using drop_ConsD [OF s3(7)] rest(2) by (simp add: reads_def)
  from loop_call(2) [OF this s3(2) _ s6, of xml parent] s3 s4(1) s5(1)
  have "do_parse_xml mem xml parent s3 = do_parse_xml mem xml parent (?s6\<lparr>ptr := Suc (ptr s5), line := l6\<rparr>)" by simp
  with s3 s4 s5 show ?thesis
    by (intro exI [of _ "?s6\<lparr>ptr := Suc (ptr s5), line := l6\<rparr>"]) (simp add: between_def after_call_def)
qed

section \<open>Lists of nodes\<close>

lemma subs_simps [simp]: "subs [] = 0" "subs (x # xs) = counted x + subs xs"
  by (simp_all add: subs_def)

lemma brackets_ok_no_NUL: "brackets_ok b t \<Longrightarrow> NUL \<notin> set t"
  by (induction b t rule: brackets_ok.induct) (auto split: if_splits)

lemma name_no_NUL: "name_ok n \<Longrightarrow> NUL \<notin> set n"
  by (auto elim: name_okD)

lemma attrs_no_NUL: "attrs_ok as \<Longrightarrow> NUL \<notin> set (attrs_text as)"
  by (fastforce simp: attrs_ok_def attrs_text_def list_all_iff name_no_NUL)

lemma nodes_no_NUL:
  "node_ok x \<Longrightarrow> NUL \<notin> set (node_text x)"
  "nodes_ok xs \<Longrightarrow> NUL \<notin> set (nodes_text xs)"
  by (induction x and xs rule: node_text_nodes_text.induct)
    (auto dest: name_no_NUL attrs_no_NUL brackets_ok_no_NUL simp: closes_first_def)

lemma counted_nonneg: "0 \<le> counted x"
  by (cases x) simp_all

lemma parse_nodes:
  "node_ok x \<Longrightarrow> 0 \<le> k \<Longrightarrow> ready mem s evs k \<Longrightarrow> (is_text x \<longrightarrow> between s evs k) \<Longrightarrow> rest_at mem s = node_text x @ d # r \<Longrightarrow>
    \<exists>s'. do_parse_xml mem xml parent s = do_parse_xml mem xml parent s' \<and>
      ready mem s' (evs @ node_events x) (k + counted x) \<and>
      (\<not> is_text x \<longrightarrow> between s' (evs @ node_events x) (k + counted x)) \<and> ptr s' = ptr s + length (node_text x)"
  "nodes_ok xs \<Longrightarrow> 0 \<le> k \<Longrightarrow> ready mem s evs k \<Longrightarrow> (xs \<noteq> [] \<and> is_text (hd xs) \<longrightarrow> between s evs k) \<Longrightarrow>
    rest_at mem s = nodes_text xs @ d # r \<Longrightarrow>
    \<exists>s'. do_parse_xml mem xml parent s = do_parse_xml mem xml parent s' \<and>
      ready mem s' (evs @ nodes_events xs) (k + subs xs) \<and> ptr s' = ptr s + length (nodes_text xs)"
proof (induction x and xs arbitrary: parent s evs k d r and parent s evs k d r rule: node_text_nodes_text.induct)
  case (1 n as ns)
  have r: "rest_at mem s = (CHR ''<'' # n @ attrs_text as) @ CHR ''>'' # (nodes_text ns @ ''</'' @ n @ ''>'' @ d # r)"
    using "1.prems"(5) by simp
  have ok: "name_ok n" "attrs_ok as" "nodes_ok ns" using "1.prems"(1) by auto
  have "kids_read mem xml n (nodes_text ns) (''</'' @ n @ ''>'' @ d # r) (evs @ [Xml n as]) (nodes_events ns) (subs ns)"
    unfolding kids_read_def
    using "1.IH" [OF ok(3) order_refl between_ready [OF between_enter], of _ _ "evs @ [Xml n as]" "CHR ''<''"]
    by (simp add: between_enter) (simp add: enter_parser_def)
  from element [OF "1.prems"(3) ok(1,2) nodes_no_NUL(2) [OF ok(3)] r this] obtain s' where
    "do_parse_xml mem xml parent s = do_parse_xml mem xml parent s'"
    "between s' (evs @ Xml n as # nodes_events ns @ (if subs ns = 0 then [Pcdata []] else [])) (k + 1)"
    "ptr s' = ptr s + 5 + 2 * length n + length (attrs_text as) + length (nodes_text ns)" by blast
  then show ?case by (intro exI [of _ s']) (auto intro: between_ready)
next
  case (2 n as)
  then show ?case using empty_element [of mem s evs k n as d r xml parent] by (auto intro: between_ready)
next
  case (3 t)
  then show ?case using text_node [of s evs k t mem d r xml parent] by (auto simp: is_text_def)
next
  case (4 t)
  then show ?case using cdata_section [of mem s evs k t d r xml parent] by (auto intro: between_ready)
next
  case (5 t)
  then show ?case using remark [of mem s evs k t d r xml parent] by (auto intro: between_ready)
next
  case (6 t)
  then show ?case using instruction [of mem s evs k t d r xml parent] by (auto intro: between_ready)
next
  case (7 t)
  then show ?case using doctype [of mem s evs k t d r xml parent] by (auto intro: between_ready)
next
  case 8
  then show ?case by (intro exI [of _ s]) simp
next
  case (9 x xs)
  have r: "rest_at mem s = node_text x @ nodes_text xs @ d # r" using "9.prems"(5) by simp
  then obtain e q where e: "rest_at mem s = node_text x @ e # q" by (cases "nodes_text xs") auto
  from "9.IH"(1) [OF _ "9.prems"(2,3) _ e] "9.prems"(1,4) obtain s1 where
    s1: "do_parse_xml mem xml parent s = do_parse_xml mem xml parent s1"
      "ready mem s1 (evs @ node_events x) (k + counted x)"
      "\<not> is_text x \<longrightarrow> between s1 (evs @ node_events x) (k + counted x)" "ptr s1 = ptr s + length (node_text x)" by auto
  have r1: "rest_at mem s1 = nodes_text xs @ d # r" using drop_append [OF r] s1(4) by simp
  from "9.IH"(2) [OF _ _ s1(2) _ r1] "9.prems"(1,2) counted_nonneg [of x] s1 show ?case by (auto simp: add.assoc)
qed

section \<open>Properties\<close>

definition BOM :: string where
  "BOM = [CHR 0xEF, CHR 0xBB, CHR 0xBF]"

lemma no_bom:
  assumes "take 3 t \<noteq> BOM"
  shows "looking_at (t @ [NUL]) 0 [[CHR 0xEF], [CHR 0xBB], [CHR 0xBF]] = Inr False"
proof -
  consider "t = []" | a where "t = [a]" | a b where "t = [a, b]" | a b c r where "t = a # b # c # r"
    by (metis list.exhaust)
  then show ?thesis using assms by cases (auto simp: peek_def BOM_def)
qed

lemma xml_reported:
  assumes "nodes_ok ns" "src = BOM @ nodes_text ns \<or> src = nodes_text ns \<and> take 3 src \<noteq> BOM"
  shows "\<exists>s. parse_xml src = Some (Inr (Returned s)) \<and> events s = document_events ns"
proof -
  let ?mem = "src @ [NUL]"
  let ?bom = "src = BOM @ nodes_text ns"
  let ?p = "if ?bom then 3 else 0 :: nat"
  have p: "looking_at ?mem 0 [[CHR 0xEF], [CHR 0xBB], [CHR 0xBF]] = Inr ?bom"
  proof (cases ?bom)
    case True
    then show ?thesis using looking_at_True [of 0 ?mem BOM "nodes_text ns @ [NUL]"] by (simp add: BOM_def)
  next
    case False
    then have "take 3 src \<noteq> BOM" using assms(2) by blast
    from no_bom [OF this] False show ?thesis by simp
  qed
  let ?s = "enter_parser ?p 0 []"
  have "rest_at ?mem ?s = nodes_text ns @ NUL # []" using assms(2) by (auto simp: enter_parser_def BOM_def)
  from parse_nodes(2) [OF assms(1) order_refl between_ready [OF between_enter] _ this, of ?p None] obtain s' where
    s': "do_parse_xml ?mem ?p None ?s = do_parse_xml ?mem ?p None s'" "ready ?mem s' (nodes_events ns) (subs ns)"
      "ptr s' = ptr ?s + length (nodes_text ns)" by (auto simp: between_enter)
  have "rest_at ?mem s' = NUL # []"
    using drop_append [of "ptr ?s" ?mem "nodes_text ns"] \<open>rest_at ?mem ?s = _\<close> s'(3) by simp
  from drop_ConsD [OF this] have "do_parse_xml ?mem ?p None s' = Some (Inr (at_end ?mem ?p None s'))"
    by (intro loop_end) simp_all
  moreover have "\<exists>s. at_end ?mem ?p None s' = Returned s \<and> events s = document_events ns"
    using s'(2) by (auto simp: at_end_def ready_def document_events_def emit_def sub_def)
  ultimately show ?thesis using p s'(1) by (auto simp: parse_xml_def Let_def simp del: looking_at.simps)
qed


definition ex_document :: "node list" where
  "ex_document = [Instruction ''xml'', DocType '' h [<x>]'', Elem ''a'' [(''k'', ''v>'')]
     [Text ''t'', EmptyElem ''b'' [], Section '']'', Elem ''c'' [] []], Remark '' - '']"

lemma ex_document_ok: "nodes_ok ex_document"
  by code_simp


section \<open>The tree that is built\<close>

text \<open>
  \<open>NativeXmlState\<close>: \<open>xml\<close> goes down into the new element and \<open>done\<close> up again; the other events add a
  child. Its position is how many elements \<open>cur\<close> lies below the document.
\<close>

fun move_cur :: "event \<Rightarrow> int \<Rightarrow> int" where
  "move_cur (Xml n as) d = d + 1"
| "move_cur Done d = d - 1"
| "move_cur e d = d"

definition cur_depth :: "event list \<Rightarrow> int" where
  "cur_depth evs = fold move_cur evs 0"

text \<open>The elements with a closing tag.\<close>

fun closed :: "node \<Rightarrow> int" and closed_list :: "node list \<Rightarrow> int" where
  "closed (Elem n as ns) = 1 + closed_list ns"
| "closed (EmptyElem n as) = 0"
| "closed (Text t) = 0"
| "closed (Section t) = 0"
| "closed (Remark t) = 0"
| "closed (Instruction t) = 0"
| "closed (DocType t) = 0"
| "closed_list [] = 0"
| "closed_list (x # xs) = closed x + closed_list xs"

lemma fold_move_cur:
  "fold move_cur (node_events x) d = d + closed x"
  "fold move_cur (nodes_events xs) d = d + closed_list xs"
  by (induction x and xs arbitrary: d and d rule: node_events_nodes_events.induct) auto

text \<open>C18: the parser reports the end of an element only when it is written with a slash at its end, not
  at a closing tag. After a document the position of the builder is as deep as there are closing
  tags in it, and not at the document: what follows an element becomes its child.\<close>

theorem closing_tag_not_reported:
  assumes "nodes_ok ns" "take 3 (nodes_text ns) \<noteq> BOM"
  shows "\<exists>s. parse_xml (nodes_text ns) = Some (Inr (Returned s)) \<and> cur_depth (events s) = closed_list ns"
proof -
  have "cur_depth (document_events ns) = closed_list ns"
    by (simp add: cur_depth_def document_events_def fold_move_cur)
  with xml_reported [OF assms(1)] assms(2) show ?thesis by metis
qed

theorem closing_tag_not_reported_witness:
  "\<exists>s. parse_xml (nodes_text [Elem ''a'' [] [], Elem ''b'' [] []]) = Some (Inr (Returned s)) \<and>
    cur_depth (events s) = 2"
proof -
  have "nodes_ok [Elem ''a'' [] [], Elem ''b'' [] []]" by code_simp
  from closing_tag_not_reported [OF this] show ?thesis by (simp add: BOM_def)
qed

section \<open>Wrong closing tags\<close>

text \<open>C28: an element whose closing tag names something else, also after the case of letters is ignored,
  is an error at the place of that tag, after the events of its content.\<close>

theorem wrong_closing_tag_rejected:
  assumes "name_ok n" "attrs_ok as" "nodes_ok ns" "name_ok m" "\<not> strcmpi_eq n m"
  shows "\<exists>msg. parse_xml (CHR ''<'' # n @ attrs_text as @ CHR ''>'' # nodes_text ns @ ''</'' @ m @ ''>'' @ rest) =
      Some (Inr (Thrown (''Xml parse error : Expected </'' @ n @ ''>'' @ msg) (Xml n as # nodes_events ns)))"
proof -
  let ?src = "CHR ''<'' # n @ attrs_text as @ CHR ''>'' # nodes_text ns @ ''</'' @ m @ ''>'' @ rest"
  let ?mem = "?src @ [NUL]" and ?tl = "''</'' @ m @ ''>'' @ rest @ [NUL]"
  let ?s = "enter_parser 0 0 []"
  obtain d r where dr: "rest @ [NUL] = d # r" by (cases rest) auto
  obtain c cs where c: "nodes_text ns @ ?tl = c # cs" by (cases "nodes_text ns") auto
  have "rest_at ?mem ?s = (CHR ''<'' # n @ attrs_text as) @ CHR ''>'' # c # cs"
    using c by (simp add: enter_parser_def)
  from open_element [OF between_ready [OF between_enter] assms(1,2) this, of 0 None] obtain s3 where
    s3: "do_parse_xml ?mem 0 None ?s = do_parse_xml ?mem 0 None s3" "state s3 = CHILDS" "nodename s3 = n"
      "events s3 = [Xml n as]" "rest_at ?mem s3 = nodes_text ns @ ?tl" using c by auto
  have c0: "rest_at ?mem (call_of s3) = nodes_text ns @ CHR ''<'' # CHR ''/'' # m @ CHR ''>'' # d # r"
    using s3(5) dr by (simp add: enter_parser_def)
  from parse_nodes(2) [OF assms(3) order_refl between_ready [OF between_enter] _ c0, of 0 "Some n"] obtain s4 where
    s4: "do_parse_xml ?mem 0 (Some n) (call_of s3) = do_parse_xml ?mem 0 (Some n) s4"
      "ready ?mem s4 ([Xml n as] @ nodes_events ns) (subs ns)" "ptr s4 = ptr s3 + length (nodes_text ns)"
    using s3(4) by (auto simp: between_enter) (simp add: enter_parser_def)
  have "rest_at ?mem s4 = ''</'' @ m @ ''>'' @ d # r" using drop_append [OF s3(5)] s4(3) dr by simp
  from wrong_closing_tag [OF s4(2) assms(4) this _ assms(5)] assms(1) obtain msg where
    w: "do_parse_xml ?mem 0 (Some n) s4 =
      Some (Inr (Thrown (''Xml parse error : Expected </'' @ n @ ''>'' @ msg) ([Xml n as] @ nodes_events ns)))"
    by (auto simp: name_ok_def)
  have "NUL \<notin> set (nodes_text ns)" using nodes_no_NUL(2) [OF assms(3)] .
  then have nz: "c \<noteq> NUL" using c by (cases "nodes_text ns") auto
  have "rest_at ?mem s3 = c # cs" using s3(5) c by simp
  from drop_ConsD [OF this] nz have "reads ?mem s3" unfolding reads_def by blast
  from loop_call(1) [OF this s3(2)] s3(1,3) s4(1) w
  have "do_parse_xml ?mem 0 None ?s =
      Some (Inr (Thrown (''Xml parse error : Expected </'' @ n @ ''>'' @ msg) (Xml n as # nodes_events ns)))" by simp
  moreover have "looking_at ?mem 0 [[CHR 0xEF], [CHR 0xBB], [CHR 0xBF]] = Inr False" by (simp add: peek_def)
  ultimately show ?thesis by (auto simp: parse_xml_def Let_def simp del: looking_at.simps)
qed

theorem wrong_closing_tag_rejected_witness:
  "\<exists>msg. parse_xml (CHR ''<'' # ''a'' @ attrs_text [] @ CHR ''>'' # nodes_text [Text ''t''] @ ''</'' @ ''b'' @ ''>'' @ []) =
      Some (Inr (Thrown (''Xml parse error : Expected </'' @ ''a'' @ ''>'' @ msg) (Xml ''a'' [] # nodes_events [Text ''t''])))"
  by (rule wrong_closing_tag_rejected) (code_simp+)

end
