(* ===== verification/ExtcPath.thy ===== *)
theory ExtcPath imports Prelude begin

text \<open>
  libs/extc/extc_stubs.c, paths: \<open>get_real_path\<close> on Windows, which gives every component of a path the
  spelling the file system has for it, in place in a buffer of \<open>MAX_PATH\<close> bytes; \<open>executable_path\<close>
  and \<open>get_full_path\<close> on POSIX systems. The system calls are parameters.
\<close>

section \<open>Buffers\<close>

abbreviation MAX_PATH :: nat where "MAX_PATH \<equiv> 260"
abbreviation PATH_MAX :: nat where "PATH_MAX \<equiv> 4096"
abbreviation sep :: char where "sep \<equiv> CHR 0x5C"
abbreviation ZERO :: char where "ZERO \<equiv> CHR 0x00"

definition put_bytes :: "string \<Rightarrow> nat \<Rightarrow> string \<Rightarrow> c_fault + string" where
  "put_bytes out i bs =
     (if i + length bs \<le> length out then Inr (take i out @ bs @ drop (i + length bs) out)
      else Inl (Undef ''write behind the buffer''))"

definition get_bytes :: "string \<Rightarrow> nat \<Rightarrow> nat \<Rightarrow> c_fault + string" where
  "get_bytes out i n =
     (if i + n \<le> length out then Inr (take n (drop i out)) else Inl (Undef ''read behind the buffer''))"

text \<open>The C string in a buffer.\<close>

definition c_string :: "string \<Rightarrow> c_fault + string" where
  "c_string out =
     (if ZERO \<in> set out then Inr (takeWhile (\<lambda>c. c \<noteq> ZERO) out) else Inl (Undef ''string without end''))"

section \<open>\<open>get_real_path\<close> on Windows\<close>

text \<open>
  \<open>GetFullPathName\<close> fails, or fills the buffer, or, when the path does not fit, leaves the buffer
  as it was and returns the size it needs, which is not 0.
\<close>

definition full_path_buffer :: "string \<Rightarrow> string option \<Rightarrow> string option" where
  "full_path_buffer junk full =
     (case full of None \<Rightarrow> None
      | Some f \<Rightarrow> Some (if length f < MAX_PATH then f @ ZERO # drop (length f + 1) junk else junk))"

definition upcase :: "char \<Rightarrow> char" where
  "upcase ch = (let c = (of_char ch :: nat) in if 97 \<le> c \<and> c \<le> 122 then char_of (c - 32) else ch)"

definition upcase_drive :: "string \<Rightarrow> string" where
  "upcase_drive out = upcase (hd out) # tl out"

text \<open>\<open>if (len >= 2 && out[1] == ':') \<dots>\<close>: the buffer and where the components begin.\<close>

definition skip_drive :: "string \<Rightarrow> nat \<Rightarrow> string \<times> nat" where
  "skip_drive out len =
     (if 2 \<le> len \<and> out ! 1 = CHR '':''
      then (upcase_drive out, if 3 \<le> len \<and> upcase_drive out ! 2 = sep then 3 else 2)
      else (out, 0))"

text \<open>\<open>while (i < len && out[i] != sep) i++;\<close>\<close>

function find_sep :: "string \<Rightarrow> nat \<Rightarrow> nat \<Rightarrow> nat" where
  "find_sep out len i = (if i < len \<and> out ! i \<noteq> sep then find_sep out len (i + 1) else i)"
  by pat_completeness auto
termination
  by (relation "measure (\<lambda>(out, len, i). len - i)") auto

declare find_sep.simps [simp del]

text \<open>
  What is done with the name that \<open>FindFirstFile\<close> found: the new buffer, \<open>len\<close> and \<open>i\<close>. The distance
  \<open>d\<close> is an int and may be negative.
\<close>

definition replace_component ::
  "string \<Rightarrow> nat \<Rightarrow> nat \<Rightarrow> nat \<Rightarrow> string \<Rightarrow> c_fault + string \<times> nat \<times> nat" where
  "replace_component out len i lst name =
     (let klen = length name
      in rbind (if klen \<noteq> i - lst
                then rbind (get_bytes out i (len - i + 1)) (\<lambda>bs.
                     rbind (put_bytes out (lst + klen) bs) (\<lambda>out.
                     Inr (out, len + klen - (i - lst), lst + klen)))
                else Inr (out, len, i)) (\<lambda>(out, len, i).
         rbind (put_bytes out lst (name @ [ZERO])) (\<lambda>out. Inr (out, len, i))))"

text \<open>The body of the loop: the buffer, \<open>len\<close> and the place where the next component begins.\<close>

definition real_path_step ::
  "(string \<Rightarrow> string option) \<Rightarrow> string \<Rightarrow> nat \<Rightarrow> nat \<Rightarrow> c_fault + string \<times> nat \<times> nat" where
  "real_path_step find_first out len lst =
     (let i = find_sep out len lst
      in rbind (put_bytes out i [ZERO]) (\<lambda>out.
         rbind (c_string out) (\<lambda>path.
         rbind (case find_first path of
                  None \<Rightarrow> Inr (out, len, i)
                | Some name \<Rightarrow> replace_component out len i lst name) (\<lambda>(out, len, i).
         rbind (if i < len then put_bytes out i [sep] else Inr out) (\<lambda>out.
         Inr (out, len, i + 1))))))"

lemma find_sep_bounds: "lst \<le> len \<Longrightarrow> lst \<le> find_sep out len lst \<and> find_sep out len lst \<le> len"
  by (induction out len lst rule: find_sep.induct) (subst (1 2) find_sep.simps, force)

lemma real_path_step_advances:
  assumes "real_path_step find_first out len lst = Inr (out', len', lst')" "lst < len"
  shows "len' - lst' < len - lst"
  using assms find_sep_bounds [of lst len out]
  by (auto simp: real_path_step_def replace_component_def Let_def elim!: rbind_InrE
      split: option.splits if_splits)

function real_path_loop ::
  "(string \<Rightarrow> string option) \<Rightarrow> string \<Rightarrow> nat \<Rightarrow> nat \<Rightarrow> c_fault + string" where
  "real_path_loop find_first out len lst =
     (if lst < len
      then rbind (real_path_step find_first out len lst) (\<lambda>(out, len, lst).
           real_path_loop find_first out len lst)
      else Inr out)"
  by pat_completeness auto
termination
  by (relation "measure (\<lambda>(f, out, len, lst). len - lst)") (auto dest: real_path_step_advances)

declare real_path_loop.simps [simp del]

definition get_real_path ::
  "(string \<Rightarrow> string option) \<Rightarrow> string \<Rightarrow> string option \<Rightarrow> c_fault + string + string" where
  "get_real_path find_first junk full =
     (case full_path_buffer junk full of
        None \<Rightarrow> Inr (Inl ''get_real_path'')
      | Some out \<Rightarrow>
          rbind (c_string out) (\<lambda>path.
          let len = length path; (out, i) = skip_drive out len
          in rbind (real_path_loop find_first out len i) (\<lambda>out.
             rbind (c_string out) (\<lambda>path. Inr (Inr path)))))"

section \<open>What it computes\<close>

text \<open>
  The reference: component by component, with the part before it already in its real spelling. It
  has no result when the path, as it stands after a component, needs \<open>MAX_PATH\<close> bytes or more.
\<close>

function real_components :: "(string \<Rightarrow> string option) \<Rightarrow> string \<Rightarrow> string \<Rightarrow> string option" where
  "real_components find_first acc rest =
     (if rest = [] then Some acc
      else let c = takeWhile (\<lambda>c. c \<noteq> sep) rest; r = dropWhile (\<lambda>c. c \<noteq> sep) rest;
               acc = acc @ (case find_first (acc @ c) of None \<Rightarrow> c | Some name \<Rightarrow> name)
           in if length acc + length r < MAX_PATH
              then real_components find_first (acc @ take 1 r) (drop 1 r)
              else None)"
  by pat_completeness auto
termination
proof (relation "measure (\<lambda>(f, acc, rest). length rest)", goal_cases)
  case 1
  show ?case by simp
next
  case (2 f acc rest c r acc')
  moreover have "length (dropWhile (\<lambda>c. c \<noteq> sep) rest) \<le> length rest"
    by (rule length_dropWhile_le)
  ultimately show ?case by (cases rest) auto
qed

declare real_components.simps [simp del]

section \<open>The loop in the buffer\<close>

lemma put_bytes_append [simp]:
  assumes "i = length a"
  shows "put_bytes (a @ b) i bs =
    (if length bs \<le> length b then Inr (a @ bs @ drop (length bs) b) else Inl (Undef ''write behind the buffer''))"
  using assms by (simp add: put_bytes_def)

lemma put_bytes_behind [simp]:
  assumes "i = length a + length b"
  shows "put_bytes (a @ b @ c) i bs =
    (if length bs \<le> length c then Inr (a @ b @ bs @ drop (length bs) c) else Inl (Undef ''write behind the buffer''))"
  using assms put_bytes_append [of i "a @ b" c] by simp

lemma put_bytes_within:
  "put_bytes (a @ b) (length a + k) bs =
    (if k + length bs \<le> length b then Inr (a @ take k b @ bs @ drop (k + length bs) b)
     else Inl (Undef ''write behind the buffer''))"
  by (simp add: put_bytes_def)

lemma get_bytes_behind:
  assumes "i = length a + length b"
  shows "get_bytes (a @ b @ c) i n =
    (if n \<le> length c then Inr (take n c) else Inl (Undef ''read behind the buffer''))"
  using assms by (simp add: get_bytes_def)

lemma c_string_until [simp]: "ZERO \<notin> set s \<Longrightarrow> c_string (s @ ZERO # t) = Inr s"
  by (simp add: c_string_def)

lemma c_string_until2 [simp]: "ZERO \<notin> set s \<Longrightarrow> ZERO \<notin> set t \<Longrightarrow> c_string (s @ t @ ZERO # u) = Inr (s @ t)"
  using c_string_until [of "s @ t" u] by simp

lemma find_sep_append:
  "find_sep (acc @ rest @ z) (length acc + length rest) (length acc) =
     length acc + length (takeWhile (\<lambda>c. c \<noteq> sep) rest)"
proof (induction rest arbitrary: acc)
  case Nil
  show ?case by (simp add: find_sep.simps)
next
  case (Cons c rest)
  from Cons.IH [of "acc @ [c]"] show ?case by (subst find_sep.simps) simp
qed

text \<open>
  \<open>holds out s\<close>: the buffer has \<open>MAX_PATH\<close> bytes and the C string \<open>s\<close> in it.
\<close>

definition holds :: "string \<Rightarrow> string \<Rightarrow> bool" where
  "holds out s \<longleftrightarrow> length out = MAX_PATH \<and> ZERO \<notin> set s \<and> (\<exists>junk. out = s @ ZERO # junk)"

lemma c_string_holds: "holds out s \<Longrightarrow> c_string out = Inr s"
  by (auto simp: holds_def)

lemma holds_length: "holds out s \<Longrightarrow> length s < MAX_PATH"
  by (auto simp: holds_def)

lemma replace_component_ok:
  assumes b: "b = c @ ZERO # u @ v" and long: "length acc + length b = MAX_PATH"
  shows "if length acc + length n + length u < MAX_PATH
    then \<exists>w. length w = MAX_PATH - (length acc + length n + length u) - 1 \<and>
      replace_component (acc @ b) (length acc + length c + length u) (length acc + length c) (length acc) n
        = Inr (acc @ n @ ZERO # u @ w, length acc + length n + length u, length acc + length n)
    else replace_component (acc @ b) (length acc + length c + length u) (length acc + length c) (length acc) n
        = Inl (Undef ''write behind the buffer'')"
proof (cases "length n = length c")
  case True
  then have "replace_component (acc @ b) (length acc + length c + length u) (length acc + length c) (length acc) n
      = Inr (acc @ n @ ZERO # u @ v, length acc + length n + length u, length acc + length n)"
    using b by (simp add: replace_component_def Let_def)
  moreover have "length acc + length n + length u < MAX_PATH"
    "length v = MAX_PATH - (length acc + length n + length u) - 1" using True b long by auto
  ultimately show ?thesis by auto
next
  case False
  have g: "get_bytes (acc @ b) (length acc + length c) (length u + 1) = Inr (ZERO # u)"
    using b by (simp add: get_bytes_behind)
  let ?p = "put_bytes (acc @ b) (length acc + length n) (ZERO # u)"
  show ?thesis
  proof (cases "length acc + length n + length u < MAX_PATH")
    case True
    then have fit: "length n + length (ZERO # u) \<le> length b" using long by auto
    let ?w = "drop (length n + Suc (length u)) b"
    have "?p = Inr (acc @ take (length n) b @ (ZERO # u) @ ?w)"
      using fit by (simp add: put_bytes_within)
    moreover have "put_bytes (acc @ take (length n) b @ (ZERO # u) @ ?w) (length acc) (n @ [ZERO])
        = Inr (acc @ n @ ZERO # u @ ?w)"
      using fit by simp
    ultimately have "replace_component (acc @ b) (length acc + length c + length u) (length acc + length c) (length acc) n
        = Inr (acc @ n @ ZERO # u @ ?w, length acc + length n + length u, length acc + length n)"
      using False g by (simp add: replace_component_def Let_def add.commute)
    moreover have "length ?w = MAX_PATH - (length acc + length n + length u) - 1" using long by simp
    ultimately show ?thesis using True by auto
  next
    case too_long: False
    then have "?p = Inl (Undef ''write behind the buffer'')" using long by (simp add: put_bytes_within)
    with False g too_long show ?thesis by (simp add: replace_component_def)
  qed
qed

lemma real_path_step_ok:
  assumes out: "holds out (acc @ c @ r)" and c: "sep \<notin> set c" and r: "r = [] \<or> hd r = sep"
    and names: "\<forall>p n. find_first p = Some n \<longrightarrow> ZERO \<notin> set n"
    and acc': "acc' = acc @ (case find_first (acc @ c) of None \<Rightarrow> c | Some n \<Rightarrow> n)"
  shows "if length acc' + length r < MAX_PATH
    then \<exists>out'. real_path_step find_first out (length (acc @ c @ r)) (length acc)
           = Inr (out', length acc' + length r, length acc' + 1) \<and> holds out' (acc' @ r)
    else real_path_step find_first out (length (acc @ c @ r)) (length acc) =
      Inl (Undef ''write behind the buffer'')"
proof -
  from out obtain junk where junk: "out = acc @ (c @ r) @ ZERO # junk" "length out = MAX_PATH"
    "ZERO \<notin> set acc" "ZERO \<notin> set c" "ZERO \<notin> set r" by (auto simp: holds_def)
  have tw: "takeWhile (\<lambda>c. c \<noteq> sep) (c @ r) = c"
    using c r by (cases r) auto
  have i: "find_sep out (length (acc @ c @ r)) (length acc) = length (acc @ c)"
    using find_sep_append [of acc "c @ r" "ZERO # junk"] tw junk by simp
  show ?thesis
  proof (cases "find_first (acc @ c)")
    case None
    then show ?thesis using junk r i acc'
      by (cases r) (auto simp: real_path_step_def holds_def Let_def)
  next
    case (Some n)
    with names have "ZERO \<notin> set n" by blast
    note n = this Some
    let ?u = "tl (r @ [ZERO])"
    show ?thesis
    proof (cases r)
      case Nil
      from replace_component_ok [of "c @ ZERO # junk" c "[]" junk acc n] junk Nil
      show ?thesis using n i acc' junk Nil
        by (cases "length acc + length n < MAX_PATH") (auto simp: real_path_step_def holds_def Let_def)
    next
      case (Cons x t)
      from replace_component_ok [of "c @ ZERO # t @ ZERO # junk" c "t @ [ZERO]" junk acc n] junk Cons r
      show ?thesis using n i acc' junk Cons r
        by (cases "length acc + length n + length r < MAX_PATH")
          (auto simp: real_path_step_def holds_def Let_def add.assoc)
    qed
  qed
qed

lemma real_path_loop_ok:
  assumes "holds out (acc @ rest)" "\<forall>p n. find_first p = Some n \<longrightarrow> ZERO \<notin> set n"
  shows "case real_components find_first acc rest of
       Some p \<Rightarrow> \<exists>out'. real_path_loop find_first out (length (acc @ rest)) (length acc) = Inr out' \<and> holds out' p
     | None \<Rightarrow> real_path_loop find_first out (length (acc @ rest)) (length acc)
                 = Inl (Undef ''write behind the buffer'')"
  using assms
proof (induction find_first acc rest arbitrary: out rule: real_components.induct)
  case (1 find_first acc rest)
  note out = "1.prems"(1) and names = "1.prems"(2)
  show ?case
  proof (cases "rest = []")
    case True
    with out show ?thesis by (simp add: real_components.simps real_path_loop.simps)
  next
    case False
    define c where "c = takeWhile (\<lambda>c. c \<noteq> sep) rest"
    define r where "r = dropWhile (\<lambda>c. c \<noteq> sep) rest"
    define acc' where "acc' = acc @ (case find_first (acc @ c) of None \<Rightarrow> c | Some n \<Rightarrow> n)"
    have rest: "rest = c @ r" by (simp add: c_def r_def)
    with out have h: "holds out (acc @ c @ r)" by simp
    have nosep: "sep \<notin> set c" by (auto simp: c_def dest: set_takeWhileD)
    have r: "r = [] \<or> hd r = sep" using hd_dropWhile [of "\<lambda>c. c \<noteq> sep" rest] by (auto simp: r_def)
    have step: "if length acc' + length r < MAX_PATH
      then \<exists>out'. real_path_step find_first out (length (acc @ rest)) (length acc)
             = Inr (out', length acc' + length r, length acc' + 1) \<and> holds out' (acc' @ r)
      else real_path_step find_first out (length (acc @ rest)) (length acc) =
        Inl (Undef ''write behind the buffer'')"
      using real_path_step_ok [where find_first = find_first, OF h nosep r names acc'_def] by (simp only: rest)
    have less: "length acc < length (acc @ rest)" using False by simp
    have ref: "real_components find_first acc rest =
      (if length acc' + length r < MAX_PATH then real_components find_first (acc' @ take 1 r) (drop 1 r) else None)"
      using False by (subst real_components.simps) (simp add: c_def r_def acc'_def Let_def split: option.split)
    show ?thesis
    proof (cases "length acc' + length r < MAX_PATH")
      case True
      with step obtain out' where out': "real_path_step find_first out (length (acc @ rest)) (length acc)
             = Inr (out', length acc' + length r, length acc' + 1)" "holds out' ((acc' @ take 1 r) @ drop 1 r)"
        by auto
      have loop: "real_path_loop find_first out (length (acc @ rest)) (length acc) =
        real_path_loop find_first out' (length acc' + length r) (length acc' + 1)"
        using less out'(1) by (subst real_path_loop.simps) simp
      show ?thesis
      proof (cases r)
        case Nil
        then show ?thesis using ref True loop out'(2)
          by (simp add: real_components.simps real_path_loop.simps)
      next
        case (Cons x t)
        with "1.IH" [OF False c_def r_def acc'_def True out'(2) names] ref True loop
        show ?thesis by (auto split: option.splits)
      qed
    next
      case too_long: False
      with step ref less show ?thesis by (subst real_path_loop.simps) simp
    qed
  qed
qed

section \<open>Properties\<close>

text \<open>The drive of a path, with its letter in upper case, and what follows.\<close>

definition split_drive :: "string \<Rightarrow> string \<times> string" where
  "split_drive f =
     (if 2 \<le> length f \<and> f ! 1 = CHR '':''
      then if 3 \<le> length f \<and> f ! 2 = sep then (upcase (f ! 0) # take 2 (drop 1 f), drop 3 f)
           else ([upcase (f ! 0), CHR '':''], drop 2 f)
      else ([], f))"

lemma upcase_zero [simp]: "upcase ch = ZERO \<longleftrightarrow> ch = ZERO"
proof -
  have "char_of (n - 32) \<noteq> ZERO" if "97 \<le> n" "n \<le> 122" for n :: nat
  proof
    assume "char_of (n - 32) = ZERO"
    then have "(of_char (char_of (n - 32)) :: nat) = 0" by simp
    then show False using that by (simp add: take_bit_nat_eq_self)
  qed
  then show ?thesis by (auto simp: upcase_def Let_def)
qed

lemma skip_drive_ok:
  assumes "holds out f"
  shows "\<exists>out'. skip_drive out (length f) = (out', length (fst (split_drive f)))
    \<and> holds out' (fst (split_drive f) @ snd (split_drive f))"
proof -
  from assms obtain junk where junk: "out = f @ ZERO # junk" "length out = MAX_PATH" "ZERO \<notin> set f"
    by (auto simp: holds_def)
  consider "length f < 2" | d c r where "f = d # c # r" by (cases f; cases "tl f") auto
  then show ?thesis
  proof cases
    case 1
    with assms show ?thesis by (simp add: skip_drive_def split_drive_def)
  next
    case 2
    with assms junk show ?thesis
      by (cases r) (auto simp: skip_drive_def split_drive_def upcase_drive_def holds_def dest: sym [of ZERO])
  qed
qed

lemma get_real_path_reference:
  assumes "length junk = MAX_PATH" "length f < MAX_PATH" "ZERO \<notin> set f"
    and names: "\<forall>p n. find_first p = Some n \<longrightarrow> ZERO \<notin> set n"
  shows "get_real_path find_first junk (Some f) =
    (case real_components find_first (fst (split_drive f)) (snd (split_drive f)) of
       Some p \<Rightarrow> Inr (Inr p)
     | None \<Rightarrow> Inl (Undef ''write behind the buffer''))"
proof -
  let ?out = "f @ ZERO # drop (length f + 1) junk"
  have h: "holds ?out f" using assms by (simp add: holds_def)
  from skip_drive_ok [OF h] obtain out' where
    d: "skip_drive ?out (length f) = (out', length (fst (split_drive f)))"
      "holds out' (fst (split_drive f) @ snd (split_drive f))" by blast
  then have "length (fst (split_drive f) @ snd (split_drive f)) = length f"
    by (auto simp: split_drive_def)
  with real_path_loop_ok [OF d(2) names] h d assms(2) show ?thesis
    by (auto simp: get_real_path_def full_path_buffer_def Let_def c_string_holds split: option.splits)
qed

text \<open>C15: on Windows, a path that fits in the buffer is turned into its real spelling component by
  component, exactly as the reference does it on immutable strings, drive letter included; the
  buffer is overrun exactly when the reference says that the path has become too long.\<close>

theorem get_real_path_correct:
  assumes "length junk = MAX_PATH" "length f < MAX_PATH" "ZERO \<notin> set f"
    and names: "\<forall>p n. find_first p = Some n \<longrightarrow> ZERO \<notin> set n"
  shows "get_real_path find_first junk (Some f) =
    (case real_components find_first (fst (split_drive f)) (snd (split_drive f)) of
       Some p \<Rightarrow> Inr (Inr p)
     | None \<Rightarrow> Inl (Undef ''write behind the buffer''))"
  using assms by (rule get_real_path_reference)

text \<open>A directory with a short name.\<close>

definition ex_find :: "string \<Rightarrow> string option" where
  "ex_find p =
     (if p = ''C:'' @ sep # ''progra~1'' then Some ''Program Files''
      else if p = ''C:'' @ sep # ''Program Files'' @ sep # ''haxe'' then Some ''Haxe'' else None)"

theorem get_real_path_correct_witness:
  "get_real_path ex_find (replicate 260 ZERO) (Some (''c:'' @ sep # ''progra~1'' @ sep # ''haxe'')) =
     Inr (Inr (''C:'' @ sep # ''Program Files'' @ sep # ''Haxe''))"
proof -
  have "\<forall>p n. ex_find p = Some n \<longrightarrow> ZERO \<notin> set n"
    by (auto simp: ex_find_def split: if_splits)
  moreover have "case real_components ex_find (fst (split_drive (''c:'' @ sep # ''progra~1'' @ sep # ''haxe'')))
      (snd (split_drive (''c:'' @ sep # ''progra~1'' @ sep # ''haxe''))) of Some p \<Rightarrow>
        p = ''C:'' @ sep # ''Program Files'' @ sep # ''Haxe'' | None \<Rightarrow> False"
    by code_simp
  ultimately show ?thesis
    using get_real_path_correct [of "replicate 260 ZERO" "''c:'' @ sep # ''progra~1'' @ sep # ''haxe''" ex_find]
    by (auto split: option.splits)
qed


text \<open>
  Where the model runs over the buffer: a name that the file system has longer than it was written,
  in a path that was short enough.
\<close>

lemma expanded_name_overruns:
  assumes "length junk = MAX_PATH" "length f < MAX_PATH" "ZERO \<notin> set f"
    and names: "\<forall>p n. find_first p = Some n \<longrightarrow> ZERO \<notin> set n"
    and f: "split_drive f = (d, c @ r)" "sep \<notin> set c" "c \<noteq> []" "r = [] \<or> hd r = sep"
    and n: "find_first (d @ c) = Some n" "MAX_PATH \<le> length d + length n + length r"
  shows "get_real_path find_first junk (Some f) = Inl (Undef ''write behind the buffer'')"
proof -
  have "takeWhile (\<lambda>c. c \<noteq> sep) (c @ r) = c" "dropWhile (\<lambda>c. c \<noteq> sep) (c @ r) = r"
    using f(2,4) by (cases r; auto)+
  with f(3) n have "real_components find_first d (c @ r) = None"
    by (subst real_components.simps) (simp add: Let_def)
  moreover have "length (d @ c @ r) = length f" using f(1)
    by (auto simp: split_drive_def dest!: arg_cong [where f = length] split: if_splits)
  ultimately show ?thesis
    using get_real_path_reference [OF assms(1-3) names] f(1) by simp
qed

text \<open>A path that does not fit is not refused: the result is made of what was in the buffer before.\<close>

lemma long_path_uses_junk:
  assumes "MAX_PATH \<le> length f" "MAX_PATH \<le> length g"
  shows "get_real_path find_first junk (Some f) = get_real_path find_first junk (Some g)"
  using assms by (simp add: get_real_path_def full_path_buffer_def)

section \<open>POSIX\<close>

text \<open>\<open>get_real_path\<close> gives its argument back. \<open>realpath\<close> fails or fills the buffer of 4096 bytes.\<close>

definition posix_get_real_path :: "string \<Rightarrow> string" where
  "posix_get_real_path path = path"

definition get_full_path :: "(string \<Rightarrow> string option) \<Rightarrow> string \<Rightarrow> string \<Rightarrow> c_fault + string + string" where
  "get_full_path realpath junk f =
     (case realpath f of
        None \<Rightarrow> Inr (Inl ''get_full_path'')
      | Some p \<Rightarrow> rbind (put_bytes junk 0 (p @ [ZERO])) (\<lambda>path.
                 rbind (c_string path) (\<lambda>p. Inr (Inr p))))"

text \<open>
  \<open>readlink\<close> fails, or stores as much of the link as fits, without a zero at its end, and returns how
  much it stored.
\<close>

definition readlink :: "string option \<Rightarrow> string \<Rightarrow> int \<times> string" where
  "readlink link path =
     (case link of None \<Rightarrow> (-1, path)
      | Some l \<Rightarrow> (int (min (length l) (length path)), take (length path) l @ drop (length l) path))"

definition executable_path :: "string option \<Rightarrow> string option \<Rightarrow> string \<Rightarrow> c_fault + string + string" where
  "executable_path link env junk =
     (let (len, path) = readlink link junk
      in if len < 0 \<or> int PATH_MAX \<le> len
         then case env of Some p \<Rightarrow> Inr (Inr p) | None \<Rightarrow> Inr (Inl ''executable_path'')
         else rbind (put_bytes path (nat len) [ZERO]) (\<lambda>path.
              rbind (c_string path) (\<lambda>p. Inr (Inr p))))"

text \<open>The path of the executable is the whole target of the link, whatever was in the buffer; a
  target that the buffer might have cut, or no target, gives the path of the environment, and an
  exception when there is none.\<close>

lemma executable_path_correct:
  assumes "length junk = PATH_MAX" "\<forall>l. link = Some l \<longrightarrow> ZERO \<notin> set l"
  shows "executable_path link env junk =
    Inr (case link of
           Some l \<Rightarrow> if length l < PATH_MAX then Inr l
                     else (case env of Some p \<Rightarrow> Inr p | None \<Rightarrow> Inl ''executable_path'')
         | None \<Rightarrow> (case env of Some p \<Rightarrow> Inr p | None \<Rightarrow> Inl ''executable_path''))"
proof (cases link)
  case None
  then show ?thesis by (simp add: executable_path_def readlink_def split: option.split)
next
  case (Some l)
  with assms show ?thesis
    by (auto simp: executable_path_def readlink_def split: option.split)
qed

lemma executable_path_correct_example:
  "executable_path (Some ''/usr/bin/haxe'') None (replicate 4096 CHR ''x'') = Inr (Inr ''/usr/bin/haxe'')"
  using executable_path_correct [of "replicate 4096 CHR ''x''" "Some ''/usr/bin/haxe''" None] by simp


section \<open>The other systems\<close>

text \<open>
  Windows cuts the name of the program to the buffer and ends it with a zero; the other systems fail
  when it does not fit.
\<close>

definition executable_path_windows :: "string option \<Rightarrow> string + string" where
  "executable_path_windows module =
     (case module of None \<Rightarrow> Inl ''executable_path'' | Some p \<Rightarrow> Inr (take (MAX_PATH - 1) p))"

definition executable_path_apple :: "nat \<Rightarrow> string \<Rightarrow> string + string" where
  "executable_path_apple maxpathlen p =
     (if maxpathlen < length p + 1 then Inl ''executable_path'' else Inr p)"

definition executable_path_freebsd :: "string option \<Rightarrow> string + string" where
  "executable_path_freebsd proc_pathname =
     (case proc_pathname of
        None \<Rightarrow> Inl ''executable_path''
      | Some p \<Rightarrow> if PATH_MAX < length p + 1 then Inl ''executable_path'' else Inr p)"

definition get_full_path_windows :: "string \<Rightarrow> string option \<Rightarrow> c_fault + string + string" where
  "get_full_path_windows junk full =
     (case full_path_buffer junk full of
        None \<Rightarrow> Inr (Inl ''get_full_path'')
      | Some path \<Rightarrow> rbind (c_string path) (\<lambda>p. Inr (Inr p)))"

end
