(* ===== verification/ExtcSys.thy ===== *)
theory ExtcSys imports Complex_Main Prelude begin

text \<open>
  libs/extc/extc_stubs.c: one key from the terminal (\<open>sys_getch\<close>), the times of files
  (\<open>sys_filetime\<close>) and the clock (\<open>sys_time\<close>), on all systems.
\<close>

section \<open>One key from the terminal\<close>

text \<open>
  Standard input with its settings when it is a terminal, what can be read from it, and what was
  written to standard output.
\<close>

record 'a terminal =
  settings :: "'a option"
  pending :: "nat list"
  echoed :: "nat list"

text \<open>\<open>tcgetattr\<close> and \<open>tcsetattr\<close> do nothing when there is no terminal.\<close>

definition tcgetattr :: "'a \<Rightarrow> 'a terminal \<Rightarrow> 'a" where
  "tcgetattr junk t = (case settings t of Some a \<Rightarrow> a | None \<Rightarrow> junk)"

definition tcsetattr :: "'a \<Rightarrow> 'a terminal \<Rightarrow> 'a terminal" where
  "tcsetattr a t = t\<lparr>settings := map_option (\<lambda>_. a) (settings t)\<rparr>"

definition getchar :: "'a terminal \<Rightarrow> int \<times> 'a terminal" where
  "getchar t = (case pending t of [] \<Rightarrow> (-1, t) | c # cs \<Rightarrow> (int c, t\<lparr>pending := cs\<rparr>))"

text \<open>\<open>fputc\<close> writes its argument as an unsigned char.\<close>

definition fputc :: "int \<Rightarrow> 'a terminal \<Rightarrow> 'a terminal" where
  "fputc c t = t\<lparr>echoed := echoed t @ [nat (c mod 256)]\<rparr>"

definition sys_getch :: "('a \<Rightarrow> 'a) \<Rightarrow> 'a \<Rightarrow> bool \<Rightarrow> 'a terminal \<Rightarrow> int \<times> 'a terminal" where
  "sys_getch cfmakeraw junk b t =
     (let old = tcgetattr junk t;
          t = tcsetattr (cfmakeraw old) t;
          (c, t) = getchar t;
          t = tcsetattr old t;
          t = (if b then fputc c t else t)
      in (c, t))"

text \<open>On Windows the C runtime reads the key, with its echo or without.\<close>

definition sys_getch_windows :: "('w \<Rightarrow> int \<times> 'w) \<Rightarrow> ('w \<Rightarrow> int \<times> 'w) \<Rightarrow> bool \<Rightarrow> 'w \<Rightarrow> int \<times> 'w" where
  "sys_getch_windows getche getch b w = (if b then getche w else getch w)"

text \<open>The settings are as before, also at the end of the input.\<close>

lemma sys_getch_correct:
  assumes "\<forall>c \<in> set (pending t). c < 256"
  shows "sys_getch cfmakeraw junk b t =
    (case pending t of
       [] \<Rightarrow> (-1, t\<lparr>echoed := echoed t @ (if b then [255] else [])\<rparr>)
     | c # cs \<Rightarrow> (int c, t\<lparr>pending := cs, echoed := echoed t @ (if b then [c] else [])\<rparr>))"
  using assms
  by (cases t; cases "settings t")
    (auto simp: sys_getch_def Let_def tcgetattr_def tcsetattr_def getchar_def fputc_def nat_mod_distrib split: list.split)

section \<open>File times\<close>

text \<open>The modification time in seconds, which a double represents exactly, and 0 for no such file.\<close>

definition sys_filetime :: "(string \<Rightarrow> int option) \<Rightarrow> string \<Rightarrow> int" where
  "sys_filetime stat_mtime file = (case stat_mtime file of None \<Rightarrow> 0 | Some t \<Rightarrow> t)"

text \<open>
  Windows has the time in units of 100 ns since 1601. The quotient is exact here, a rounded double in
  the code.
\<close>

definition EPOCH_DIFF :: rat where
  "EPOCH_DIFF = 134774 * 24 * 60 * 60"

definition sys_filetime_windows :: "(string \<Rightarrow> int option) \<Rightarrow> string \<Rightarrow> rat" where
  "sys_filetime_windows write_time file =
     (case write_time file of None \<Rightarrow> 0 | Some t \<Rightarrow> of_int t / 10000000 - EPOCH_DIFF)"

text \<open>Both systems give the same time for a file that both know.\<close>

lemma sys_filetime_agree:
  assumes "write_time file = map_option (\<lambda>t. 10000000 * t + 116444736000000000) (stat_mtime file)"
  shows "sys_filetime_windows write_time file = of_int (sys_filetime stat_mtime file)"
  using assms by (simp add: sys_filetime_windows_def sys_filetime_def EPOCH_DIFF_def add_divide_distrib split: option.split)

section \<open>The clock\<close>

text \<open>
  The quotients are exact here too. \<open>clock_gettime\<close> gives seconds and
  nanoseconds.
\<close>

definition sys_time :: "int \<Rightarrow> int \<Rightarrow> rat" where
  "sys_time tv_sec tv_nsec = of_int tv_sec + of_int tv_nsec / 1000000000"

text \<open>
  On Windows the static variables \<open>freq\<close> and \<open>freq_init\<close> (-1 at first) keep the answer to the first
  \<open>QueryPerformanceFrequency\<close>. \<open>file_time\<close> is the system time.
\<close>

record counter_state =
  freq :: int
  freq_init :: int

definition query_frequency :: "int option \<Rightarrow> counter_state \<Rightarrow> counter_state" where
  "query_frequency frequency s =
     (if freq_init s \<noteq> -1 then s
      else case frequency of None \<Rightarrow> s\<lparr>freq_init := 0\<rparr> | Some f \<Rightarrow> s\<lparr>freq := f, freq_init := 1\<rparr>)"

definition sys_time_windows ::
  "int option \<Rightarrow> int option \<Rightarrow> int option \<Rightarrow> (counter_state, string, rat) prim" where
  "sys_time_windows frequency counter file_time s =
     (let s = query_frequency frequency s
      in case (if freq_init s = 0 then None else counter) of
           Some c \<Rightarrow> ret (of_int c / of_int (freq s)) s
         | None \<Rightarrow>
             (case file_time of
                None \<Rightarrow> raise ''sys_cpu_time'' s
              | Some t \<Rightarrow> ret (of_int t / 10000000 - EPOCH_DIFF) s))"

text \<open>
  On macOS the static \<open>sTimebaseInfo\<close> (0/0 at first) is filled once; \<open>elapsedNano\<close> is computed from it in
  64 bits, and is not what the result is made of.
\<close>

definition sys_time_apple ::
  "64 word \<times> 64 word \<Rightarrow> 64 word \<Rightarrow> 64 word \<times> 64 word \<Rightarrow> (64 word \<times> rat) \<times> 64 word \<times> 64 word" where
  "sys_time_apple timebase time info =
     (let info = (if snd info = 0 then timebase else info);
          elapsedNano = time * fst info div snd info
      in ((elapsedNano, of_int (uint time) / 1000000000), info))"

definition clock_fresh :: counter_state where
  "clock_fresh = \<lparr>freq = 0, freq_init = -1\<rparr>"

text \<open>Two calls in a row: the frequency is asked for once, and the later counter gives the later time, by
  exactly what the counter advanced.\<close>

lemma sys_time_windows_steady:
  assumes "0 < f"
    and "sys_time_windows (Some f) (Some c1) t1 clock_fresh = Inr (Inr x1, s1)"
    and "sys_time_windows frequency (Some c2) t2 s1 = Inr (Inr x2, s2)"
  shows "x2 - x1 = of_int (c2 - c1) / of_int f" "s2 = s1"
  using assms by (auto simp: sys_time_windows_def query_frequency_def clock_fresh_def diff_divide_distrib)

text \<open>Without a counter the time is that of Unix: 1970 is 0.\<close>

lemma sys_time_windows_epoch:
  "sys_time_windows None counter (Some 116444736000000000) clock_fresh =
    Inr (Inr 0, \<lparr>freq = 0, freq_init = 0\<rparr>)"
  by (simp add: sys_time_windows_def query_frequency_def clock_fresh_def EPOCH_DIFF_def)

text \<open>With the timebase 125/3 of an ARM processor a second is 24 million ticks; the result advances by
  0.024.\<close>

lemma sys_time_apple_ignores_timebase:
  "sys_time_apple (125, 3) 24000000 (0, 0) = ((1000000000, 24 / 1000), (125, 3))"
  by code_simp

end
