(* ===== verification/ExtcZlib.thy ===== *)
theory ExtcZlib imports Prelude begin

text \<open>
  libs/extc/extc_stubs.c, the zlib stubs: flush values, streams and their finaliser, \<open>deflate\<close>,
  \<open>inflate\<close>, and the operations around them. zlib itself is a parameter.
\<close>

section \<open>zlib\<close>

abbreviation Z_OK :: int where "Z_OK \<equiv> 0"
abbreviation Z_STREAM_END :: int where "Z_STREAM_END \<equiv> 1"
abbreviation Z_NEED_DICT :: int where "Z_NEED_DICT \<equiv> 2"
abbreviation Z_STREAM_ERROR :: int where "Z_STREAM_ERROR \<equiv> -2"
abbreviation Z_DATA_ERROR :: int where "Z_DATA_ERROR \<equiv> -3"
abbreviation Z_MEM_ERROR :: int where "Z_MEM_ERROR \<equiv> -4"
abbreviation Z_BUF_ERROR :: int where "Z_BUF_ERROR \<equiv> -5"
abbreviation Z_VERSION_ERROR :: int where "Z_VERSION_ERROR \<equiv> -6"

abbreviation Z_NO_FLUSH :: int where "Z_NO_FLUSH \<equiv> 0"
abbreviation Z_PARTIAL_FLUSH :: int where "Z_PARTIAL_FLUSH \<equiv> 1"
abbreviation Z_SYNC_FLUSH :: int where "Z_SYNC_FLUSH \<equiv> 2"
abbreviation Z_FULL_FLUSH :: int where "Z_FULL_FLUSH \<equiv> 3"
abbreviation Z_FINISH :: int where "Z_FINISH \<equiv> 4"

text \<open>
  The library: \<open>'d\<close> and \<open>'i\<close> are its states of a compression and a decompression. A call gets the flush
  value, the input and the room for output; it returns a code, the new state, how much input it
  used and the output. The arguments of \<open>deflateInit2\<close> are level, method, window bits, memory level
  and strategy.
\<close>

record ('d, 'i) zlib =
  deflateInit2 :: "int \<Rightarrow> int \<Rightarrow> int \<Rightarrow> int \<Rightarrow> int \<Rightarrow> int \<times> 'd"
  deflate :: "'d \<Rightarrow> int \<Rightarrow> string \<Rightarrow> nat \<Rightarrow> int \<times> 'd \<times> nat \<times> string"
  deflateEnd :: "'d \<Rightarrow> int"
  deflateBound :: "'d option \<Rightarrow> nat \<Rightarrow> nat"
  inflateInit2 :: "int \<Rightarrow> int \<times> 'i"
  inflate :: "'i \<Rightarrow> int \<Rightarrow> string \<Rightarrow> nat \<Rightarrow> int \<times> 'i \<times> nat \<times> string"
  crc32 :: "32 word \<Rightarrow> string \<Rightarrow> 32 word"

section \<open>State\<close>

datatype ('d, 'i) codec = Deflating 'd | Inflating 'i

text \<open>
  A \<open>z_stream\<close>: the state zlib keeps behind it, the sizes left by the last call and whether \<open>next_in\<close> and
  \<open>next_out\<close> are set.
\<close>

record ('d, 'i) z_stream =
  internal :: "('d, 'i) codec option"
  avail_in :: nat
  avail_out :: nat
  next_set :: bool

text \<open>
  \<open>streams\<close> is the C heap, \<open>handles\<close> the custom blocks that are not yet finalised with the pointer in
  them, \<open>dst_buf\<close> the byte string OCaml passes as destination. \<open>lost\<close> counts the states of zlib that
  nothing can free any more.
\<close>

datatype zpointer = Garbage | Stream nat

record ('d, 'i) zworld =
  streams :: "nat \<Rightarrow> ('d, 'i) z_stream option"
  next_addr :: nat
  handles :: "nat \<Rightarrow> zpointer option"
  next_handle :: nat
  dst_buf :: string
  lost :: nat

datatype zexn = Failure string | Out_of_memory | Invalid_argument string

type_synonym ('d, 'i, 'a) zprim = "(('d, 'i) zworld, zexn, 'a) prim"

record zresult =
  z_finish :: bool
  z_read :: int
  z_wrote :: int

section \<open>Flush values\<close>

datatype zflush = NO_FLUSH | PARTIAL_FLUSH | SYNC_FLUSH | FULL_FLUSH | FINISH

text \<open>\<open>Int_val\<close> of a constant constructor.\<close>

fun constructor_index :: "zflush \<Rightarrow> int" where
  "constructor_index NO_FLUSH = 0"
| "constructor_index PARTIAL_FLUSH = 1"
| "constructor_index SYNC_FLUSH = 2"
| "constructor_index FULL_FLUSH = 3"
| "constructor_index FINISH = 4"

definition Zflush_val :: "int \<Rightarrow> zexn + int" where
  "Zflush_val v =
     (let i = s32 v
      in if i = 0 then Inr Z_NO_FLUSH
      else if i = 1 then Inr Z_PARTIAL_FLUSH
      else if i = 2 then Inr Z_SYNC_FLUSH
      else if i = 3 then Inr Z_FULL_FLUSH
      else if i = 4 then Inr Z_FINISH
      else Inl (Failure ''Error in `Zflush_val` (extc_stubs.c): Unknown zflush value''))"

definition val_Zflush :: "int \<Rightarrow> c_fault + int" where
  "val_Zflush z =
     (if z = Z_NO_FLUSH then Inr 0
      else if z = Z_PARTIAL_FLUSH then Inr 1
      else if z = Z_SYNC_FLUSH then Inr 2
      else if z = Z_FULL_FLUSH then Inr 3
      else if z = Z_FINISH then Inr 4
      else Inl (Abort ''assert(0)''))"

section \<open>Streams\<close>

definition fresh_stream :: "('d, 'i) z_stream" where
  "fresh_stream = \<lparr>internal = None, avail_in = 0, avail_out = 0, next_set = False\<rparr>"

text \<open>\<open>out_of_memory\<close> says that \<open>caml_stat_alloc\<close> raises; the custom block exists then, with whatever was in it.\<close>

definition zlib_new_stream :: "bool \<Rightarrow> ('d, 'i, nat) zprim" where
  "zlib_new_stream out_of_memory w =
     (let h = next_handle w; w = w\<lparr>handles := (handles w)(h \<mapsto> Garbage), next_handle := h + 1\<rparr>
      in if out_of_memory then raise Out_of_memory w
         else let a = next_addr w
              in ret h (w\<lparr>streams := (streams w)(a \<mapsto> fresh_stream), next_addr := a + 1,
                         handles := (handles w)(h \<mapsto> Stream a)\<rparr>))"

text \<open>The finaliser; the custom block is gone afterwards.\<close>

definition zlib_free_stream :: "nat \<Rightarrow> ('d, 'i, unit) zprim" where
  "zlib_free_stream h w =
     (case handles w h of
        None \<Rightarrow> faulty (Undef ''no such block'') w
      | Some Garbage \<Rightarrow> faulty (Undef ''free of an uninitialised pointer'') w
      | Some (Stream a) \<Rightarrow>
          (case streams w a of
             None \<Rightarrow> faulty (Undef ''double free'') w
           | Some z \<Rightarrow> ret () (w\<lparr>streams := (streams w)(a := None), handles := (handles w)(h := None),
                                lost := lost w + (if internal z = None then 0 else 1)\<rparr>)))"

text \<open>\<open>ZStreamP_val\<close> and an access through it.\<close>

definition z_stream_of :: "nat \<Rightarrow> ('d, 'i, nat \<times> ('d, 'i) z_stream) zprim" where
  "z_stream_of h w =
     (case handles w h of
        Some (Stream a) \<Rightarrow> (case streams w a of Some z \<Rightarrow> ret (a, z) w | None \<Rightarrow> faulty (Undef ''use after free'') w)
      | _ \<Rightarrow> faulty (Undef ''invalid stream pointer'') w)"

definition put_stream :: "nat \<Rightarrow> ('d, 'i) z_stream \<Rightarrow> ('d, 'i, unit) zprim" where
  "put_stream a z w = ret () (w\<lparr>streams := (streams w)(a \<mapsto> z)\<rparr>)"

section \<open>Compression and decompression\<close>

text \<open>The exceptions for the codes of \<open>deflateInit2\<close> and of \<open>deflate\<close>.\<close>

definition deflate_init_error :: "int \<Rightarrow> zexn" where
  "deflate_init_error code =
     (if code = Z_MEM_ERROR then Out_of_memory
      else if code = Z_STREAM_ERROR
      then Failure ''Error in `zlib_deflate_init2` (extc_stubs.c): call to `deflateInit2` failed: Z_STREAM_ERROR''
      else if code = Z_VERSION_ERROR
      then Failure ''Error in `zlib_deflate_init2` (extc_stubs.c): call to `deflateInit2` failed: Z_VERSION_ERROR''
      else Failure ''Error in `zlib_deflate_init2` (extc_stubs.c): unknown return code from `deflateInit2`'')"

definition deflate_error :: "int \<Rightarrow> zexn" where
  "deflate_error code =
     (if code = Z_MEM_ERROR then Out_of_memory
      else if code = Z_STREAM_ERROR
      then Failure ''Error in `zlib_deflate` (extc_stubs.c): call to `deflate` failed: Z_STREAM_ERROR''
      else if code = Z_BUF_ERROR
      then Failure ''Error in `zlib_deflate` (extc_stubs.c): call to `deflate` failed: Z_BUF_ERROR''
      else Failure ''Error in `zlib_deflate` (extc_stubs.c): unknown return code from `deflate`'')"

definition zlib_deflate_init2 :: "('d, 'i) zlib \<Rightarrow> bool \<Rightarrow> int \<Rightarrow> int \<Rightarrow> ('d, 'i, nat) zprim" where
  "zlib_deflate_init2 lib out_of_memory level_val window_bits_val =
     (let level = s32 level_val; window_bits = s32 window_bits_val
      in pbind (zlib_new_stream out_of_memory) (\<lambda>h.
         pbind (z_stream_of h) (\<lambda>(a, z).
         let (code, d) = deflateInit2 lib level 8 window_bits 8 0
         in if code = Z_OK
            then pbind (put_stream a (z\<lparr>internal := Some (Deflating d)\<rparr>)) (\<lambda>_. ret h)
            else raise (deflate_init_error code))))"

definition zlib_inflate_init :: "('d, 'i) zlib \<Rightarrow> bool \<Rightarrow> int \<Rightarrow> ('d, 'i, nat) zprim" where
  "zlib_inflate_init lib out_of_memory wbits =
     pbind (zlib_new_stream out_of_memory) (\<lambda>h.
     pbind (z_stream_of h) (\<lambda>(a, z).
     let (code, i) = inflateInit2 lib (s32 wbits)
     in if code \<noteq> Z_OK then raise (Failure ''zlib_inflate_init'')
        else pbind (put_stream a (z\<lparr>internal := Some (Inflating i)\<rparr>)) (\<lambda>_. ret h)))"

text \<open>
  The bytes a stream is given: \<open>avail\<close> is an unsigned int. Handing out memory outside of the OCaml
  string is undefined.
\<close>

definition given_bytes :: "string \<Rightarrow> int \<Rightarrow> int \<Rightarrow> c_fault + string" where
  "given_bytes s pos len =
     (if 0 \<le> s32 pos \<and> s32 pos + s32 len mod 2 ^ 32 \<le> int (length s)
      then Inr (take (nat (s32 len mod 2 ^ 32)) (drop (nat (s32 pos)) s))
      else Inl (Undef ''outside of the string''))"

definition put_output :: "string \<Rightarrow> int \<Rightarrow> string \<Rightarrow> string" where
  "put_output s pos out =
     take (nat (s32 pos)) s @ out @ drop (nat (s32 pos) + length out) s"

text \<open>\<open>Val_int(Int_val(len) - avail)\<close>, an unsigned difference.\<close>

definition moved :: "int \<Rightarrow> nat \<Rightarrow> int" where
  "moved len avail = (s32 len - int avail) mod 2 ^ 32"

text \<open>What zlib does with a stream that is set up: its code and what it leaves behind.\<close>

definition call_deflate ::
  "('d, 'i) zlib \<Rightarrow> ('d, 'i) z_stream \<Rightarrow> int \<Rightarrow> string \<Rightarrow> int \<times> ('d, 'i) z_stream \<times> string" where
  "call_deflate lib z flush inp =
     (case internal z of
        Some (Deflating d) \<Rightarrow>
          let (code, d, n, out) = deflate lib d flush inp (avail_out z)
          in (code, z\<lparr>internal := Some (Deflating d), avail_in := avail_in z - n, avail_out := avail_out z - length out\<rparr>, out)
      | _ \<Rightarrow> (Z_STREAM_ERROR, z, []))"

definition call_inflate ::
  "('d, 'i) zlib \<Rightarrow> ('d, 'i) z_stream \<Rightarrow> int \<Rightarrow> string \<Rightarrow> int \<times> ('d, 'i) z_stream \<times> string" where
  "call_inflate lib z flush inp =
     (case internal z of
        Some (Inflating i) \<Rightarrow>
          let (code, i, n, out) = inflate lib i flush inp (avail_out z)
          in (code, z\<lparr>internal := Some (Inflating i), avail_in := avail_in z - n, avail_out := avail_out z - length out\<rparr>, out)
      | _ \<Rightarrow> (Z_STREAM_ERROR, z, []))"

text \<open>\<open>next_in\<close>, \<open>next_out\<close>, \<open>avail_in\<close>, \<open>avail_out\<close> as both stubs set them, and the input they stand for.\<close>

definition set_up ::
  "string \<Rightarrow> int \<Rightarrow> int \<Rightarrow> int \<Rightarrow> int \<Rightarrow> ('d, 'i) z_stream \<Rightarrow> ('d, 'i, string \<times> ('d, 'i) z_stream) zprim" where
  "set_up src spos slen dpos dlen z =
     (\<lambda>w. pbind (pure_c (given_bytes src spos slen)) (\<lambda>inp.
          pbind (pure_c (given_bytes (dst_buf w) dpos dlen)) (\<lambda>room.
          ret (inp, z\<lparr>next_set := True, avail_in := length inp, avail_out := length room\<rparr>))) w)"

definition store_output :: "int \<Rightarrow> string \<Rightarrow> ('d, 'i, unit) zprim" where
  "store_output dpos out w = ret () (w\<lparr>dst_buf := put_output (dst_buf w) dpos out\<rparr>)"

definition result_of :: "int \<Rightarrow> int \<Rightarrow> int \<Rightarrow> ('d, 'i) z_stream \<Rightarrow> zresult" where
  "result_of code slen dlen z =
     \<lparr>z_finish = (code = Z_STREAM_END), z_read = moved slen (avail_in z), z_wrote = moved dlen (avail_out z)\<rparr>"

definition zlib_deflate ::
  "('d, 'i) zlib \<Rightarrow> nat \<Rightarrow> string \<Rightarrow> int \<Rightarrow> int \<Rightarrow> int \<Rightarrow> int \<Rightarrow> int \<Rightarrow> ('d, 'i, zresult) zprim" where
  "zlib_deflate lib h src spos slen dpos dlen flush_val =
     pbind (z_stream_of h) (\<lambda>(a, z).
     case Zflush_val flush_val of
       Inl e \<Rightarrow> raise e
     | Inr flush \<Rightarrow>
         pbind (set_up src spos slen dpos dlen z) (\<lambda>(inp, z).
         let (code, z, out) = call_deflate lib z flush inp
         in pbind (store_output dpos out) (\<lambda>_.
            if code = Z_OK \<or> code = Z_STREAM_END
            then pbind (put_stream a (z\<lparr>next_set := False\<rparr>)) (\<lambda>_. ret (result_of code slen dlen z))
            else pbind (put_stream a z) (\<lambda>_. raise (deflate_error code)))))"

text \<open>The flush value goes to \<open>inflate\<close> as its index.\<close>

definition zlib_inflate ::
  "('d, 'i) zlib \<Rightarrow> nat \<Rightarrow> string \<Rightarrow> int \<Rightarrow> int \<Rightarrow> int \<Rightarrow> int \<Rightarrow> int \<Rightarrow> ('d, 'i, zresult) zprim" where
  "zlib_inflate lib h src spos slen dpos dlen flush =
     pbind (z_stream_of h) (\<lambda>(a, z).
     pbind (set_up src spos slen dpos dlen z) (\<lambda>(inp, z).
     let (code, z, out) = call_inflate lib z (s32 flush) inp
     in pbind (store_output dpos out) (\<lambda>_.
        if code < 0 then pbind (put_stream a z) (\<lambda>_. raise (Failure ''zlib_inflate''))
        else pbind (put_stream a (z\<lparr>next_set := False\<rparr>)) (\<lambda>_. ret (result_of code slen dlen z)))))"

text \<open>\<open>deflateEnd\<close> frees the state also when it reports that data was discarded.\<close>

definition zlib_deflate_end :: "('d, 'i) zlib \<Rightarrow> nat \<Rightarrow> ('d, 'i, unit) zprim" where
  "zlib_deflate_end lib h =
     pbind (z_stream_of h) (\<lambda>(a, z).
     case internal z of
       Some (Deflating d) \<Rightarrow>
         pbind (put_stream a (z\<lparr>internal := None\<rparr>)) (\<lambda>_.
         if deflateEnd lib d \<noteq> 0 then raise (Failure ''zlib_deflate_end'') else ret ())
     | _ \<Rightarrow> raise (Failure ''zlib_deflate_end''))"

definition zlib_inflate_end :: "nat \<Rightarrow> ('d, 'i, unit) zprim" where
  "zlib_inflate_end h =
     pbind (z_stream_of h) (\<lambda>(a, z).
     case internal z of
       Some (Inflating i) \<Rightarrow> pbind (put_stream a (z\<lparr>internal := None\<rparr>)) (\<lambda>_. ret ())
     | _ \<Rightarrow> raise (Failure ''zlib_inflate_end''))"

definition zlib_deflate_bound :: "('d, 'i) zlib \<Rightarrow> nat \<Rightarrow> int \<Rightarrow> ('d, 'i, int) zprim" where
  "zlib_deflate_bound lib h len =
     pbind (z_stream_of h) (\<lambda>(a, z).
     let bound = deflateBound lib (case internal z of Some (Deflating d) \<Rightarrow> Some d | _ \<Rightarrow> None)
                   (nat (s32 len mod 2 ^ 64))
     in ret (sint (of_nat bound :: 63 word)))"

definition zlib_crc32 :: "('d, 'i) zlib \<Rightarrow> string \<Rightarrow> int \<Rightarrow> c_fault + int" where
  "zlib_crc32 lib src len =
     rbind (given_bytes src 0 len) (\<lambda>bs. Inr (sint (crc32 lib 0 bs)))"


section \<open>What a call does\<close>

lemma z_stream_of_simps [simp]:
  "handles w h = Some (Stream a) \<Longrightarrow> streams w a = Some z \<Longrightarrow> z_stream_of h w = Inr (Inr (a, z), w)"
  by (simp add: z_stream_of_def)

lemma given_bytes_inside:
  "pos + len \<le> length s \<Longrightarrow> length s < 2 ^ 31 \<Longrightarrow>
   given_bytes s (int pos) (int len) = Inr (take len (drop pos s))"
  by (simp add: given_bytes_def)

lemma Zflush_val_index: "Zflush_val (constructor_index f) = Inr (constructor_index f)"
  by (cases f) (simp_all add: Zflush_val_def)

lemma s32_index [simp]: "s32 (constructor_index f) = constructor_index f"
  by (cases f) simp_all

text \<open>A request inside of its strings, for a stream that exists.\<close>

definition request_ok ::
  "nat \<Rightarrow> string \<Rightarrow> nat \<Rightarrow> nat \<Rightarrow> nat \<Rightarrow> nat \<Rightarrow> nat \<Rightarrow> ('d, 'i) z_stream \<Rightarrow> ('d, 'i) zworld \<Rightarrow> bool" where
  "request_ok h src spos slen dpos dlen a z w \<longleftrightarrow>
     handles w h = Some (Stream a) \<and> streams w a = Some z \<and>
     spos + slen \<le> length src \<and> length src < 2 ^ 31 \<and>
     dpos + dlen \<le> length (dst_buf w) \<and> length (dst_buf w) < 2 ^ 31"

lemma set_up_ok:
  assumes "request_ok h src spos slen dpos dlen a z w"
  shows "set_up src (int spos) (int slen) (int dpos) (int dlen) z' w =
     Inr (Inr (take slen (drop spos src), z'\<lparr>next_set := True, avail_in := slen, avail_out := dlen\<rparr>), w)"
proof -
  from assms have "min (length src - spos) slen = slen" "min (length (dst_buf w) - dpos) dlen = dlen"
    by (auto simp: request_ok_def)
  with assms show ?thesis by (simp add: set_up_def request_ok_def given_bytes_inside)
qed

lemma moved_back: "n \<le> len \<Longrightarrow> len < 2 ^ 31 \<Longrightarrow> moved (int len) (len - n) = int n"
  by (simp add: moved_def of_nat_diff)

text \<open>What the state becomes when a call gives output and leaves a new state of zlib.\<close>

definition after_output ::
  "nat \<Rightarrow> nat \<Rightarrow> nat \<Rightarrow> string \<Rightarrow> nat \<Rightarrow> nat \<Rightarrow> ('d, 'i) codec \<Rightarrow> bool \<Rightarrow> ('d, 'i) zworld \<Rightarrow> ('d, 'i) zworld" where
  "after_output a slen n out dpos dlen c nexts w =
     w\<lparr>streams := (streams w)(a \<mapsto> \<lparr>internal = Some c, avail_in = slen - n, avail_out = dlen - length out, next_set = nexts\<rparr>),
       dst_buf := take dpos (dst_buf w) @ out @ drop (dpos + length out) (dst_buf w)\<rparr>"

lemma deflate_call:
  assumes r: "request_ok h src spos slen dpos dlen a z w" and d: "internal z = Some (Deflating d)"
    and c: "deflate lib d (constructor_index f) (take slen (drop spos src)) dlen = (code, d', n, out)"
    and b: "n \<le> slen" "length out \<le> dlen"
  shows "zlib_deflate lib h src (int spos) (int slen) (int dpos) (int dlen) (constructor_index f) w =
    (if code = Z_OK \<or> code = Z_STREAM_END
     then Inr (Inr \<lparr>z_finish = (code = Z_STREAM_END), z_read = int n, z_wrote = int (length out)\<rparr>,
               after_output a slen n out dpos dlen (Deflating d') False w)
     else Inr (Inl (deflate_error code), after_output a slen n out dpos dlen (Deflating d') True w))"
proof -
  have small: "slen < 2 ^ 31" "dlen < 2 ^ 31" "dpos < 2 ^ 31" using r by (auto simp: request_ok_def)
  have call: "call_deflate lib (z\<lparr>next_set := True, avail_in := slen, avail_out := dlen\<rparr>) (constructor_index f)
      (take slen (drop spos src)) =
    (code, \<lparr>internal = Some (Deflating d'), avail_in = slen - n, avail_out = dlen - length out, next_set = True\<rparr>, out)"
    using d c by (cases z) (simp add: call_deflate_def)
  have s: "z_stream_of h w = Inr (Inr (a, z), w)"
    using r by (simp add: request_ok_def)
  show ?thesis
    using small b
    by (simp add: zlib_deflate_def s set_up_ok [OF r] call Zflush_val_index store_output_def put_stream_def
        put_output_def result_of_def moved_back after_output_def)
qed


lemma inflate_call:
  assumes r: "request_ok h src spos slen dpos dlen a z w" and d: "internal z = Some (Inflating i)"
    and c: "inflate lib i (constructor_index f) (take slen (drop spos src)) dlen = (code, i', n, out)"
    and b: "n \<le> slen" "length out \<le> dlen"
  shows "zlib_inflate lib h src (int spos) (int slen) (int dpos) (int dlen) (constructor_index f) w =
    (if 0 \<le> code
     then Inr (Inr \<lparr>z_finish = (code = Z_STREAM_END), z_read = int n, z_wrote = int (length out)\<rparr>,
               after_output a slen n out dpos dlen (Inflating i') False w)
     else Inr (Inl (Failure ''zlib_inflate''), after_output a slen n out dpos dlen (Inflating i') True w))"
proof -
  have small: "slen < 2 ^ 31" "dlen < 2 ^ 31" "dpos < 2 ^ 31" using r by (auto simp: request_ok_def)
  have call: "call_inflate lib (z\<lparr>next_set := True, avail_in := slen, avail_out := dlen\<rparr>) (constructor_index f)
      (take slen (drop spos src)) =
    (code, \<lparr>internal = Some (Inflating i'), avail_in = slen - n, avail_out = dlen - length out, next_set = True\<rparr>, out)"
    using d c by (cases z) (simp add: call_inflate_def)
  have s: "z_stream_of h w = Inr (Inr (a, z), w)"
    using r by (simp add: request_ok_def)
  show ?thesis
    using small b
    by (simp add: zlib_inflate_def s set_up_ok [OF r] call store_output_def put_stream_def
        put_output_def result_of_def moved_back after_output_def)
qed

end
