(* ===== verification/ZlibState.thy ===== *)
theory ZlibState imports ExtcZlib begin

text \<open>
  The streams of the zlib stubs over any sequence of operations: who owns which \<open>z_stream\<close>, and what
  the finaliser leaves behind.
\<close>

section \<open>Steps\<close>

text \<open>
  Everything OCaml can do: make streams, use and end those it can still reach, in any order and with
  any arguments, let the garbage collector finalise one, write to the destination string.
\<close>

inductive zstep :: "('d, 'i) zlib \<Rightarrow> ('d, 'i) zworld \<Rightarrow> ('d, 'i) zworld \<Rightarrow> bool" for lib where
  step_deflate_init: "zlib_deflate_init2 lib oom level bits w = Inr (r, w') \<Longrightarrow> zstep lib w w'"
| step_inflate_init: "zlib_inflate_init lib oom bits w = Inr (r, w') \<Longrightarrow> zstep lib w w'"
| step_deflate: "zlib_deflate lib h src spos slen dpos dlen f w = Inr (r, w') \<Longrightarrow> zstep lib w w'"
| step_inflate: "zlib_inflate lib h src spos slen dpos dlen f w = Inr (r, w') \<Longrightarrow> zstep lib w w'"
| step_deflate_end: "zlib_deflate_end lib h w = Inr (r, w') \<Longrightarrow> zstep lib w w'"
| step_inflate_end: "zlib_inflate_end h w = Inr (r, w') \<Longrightarrow> zstep lib w w'"
| step_bound: "zlib_deflate_bound lib h len w = Inr (r, w') \<Longrightarrow> zstep lib w w'"
| step_finalise: "zlib_free_stream h w = Inr (r, w') \<Longrightarrow> zstep lib w w'"
| step_write: "zstep lib w (w\<lparr>dst_buf := b\<rparr>)"

definition zinit :: "('d, 'i) zworld" where
  "zinit = \<lparr>streams = (\<lambda>_. None), next_addr = 0, handles = (\<lambda>_. None), next_handle = 0, dst_buf = [], lost = 0\<rparr>"

definition zreaches :: "('d, 'i) zlib \<Rightarrow> ('d, 'i) zworld \<Rightarrow> bool" where
  "zreaches lib w \<longleftrightarrow> (zstep lib)\<^sup>*\<^sup>* zinit w"

section \<open>Operations that make and free nothing\<close>

definition same_blocks :: "('d, 'i) zworld \<Rightarrow> ('d, 'i) zworld \<Rightarrow> bool" where
  "same_blocks w w' \<longleftrightarrow>
     handles w' = handles w \<and> next_handle w' = next_handle w \<and> next_addr w' = next_addr w \<and> lost w' = lost w \<and>
     dom (streams w') = dom (streams w)"

lemma same_blocks_trans: "same_blocks u v \<Longrightarrow> same_blocks v w \<Longrightarrow> same_blocks u w"
  by (simp add: same_blocks_def)

definition works_at :: "nat \<Rightarrow> ('d, 'i, 'a) zprim \<Rightarrow> bool" where
  "works_at a p \<longleftrightarrow> (\<forall>w r w'. a \<in> dom (streams w) \<longrightarrow> p w = Inr (r, w') \<longrightarrow> same_blocks w w')"

definition works :: "('d, 'i, 'a) zprim \<Rightarrow> bool" where
  "works p \<longleftrightarrow> (\<forall>w r w'. p w = Inr (r, w') \<longrightarrow> same_blocks w w')"

named_theorems works_intros \<open>rules for operations that make and free no block\<close>

lemma works_at_pbind [works_intros]:
  assumes "works_at a p" "\<And>x. works_at a (f x)"
  shows "works_at a (pbind p f)"
  unfolding works_at_def
proof (intro allI impI)
  fix w r w'
  assume w: "a \<in> dom (streams w)" and run: "pbind p f w = Inr (r, w')"
  from run consider (raised) e where "p w = Inr (Inl e, w')"
    | (returned) x v where "p w = Inr (Inr x, v)" "f x v = Inr (r, w')"
    by (auto simp: pbind_Inr_iff)
  then show "same_blocks w w'"
  proof cases
    case raised
    with assms(1) w show ?thesis by (auto simp: works_at_def)
  next
    case returned
    with assms(1) w have v: "same_blocks w v" by (auto simp: works_at_def)
    with w have "a \<in> dom (streams v)" by (simp add: same_blocks_def)
    with assms(2) returned(2) have "same_blocks v w'" by (auto simp: works_at_def)
    with v show ?thesis by (rule same_blocks_trans)
  qed
qed

lemma works_at_basic [works_intros]:
  "works_at a (ret x)" "works_at a (raise e)" "works_at a (put_stream a z)" "works_at a (store_output i out)"
  "works_at a (set_up src spos slen dpos dlen z)"
  by (auto simp: works_at_def same_blocks_def put_stream_def store_output_def set_up_def pure_c_def pbind_def
      split: sum.splits)

lemma works_at_if [works_intros]:
  "works_at a p \<Longrightarrow> works_at a q \<Longrightarrow> works_at a (if b then p else q)"
  by simp

lemma works_stream [works_intros]:
  assumes "\<And>a z. works_at a (f (a, z))"
  shows "works (pbind (z_stream_of h) f)"
  unfolding works_def
proof (intro allI impI)
  fix w r w'
  assume "pbind (z_stream_of h) f w = Inr (r, w')"
  then obtain a z where "a \<in> dom (streams w)" "f (a, z) w = Inr (r, w')"
    by (auto simp: pbind_Inr_iff z_stream_of_def split: option.splits zpointer.splits)
  with assms show "same_blocks w w'" by (auto simp: works_at_def)
qed

lemma stubs_work:
  "works (zlib_deflate lib h src spos slen dpos dlen f)"
  "works (zlib_inflate lib h src spos slen dpos dlen f)"
  "works (zlib_deflate_end lib h)"
  "works (zlib_inflate_end h)"
  "works (zlib_deflate_bound lib h len)"
  unfolding zlib_deflate_def zlib_inflate_def zlib_deflate_end_def zlib_inflate_end_def zlib_deflate_bound_def Let_def
  by (auto intro!: works_intros split: sum.split prod.split option.split codec.split)

section \<open>Ownership\<close>

text \<open>Every \<open>z_stream\<close> belongs to exactly one custom block that is still there.\<close>

definition owned :: "('d, 'i) zworld \<Rightarrow> bool" where
  "owned w \<longleftrightarrow>
     (\<forall>a. a \<in> dom (streams w) \<longleftrightarrow> (\<exists>h. handles w h = Some (Stream a))) \<and>
     (\<forall>h h' a. handles w h = Some (Stream a) \<and> handles w h' = Some (Stream a) \<longrightarrow> h = h') \<and>
     (\<forall>a \<in> dom (streams w). a < next_addr w) \<and> (\<forall>h \<in> dom (handles w). h < next_handle w)"

lemma owned_same_blocks: "owned w \<Longrightarrow> same_blocks w w' \<Longrightarrow> owned w'"
  by (simp add: owned_def same_blocks_def)

lemma ownedI:
  assumes "\<And>a. a \<in> dom (streams w) \<longleftrightarrow> (\<exists>h. handles w h = Some (Stream a))"
    and "\<And>h h' a. handles w h = Some (Stream a) \<Longrightarrow> handles w h' = Some (Stream a) \<Longrightarrow> h = h'"
    and "\<And>a. a \<in> dom (streams w) \<Longrightarrow> a < next_addr w" "\<And>h. h \<in> dom (handles w) \<Longrightarrow> h < next_handle w"
  shows "owned w"
  using assms unfolding owned_def by blast

lemma ownedD:
  assumes "owned w"
  shows "a \<in> dom (streams w) \<longleftrightarrow> (\<exists>h. handles w h = Some (Stream a))"
    and "handles w h = Some (Stream a) \<Longrightarrow> handles w h' = Some (Stream a) \<Longrightarrow> h = h'"
    and "a \<in> dom (streams w) \<Longrightarrow> a < next_addr w" "h \<in> dom (handles w) \<Longrightarrow> h < next_handle w"
  using assms unfolding owned_def by blast+

lemma new_entry:
  assumes "m h = None"
  shows "(\<exists>k. (m(h \<mapsto> x)) k = Some y) \<longleftrightarrow> y = x \<or> (\<exists>k. m k = Some y)"
proof
  assume "\<exists>k. (m(h \<mapsto> x)) k = Some y"
  then show "y = x \<or> (\<exists>k. m k = Some y)" by (auto split: if_splits)
next
  assume "y = x \<or> (\<exists>k. m k = Some y)"
  then show "\<exists>k. (m(h \<mapsto> x)) k = Some y"
  proof
    assume "y = x"
    then show ?thesis by (intro exI [of _ h]) simp
  next
    assume "\<exists>k. m k = Some y"
    then obtain k where k: "m k = Some y" by blast
    with assms have "k \<noteq> h" by auto
    with k show ?thesis by (intro exI [of _ k]) simp
  qed
qed

lemma removed_entry: "(\<exists>k. (m(h := None)) k = Some y) \<longleftrightarrow> (\<exists>k. k \<noteq> h \<and> m k = Some y)"
  by auto

lemma owned_new_stream:
  assumes own: "owned w" and run: "zlib_new_stream oom w = Inr (r, w')"
  shows "owned w'"
proof -
  let ?h = "next_handle w" and ?a = "next_addr w"
  note d = ownedD [OF own]
  have h: "handles w ?h = None" using d(4) by fastforce
  have a: "handles w h \<noteq> Some (Stream ?a)" for h using d(1,3) by fastforce
  from run consider "w' = w\<lparr>handles := (handles w)(?h \<mapsto> Garbage), next_handle := ?h + 1\<rparr>"
    | "w' = w\<lparr>streams := (streams w)(?a \<mapsto> fresh_stream), next_addr := ?a + 1,
              handles := (handles w)(?h \<mapsto> Stream ?a), next_handle := ?h + 1\<rparr>"
    by (auto simp: zlib_new_stream_def Let_def split: if_splits)
  then show ?thesis
  proof cases
    case 1
    have "(\<exists>k. ((handles w)(?h \<mapsto> Garbage)) k = Some (Stream b)) \<longleftrightarrow> (\<exists>k. handles w k = Some (Stream b))" for b
      unfolding new_entry [where m = "handles w", OF h] by simp
    with 1 d(1) have "b \<in> dom (streams w') \<longleftrightarrow> (\<exists>k. handles w' k = Some (Stream b))" for b by simp
    then show ?thesis
    proof (rule ownedI)
      show "k = k'" if "handles w' k = Some (Stream b)" "handles w' k' = Some (Stream b)" for k k' b
        using that 1 d(2) by (auto split: if_splits)
      show "b < next_addr w'" if "b \<in> dom (streams w')" for b using that 1 d(3) by simp
      show "k < next_handle w'" if "k \<in> dom (handles w')" for k using that 1 d(4) by (auto simp: less_Suc_eq)
    qed
  next
    case 2
    have "(\<exists>k. ((handles w)(?h \<mapsto> Stream ?a)) k = Some (Stream b)) \<longleftrightarrow> b = ?a \<or> (\<exists>k. handles w k = Some (Stream b))" for b
      unfolding new_entry [where m = "handles w", OF h] by simp
    with 2 d(1) have "b \<in> dom (streams w') \<longleftrightarrow> (\<exists>k. handles w' k = Some (Stream b))" for b by simp
    then show ?thesis
    proof (rule ownedI)
      show "k = k'" if "handles w' k = Some (Stream b)" "handles w' k' = Some (Stream b)" for k k' b
        using that 2 d(2) a by (auto split: if_splits)
      show "b < next_addr w'" if "b \<in> dom (streams w')" for b using that 2 d(3) by (auto simp: less_Suc_eq)
      show "k < next_handle w'" if "k \<in> dom (handles w')" for k using that 2 d(4) by (auto simp: less_Suc_eq)
    qed
  qed
qed

lemma owned_free_stream:
  assumes own: "owned w" and run: "zlib_free_stream h w = Inr (r, w')"
  shows "owned w'"
proof -
  note d = ownedD [OF own]
  from run obtain a z where a: "handles w h = Some (Stream a)" "streams w a = Some z"
    and w': "w' = w\<lparr>streams := (streams w)(a := None), handles := (handles w)(h := None),
            lost := lost w + (if internal z = None then 0 else 1)\<rparr>"
    by (auto simp: zlib_free_stream_def split: option.splits zpointer.splits)
  have "(\<exists>k. ((handles w)(h := None)) k = Some (Stream b)) \<longleftrightarrow> b \<noteq> a \<and> (\<exists>k. handles w k = Some (Stream b))" for b
    unfolding removed_entry using a(1) d(2) by (metis option.inject zpointer.inject)
  with w' d(1) have "b \<in> dom (streams w') \<longleftrightarrow> (\<exists>k. handles w' k = Some (Stream b))" for b by auto
  then show ?thesis
  proof (rule ownedI)
    show "k = k'" if "handles w' k = Some (Stream b)" "handles w' k' = Some (Stream b)" for k k' b
      using that w' d(2) by (auto split: if_splits)
    show "b < next_addr w'" if "b \<in> dom (streams w')" for b using that w' d(3) by (auto split: if_splits)
    show "k < next_handle w'" if "k \<in> dom (handles w')" for k using that w' d(4) by (auto split: if_splits)
  qed
qed

lemma owned_init:
  assumes "owned w" "pbind (zlib_new_stream oom) (\<lambda>h. pbind (z_stream_of h) (f h)) w = Inr (r, w')"
    and "\<And>h a z. works_at a (f h (a, z))"
  shows "owned w'"
proof -
  from assms(2) consider (raised) e where "zlib_new_stream oom w = Inr (Inl e, w')"
    | (returned) h v where "zlib_new_stream oom w = Inr (Inr h, v)" "pbind (z_stream_of h) (f h) v = Inr (r, w')"
    by (auto simp: pbind_Inr_iff)
  then show ?thesis
  proof cases
    case raised
    with assms(1) show ?thesis by (blast intro: owned_new_stream)
  next
    case returned
    then have "owned v" using assms(1) by (blast intro: owned_new_stream)
    moreover have "same_blocks v w'"
      using works_stream [of "f h" h] assms(3) returned(2) by (auto simp: works_def)
    ultimately show ?thesis by (rule owned_same_blocks)
  qed
qed

lemma works_owned: "works p \<Longrightarrow> p w = Inr (r, w') \<Longrightarrow> owned w \<Longrightarrow> owned w'"
  by (auto simp: works_def intro: owned_same_blocks)

lemma owned_zstep: "zstep lib w w' \<Longrightarrow> owned w \<Longrightarrow> owned w'"
proof (induction rule: zstep.induct)
  case (step_deflate_init oom level bits w r w')
  show ?case
    by (rule owned_init [OF step_deflate_init(2)
          step_deflate_init(1) [unfolded zlib_deflate_init2_def Let_def]])
      (auto intro!: works_intros split: prod.split)
next
  case (step_inflate_init oom bits w r w')
  show ?case
    by (rule owned_init [OF step_inflate_init(2) step_inflate_init(1) [unfolded zlib_inflate_init_def]])
      (auto intro!: works_intros split: prod.split)
next
  case (step_finalise h w r w')
  then show ?case by (blast intro: owned_free_stream)
next
  case (step_write w b)
  then show ?case by (simp add: owned_def)
qed (blast intro: works_owned [OF stubs_work(1)] works_owned [OF stubs_work(2)] works_owned [OF stubs_work(3)]
      works_owned [OF stubs_work(4)] works_owned [OF stubs_work(5)])+

lemma owned_zinit: "owned zinit"
  by (simp add: zinit_def owned_def)

abbreviation has_stream :: "('d, 'i) zworld \<Rightarrow> nat \<Rightarrow> bool" where
  "has_stream w h \<equiv> \<exists>a. handles w h = Some (Stream a)"

lemma free_stream_ok:
  assumes "owned w" "handles w h = Some (Stream a)"
  shows "\<exists>w'. zlib_free_stream h w = Inr (Inr (), w') \<and> dom (streams w') = dom (streams w) - {a}"
proof -
  from ownedD(1) [OF assms(1)] assms(2) obtain z where "streams w a = Some z" by blast
  with assms(2) show ?thesis by (simp add: zlib_free_stream_def)
qed

lemma free_stream_handles: "zlib_free_stream h w = Inr (r, w') \<Longrightarrow> handles w' = (handles w)(h := None)"
  by (auto simp: zlib_free_stream_def split: option.splits zpointer.splits)

interpretation blocks: finalised "zstep lib" owned has_stream zlib_free_stream
  by unfold_locales
    (auto intro: owned_zstep zstep.intros dest: free_stream_ok free_stream_handles split: if_splits)

lemma zreaches_owned: "zreaches lib w \<Longrightarrow> owned w"
  unfolding zreaches_def by (rule blocks.always [OF _ owned_zinit])

text \<open>C17: whatever OCaml does with its streams, each \<open>z_stream\<close> in the C heap belongs to exactly one custom
  block, the finaliser of a block frees it and never frees anything twice, and no operation on a block
  that is still there reads freed memory. When all blocks are gone so are the streams.\<close>

theorem zlib_streams_owned:
  assumes "zreaches lib w"
  shows "(\<forall>a. a \<in> dom (streams w) \<longleftrightarrow> (\<exists>!h. handles w h = Some (Stream a))) \<and>
    (\<forall>h a. handles w h = Some (Stream a) \<longrightarrow>
       (\<exists>z. z_stream_of h w = Inr (Inr (a, z), w)) \<and>
       (\<exists>w'. zlib_free_stream h w = Inr (Inr (), w') \<and> dom (streams w') = dom (streams w) - {a})) \<and>
    (handles w = (\<lambda>_. None) \<longrightarrow> streams w = (\<lambda>_. None))"
proof (intro conjI allI impI)
  note own = zreaches_owned [OF assms]
  show "a \<in> dom (streams w) \<longleftrightarrow> (\<exists>!h. handles w h = Some (Stream a))" for a
    using own unfolding owned_def by blast
  fix h a
  assume h: "handles w h = Some (Stream a)"
  with own obtain z where z: "streams w a = Some z" unfolding owned_def by blast
  with h show "\<exists>z. z_stream_of h w = Inr (Inr (a, z), w)" by simp
  show "\<exists>w'. zlib_free_stream h w = Inr (Inr (), w') \<and> dom (streams w') = dom (streams w) - {a}"
    by (rule free_stream_ok [OF own h])
next
  assume "handles w = (\<lambda>_. None)"
  with zreaches_owned [OF assms] show "streams w = (\<lambda>_. None)" by (auto simp: owned_def dom_def)
qed

definition ex_lib :: "(unit, unit) zlib" where
  "ex_lib = \<lparr>deflateInit2 = (\<lambda>_ _ _ _ _. (Z_OK, ())), deflate = (\<lambda>_ _ _ _. (Z_BUF_ERROR, (), 0, [])),
     deflateEnd = (\<lambda>_. Z_OK), deflateBound = (\<lambda>_ n. n), inflateInit2 = (\<lambda>_. (Z_OK, ())),
     inflate = (\<lambda>_ _ _ _. (Z_BUF_ERROR, (), 0, [])), crc32 = (\<lambda>c _. c)\<rparr>"

definition ex_owned :: "(unit, unit) zworld" where
  "ex_owned = zinit\<lparr>streams := [0 \<mapsto> fresh_stream\<lparr>internal := Some (Inflating ())\<rparr>], next_addr := 1,
     handles := [0 \<mapsto> Stream 0], next_handle := 1\<rparr>"

lemma ex_owned_reached: "zreaches ex_lib ex_owned"
proof -
  have "zlib_inflate_init ex_lib False 15 zinit = Inr (Inr 0, ex_owned)"
    by (simp add: zlib_inflate_init_def zlib_new_stream_def Let_def put_stream_def ex_lib_def ex_owned_def zinit_def)
  then show ?thesis unfolding zreaches_def by (intro r_into_rtranclp step_inflate_init)
qed

theorem zlib_streams_owned_witness:
  "\<exists>w'. zlib_free_stream 0 ex_owned = Inr (Inr (), w') \<and> dom (streams w') = dom (streams ex_owned) - {0}"
proof -
  note ex_owned_reached
  moreover have "handles ex_owned 0 = Some (Stream 0)" by (simp add: ex_owned_def)
  ultimately show ?thesis using zlib_streams_owned [of ex_lib ex_owned] by blast
qed

section \<open>What the finaliser leaves behind\<close>

text \<open>A stream that was not ended takes the memory that zlib keeps for it with it.\<close>

lemma finaliser_loses_state:
  assumes "inflateInit2 lib (s32 bits) = (Z_OK, i)"
  shows "\<exists>w1 w2. zlib_inflate_init lib False bits w = Inr (Inr (next_handle w), w1) \<and>
    zlib_free_stream (next_handle w) w1 = Inr (Inr (), w2) \<and> lost w2 = lost w + 1"
  using assms
  by (simp add: zlib_inflate_init_def zlib_new_stream_def Let_def put_stream_def zlib_free_stream_def)

text \<open>A block whose stream could not be allocated has a finaliser that frees what happens to be in it.\<close>

lemma finaliser_frees_garbage:
  "\<exists>w1. zlib_new_stream True w = Inr (Inl Out_of_memory, w1) \<and>
     zlib_free_stream (next_handle w) w1 = Inl (Undef ''free of an uninitialised pointer'')"
  by (simp add: zlib_new_stream_def Let_def zlib_free_stream_def)

end
