(* ===== verification/ZlibOp.thy ===== *)
theory ZlibOp imports ExtcZlib begin

text \<open>
  The zlib stubs in use: \<open>zlib_op\<close>, \<open>zip\<close> and \<open>unzip\<close> of libs/extc/extc.ml on top of the stubs of
  extc_stubs.c, from a contract for zlib to the round trip of whole strings.
\<close>

section \<open>The driver\<close>

type_synonym ('d, 'i, 'a) zrun = "(('d, 'i) zworld, zexn, 'a) run"

abbreviation BUFSIZE :: nat where "BUFSIZE \<equiv> 16384"

text \<open>\<open>loop pos len acc\<close>: the chunks, last one first.\<close>

type_synonym ('d, 'i) stub = "string \<Rightarrow> int \<Rightarrow> int \<Rightarrow> int \<Rightarrow> int \<Rightarrow> int \<Rightarrow> ('d, 'i, zresult) zprim"

partial_function (option) zlib_loop ::
  "('d, 'i) stub \<Rightarrow> string \<Rightarrow> int \<Rightarrow> int \<Rightarrow> string list \<Rightarrow> ('d, 'i) zworld \<Rightarrow>
    (c_fault + (zexn + string list) \<times> ('d, 'i) zworld) option" where
  "zlib_loop op str pos len acc w =
     (case op str pos len 0 (int BUFSIZE) (constructor_index (if len = 0 then FINISH else SYNC_FLUSH)) w of
        Inl c \<Rightarrow> Some (Inl c)
      | Inr (Inl e, w) \<Rightarrow> Some (Inr (Inl e, w))
      | Inr (Inr r, w) \<Rightarrow>
          if z_wrote r < 0 \<or> int (length (dst_buf w)) < z_wrote r
          then Some (Inr (Inl (Invalid_argument ''String.sub / Bytes.sub''), w))
          else let acc = take (nat (z_wrote r)) (dst_buf w) # acc
               in if z_finish r then Some (Inr (Inr acc, w))
                  else zlib_loop op str (pos + z_read r) (len - z_read r) acc w)"

declare zlib_loop.simps [code]

text \<open>The chunks are copied into a new string from its end.\<close>

fun blit_back :: "string \<Rightarrow> nat \<Rightarrow> string list \<Rightarrow> string" where
  "blit_back big p [] = big"
| "blit_back big p (s # ss) =
     (let p = p - length s in blit_back (take p big @ s @ drop (p + length s) big) p ss)"

definition zlib_op :: "(nat \<Rightarrow> string) \<Rightarrow> ('d, 'i) stub \<Rightarrow> string \<Rightarrow> ('d, 'i, string) zrun" where
  "zlib_op create op str w =
     run_bind (zlib_loop op str 0 (int (length str)) []) (\<lambda>strings.
       let all = sum_list (map length strings)
       in run_prim (ret (blit_back (create all) all strings)))
     (w\<lparr>dst_buf := create BUFSIZE\<rparr>)"

definition zip :: "('d, 'i) zlib \<Rightarrow> (nat \<Rightarrow> string) \<Rightarrow> string \<Rightarrow> ('d, 'i, string) zrun" where
  "zip lib create str =
     run_bind (run_prim (zlib_deflate_init2 lib False 9 15)) (\<lambda>z.
     run_bind (zlib_op create (zlib_deflate lib z) str) (\<lambda>s.
     run_bind (run_prim (zlib_deflate_end lib z)) (\<lambda>_. run_prim (ret s))))"

definition unzip :: "('d, 'i) zlib \<Rightarrow> (nat \<Rightarrow> string) \<Rightarrow> string \<Rightarrow> ('d, 'i, string) zrun" where
  "unzip lib create str =
     run_bind (run_prim (zlib_inflate_init lib False 15)) (\<lambda>z.
     run_bind (zlib_op create (zlib_inflate lib z) str) (\<lambda>s.
     run_bind (run_prim (zlib_inflate_end z)) (\<lambda>_. run_prim (ret s))))"

lemma blit_back_concat:
  "length (concat ss) \<le> length big \<Longrightarrow>
   blit_back big (length (concat ss)) ss = concat (rev ss) @ drop (length (concat ss)) big"
proof (induction ss arbitrary: big)
  case Nil
  show ?case by simp
next
  case (Cons s ss)
  let ?p = "length (concat ss)"
  let ?big = "take ?p big @ s @ drop (?p + length s) big"
  have "blit_back ?big ?p ss = concat (rev ss) @ drop ?p ?big"
    using Cons.prems by (intro Cons.IH) auto
  with Cons.prems show ?case by (simp add: Let_def add.commute)
qed

section \<open>An operation that streams\<close>

text \<open>
  \<open>going str w pos made n\<close>: the first \<open>pos\<close> bytes of \<open>str\<close> are used, \<open>made\<close> is the output so far, and at
  most \<open>n\<close> calls in a row can use no input. A call goes on or comes to the end.
\<close>

locale streaming =
  fixes op :: "('d, 'i) stub"
    and going :: "string \<Rightarrow> ('d, 'i) zworld \<Rightarrow> nat \<Rightarrow> string \<Rightarrow> nat \<Rightarrow> bool"
    and ended :: "string \<Rightarrow> ('d, 'i) zworld \<Rightarrow> string \<Rightarrow> bool"
  assumes inside: "going str w pos made n \<Longrightarrow> pos \<le> length str"
    and call: "going str w pos made n \<Longrightarrow>
      \<exists>r w'. op str (int pos) (int (length str - pos)) 0 (int BUFSIZE)
          (constructor_index (if pos = length str then FINISH else SYNC_FLUSH)) w = Inr (Inr r, w') \<and>
        0 \<le> z_wrote r \<and> z_wrote r \<le> int (length (dst_buf w')) \<and>
        (if z_finish r then ended str w' (made @ take (nat (z_wrote r)) (dst_buf w'))
         else 0 \<le> z_read r \<and>
           (\<exists>n'. going str w' (pos + nat (z_read r)) (made @ take (nat (z_wrote r)) (dst_buf w')) n' \<and>
             (0 < z_read r \<or> n' < n)))"
begin

lemma loop_returns:
  "going str w pos made n \<Longrightarrow>
    \<exists>new w'. zlib_loop op str (int pos) (int (length str - pos)) acc w = Some (Inr (Inr (new @ acc), w'))
      \<and> ended str w' (made @ concat (rev new))"
proof (induction "(length str - pos, n)" arbitrary: w pos made n acc rule: wf_induct_rule [OF wf_lex_prod [OF wf_less_than wf_less_than]])
  case 1
  from call [OF "1.prems"] obtain r w1 where
    op: "op str (int pos) (int (length str - pos)) 0 (int BUFSIZE)
          (constructor_index (if pos = length str then FINISH else SYNC_FLUSH)) w = Inr (Inr r, w1)"
    and fits: "0 \<le> z_wrote r" "z_wrote r \<le> int (length (dst_buf w1))"
    and next_step: "if z_finish r then ended str w1 (made @ take (nat (z_wrote r)) (dst_buf w1))
         else 0 \<le> z_read r \<and>
           (\<exists>n'. going str w1 (pos + nat (z_read r)) (made @ take (nat (z_wrote r)) (dst_buf w1)) n' \<and>
             (0 < z_read r \<or> n' < n))" by blast
  have last_flush: "(int (length str - pos) = 0) = (pos = length str)" using inside [OF "1.prems"] by auto
  note op = op [folded last_flush]
  let ?out = "take (nat (z_wrote r)) (dst_buf w1)"
  show ?case
  proof (cases "z_finish r")
    case True
    with op next_step fits show ?thesis
      by (subst zlib_loop.simps) (auto simp del: of_nat_diff intro!: exI [of _ "[?out]"])
  next
    case False
    with next_step obtain n' where n': "0 \<le> z_read r" "going str w1 (pos + nat (z_read r)) (made @ ?out) n'"
      "0 < z_read r \<or> n' < n" by auto
    have le: "pos + nat (z_read r) \<le> length str" by (rule inside [OF n'(2)])
    then have smaller: "((length str - (pos + nat (z_read r)), n'), (length str - pos, n)) \<in> less_than <*lex*> less_than"
      using n'(1,3) by auto
    from "1.hyps" [OF smaller n'(2), of "?out # acc"] obtain new w2 where
      new: "zlib_loop op str (int (pos + nat (z_read r))) (int (length str - (pos + nat (z_read r)))) (?out # acc) w1
        = Some (Inr (Inr (new @ ?out # acc), w2))" "ended str w2 ((made @ ?out) @ concat (rev new))" by blast
    have args: "int (pos + nat (z_read r)) = int pos + z_read r"
      "int (length str - (pos + nat (z_read r))) = int (length str - pos) - z_read r"
      using n'(1) le by auto
    have "zlib_loop op str (int pos) (int (length str - pos)) acc w = Some (Inr (Inr ((new @ [?out]) @ acc), w2))"
      using False op new(1) [unfolded args] fits by (subst zlib_loop.simps) (simp add: Let_def del: of_nat_diff)
    moreover have "ended str w2 (made @ concat (rev (new @ [?out])))" using new(2) by simp
    ultimately show ?thesis by blast
  qed
qed

lemma op_returns:
  assumes "going str (w\<lparr>dst_buf := create BUFSIZE\<rparr>) 0 [] n" "\<And>k. length (create k) = k"
  shows "\<exists>res w'. zlib_op create op str w = Some (Inr (Inr res, w')) \<and> ended str w' res"
proof -
  from loop_returns [OF assms(1), of "[]"] obtain new w' where
    loop: "zlib_loop op str 0 (int (length str)) [] (w\<lparr>dst_buf := create BUFSIZE\<rparr>) = Some (Inr (Inr new, w'))"
    and "ended str w' (concat (rev new))" by auto
  moreover have "blit_back (create (length (concat new))) (length (concat new)) new = concat (rev new)"
    using assms(2) by (simp add: blit_back_concat)
  ultimately show ?thesis by (simp add: zlib_op_def Let_def length_concat)
qed

end


section \<open>What zlib promises\<close>

text \<open>
  Compression, as documented in zlib.h: \<open>run d given sent\<close> is the state of a stream that took \<open>given\<close> and
  delivered \<open>sent\<close>. With input and room a call makes progress; at the end it delivers what is left,
  and then \<open>Z_STREAM_END\<close>. \<open>todo\<close> bounds the output that is pending. \<open>decode\<close> says what a whole
  compressed stream stands for.
\<close>

definition deflates ::
  "('d, 'i) zlib \<Rightarrow> ('d \<Rightarrow> string \<Rightarrow> string \<Rightarrow> bool) \<Rightarrow> ('d \<Rightarrow> nat) \<Rightarrow> (string \<Rightarrow> string option) \<Rightarrow> bool" where
  "deflates lib run todo decode \<longleftrightarrow>
     (case deflateInit2 lib 9 8 15 8 0 of (code, d) \<Rightarrow> code = Z_OK \<and> run d [] []) \<and>
     (\<forall>d given sent inp room code d' n out.
        run d given sent \<and> inp \<noteq> [] \<and> 0 < room \<and> deflate lib d Z_SYNC_FLUSH inp room = (code, d', n, out) \<longrightarrow>
        code = Z_OK \<and> n \<le> length inp \<and> length out \<le> room \<and> run d' (given @ take n inp) (sent @ out) \<and>
        (n = 0 \<longrightarrow> todo d' < todo d)) \<and>
     (\<forall>d given sent room code d' n out.
        run d given sent \<and> 0 < room \<and> deflate lib d Z_FINISH [] room = (code, d', n, out) \<longrightarrow>
        n = 0 \<and> length out \<le> room \<and>
        (code = Z_OK \<and> run d' given (sent @ out) \<and> todo d' < todo d \<or>
         code = Z_STREAM_END \<and> decode (sent @ out) = Some given \<and> deflateEnd lib d' = Z_OK))"

text \<open>
  Decompression of a whole stream \<open>str\<close>: as long as it has not ended some input is left, because the
  stream ends with a check value.
\<close>

definition inflates ::
  "('d, 'i) zlib \<Rightarrow> ('i \<Rightarrow> string \<Rightarrow> string \<Rightarrow> bool) \<Rightarrow> ('i \<Rightarrow> nat) \<Rightarrow> (string \<Rightarrow> string option) \<Rightarrow> bool" where
  "inflates lib run todo decode \<longleftrightarrow> decode [] = None \<and>
     (case inflateInit2 lib 15 of (code, i) \<Rightarrow> code = Z_OK \<and> run i [] []) \<and>
     (\<forall>i given made inp room code i' n out whole.
        run i given made \<and> decode (given @ inp) = Some whole \<and> inp \<noteq> [] \<and> 0 < room \<and>
        inflate lib i Z_SYNC_FLUSH inp room = (code, i', n, out) \<longrightarrow>
        n \<le> length inp \<and> length out \<le> room \<and>
        (code = Z_OK \<and> n < length inp \<and> run i' (given @ take n inp) (made @ out) \<and> (n = 0 \<longrightarrow> todo i' < todo i) \<or>
         code = Z_STREAM_END \<and> made @ out = whole))"

lemma deflates_sync:
  assumes "deflates lib run todo decode" "run d given sent" "inp \<noteq> []" "0 < room"
    "deflate lib d Z_SYNC_FLUSH inp room = (code, d', n, out)"
  shows "code = Z_OK \<and> n \<le> length inp \<and> length out \<le> room \<and> run d' (given @ take n inp) (sent @ out) \<and>
    (n = 0 \<longrightarrow> todo d' < todo d)"
  using assms(1) [unfolded deflates_def, THEN conjunct2, THEN conjunct1, rule_format, of d given sent inp room code d' n out] assms(2-) by simp

lemma deflates_finish:
  assumes "deflates lib run todo decode" "run d given sent" "0 < room"
    "deflate lib d Z_FINISH [] room = (code, d', n, out)"
  shows "n = 0 \<and> length out \<le> room \<and>
    (code = Z_OK \<and> run d' given (sent @ out) \<and> todo d' < todo d \<or>
     code = Z_STREAM_END \<and> decode (sent @ out) = Some given \<and> deflateEnd lib d' = Z_OK)"
  using assms(1) [unfolded deflates_def, THEN conjunct2, THEN conjunct2, rule_format, of d given sent room code d' n out] assms(2-) by simp

lemma inflates_sync:
  assumes "inflates lib run todo decode" "run i given made" "decode (given @ inp) = Some whole" "inp \<noteq> []" "0 < room"
    "inflate lib i Z_SYNC_FLUSH inp room = (code, i', n, out)"
  shows "n \<le> length inp \<and> length out \<le> room \<and>
    (code = Z_OK \<and> n < length inp \<and> run i' (given @ take n inp) (made @ out) \<and> (n = 0 \<longrightarrow> todo i' < todo i) \<or>
     code = Z_STREAM_END \<and> made @ out = whole)"
  using assms(1) [unfolded inflates_def, THEN conjunct2, THEN conjunct2, rule_format, of i given made inp whole room code i' n out] assms(2-) by simp

section \<open>The stubs stream\<close>

text \<open>A stream of the library behind the handle, room for the output, and a string that the stubs can address.\<close>

definition holds_codec :: "nat \<Rightarrow> nat \<Rightarrow> ('d, 'i) codec \<Rightarrow> ('d, 'i) zworld \<Rightarrow> bool" where
  "holds_codec B h c w \<longleftrightarrow> B < 2 ^ 31 \<and>
     length (dst_buf w) = B \<and> (\<exists>a z. handles w h = Some (Stream a) \<and> streams w a = Some z \<and> internal z = Some c)"

lemma holds_codec_request:
  assumes "holds_codec B h c w" "pos + n \<le> length str" "length str < 2 ^ 31"
  obtains a z where "request_ok h str pos n 0 B a z w" "internal z = Some c"
  using assms by (auto simp: holds_codec_def request_ok_def)

lemma holds_codec_after:
  assumes "request_ok h str pos slen 0 B a z w" "length out \<le> B" "length (dst_buf w) = B"
  shows "holds_codec B h c (after_output a slen n out 0 B c b w)"
    "take (length out) (dst_buf (after_output a slen n out 0 B c b w)) = out"
    "length (dst_buf (after_output a slen n out 0 B c b w)) = B"
  using assms by (auto simp: holds_codec_def request_ok_def after_output_def)

lemma holds_codec_new:
  "deflateInit2 lib (s32 level) 8 15 8 0 = (Z_OK, d) \<Longrightarrow> length b < 2 ^ 31 \<Longrightarrow>
   \<exists>w'. zlib_deflate_init2 lib False level 15 w = Inr (Inr (next_handle w), w') \<and>
     holds_codec (length b) (next_handle w) (Deflating d) (w'\<lparr>dst_buf := b\<rparr>)"
  "inflateInit2 lib 15 = (Z_OK, i) \<Longrightarrow> length b < 2 ^ 31 \<Longrightarrow>
   \<exists>w'. zlib_inflate_init lib False 15 w = Inr (Inr (next_handle w), w') \<and>
     holds_codec (length b) (next_handle w) (Inflating i) (w'\<lparr>dst_buf := b\<rparr>)"
  by (simp_all add: zlib_deflate_init2_def zlib_inflate_init_def zlib_new_stream_def Let_def put_stream_def
      holds_codec_def)

lemma holds_codec_end:
  "holds_codec B h (Deflating d) w \<Longrightarrow> deflateEnd lib d = Z_OK \<Longrightarrow>
   \<exists>w'. zlib_deflate_end lib h w = Inr (Inr (), w')"
  "holds_codec B h (Inflating i) w \<Longrightarrow> \<exists>w'. zlib_inflate_end h w = Inr (Inr (), w')"
  by (auto simp: zlib_deflate_end_def zlib_inflate_end_def holds_codec_def put_stream_def)

text \<open>A call of the library through the stub.\<close>

lemma codec_deflate:
  assumes c: "holds_codec B h (Deflating d) w" and str: "pos + k \<le> length str" "length str < 2 ^ 31"
    and call: "deflate lib d (constructor_index f) (take k (drop pos str)) B = (code, d', m, out)"
    and law: "m \<le> k" "length out \<le> B" "code = Z_OK \<or> code = Z_STREAM_END"
  shows "\<exists>w'. zlib_deflate lib h str (int pos) (int k) 0 (int B) (constructor_index f) w =
      Inr (Inr \<lparr>z_finish = (code = Z_STREAM_END), z_read = int m, z_wrote = int (length out)\<rparr>, w') \<and>
    holds_codec B h (Deflating d') w' \<and> take (length out) (dst_buf w') = out \<and> length (dst_buf w') = B"
proof -
  from holds_codec_request [OF c str] obtain a z where
    r: "request_ok h str pos k 0 B a z w" "internal z = Some (Deflating d)" by blast
  have buf: "length (dst_buf w) = B" using c by (simp add: holds_codec_def)
  show ?thesis
    using deflate_call [where f = f, OF r call law(1,2)] law(3) holds_codec_after [OF r(1) law(2) buf] by auto
qed

lemma codec_inflate:
  assumes c: "holds_codec B h (Inflating i) w" and str: "pos + k \<le> length str" "length str < 2 ^ 31"
    and call: "inflate lib i (constructor_index f) (take k (drop pos str)) B = (code, i', m, out)"
    and law: "m \<le> k" "length out \<le> B" "0 \<le> code"
  shows "\<exists>w'. zlib_inflate lib h str (int pos) (int k) 0 (int B) (constructor_index f) w =
      Inr (Inr \<lparr>z_finish = (code = Z_STREAM_END), z_read = int m, z_wrote = int (length out)\<rparr>, w') \<and>
    holds_codec B h (Inflating i') w' \<and> take (length out) (dst_buf w') = out \<and> length (dst_buf w') = B"
proof -
  from holds_codec_request [OF c str] obtain a z where
    r: "request_ok h str pos k 0 B a z w" "internal z = Some (Inflating i)" by blast
  have buf: "length (dst_buf w) = B" using c by (simp add: holds_codec_def)
  show ?thesis
    using inflate_call [where f = f, OF r call law(1,2)] law(3) holds_codec_after [OF r(1) law(2) buf] by auto
qed

definition deflating where
  "deflating lib h run todo decode str w pos made n \<longleftrightarrow>
     deflates lib run todo decode \<and> length str < 2 ^ 31 \<and> pos \<le> length str \<and>
     (\<exists>d. holds_codec BUFSIZE h (Deflating d) w \<and> run d (take pos str) made \<and> n = todo d)"

definition deflated where
  "deflated lib h decode str w made \<longleftrightarrow>
     decode made = Some str \<and> (\<exists>d. holds_codec BUFSIZE h (Deflating d) w \<and> deflateEnd lib d = Z_OK)"

lemma deflates_call:
  assumes "deflating lib h run todo decode str w pos made n"
  shows "\<exists>r w'. zlib_deflate lib h str (int pos) (int (length str - pos)) 0 (int BUFSIZE)
          (constructor_index (if pos = length str then FINISH else SYNC_FLUSH)) w = Inr (Inr r, w') \<and>
        0 \<le> z_wrote r \<and> z_wrote r \<le> int (length (dst_buf w')) \<and>
        (if z_finish r then deflated lib h decode str w' (made @ take (nat (z_wrote r)) (dst_buf w'))
         else 0 \<le> z_read r \<and>
           (\<exists>n'. deflating lib h run todo decode str w' (pos + nat (z_read r))
              (made @ take (nat (z_wrote r)) (dst_buf w')) n' \<and> (0 < z_read r \<or> n' < n)))"
proof -
  from assms obtain d where c: "deflates lib run todo decode" "length str < 2 ^ 31" "pos \<le> length str"
    "holds_codec BUFSIZE h (Deflating d) w" "run d (take pos str) made" "n = todo d" by (auto simp: deflating_def)
  let ?f = "if pos = length str then FINISH else SYNC_FLUSH"
  obtain code d' m out where call: "deflate lib d (constructor_index ?f) (take (length str - pos) (drop pos str)) BUFSIZE
      = (code, d', m, out)" by (metis prod_cases4)
  have law: "m \<le> length str - pos \<and> length out \<le> BUFSIZE \<and>
      (code = Z_OK \<and> run d' (take (pos + m) str) (made @ out) \<and> (m = 0 \<longrightarrow> todo d' < todo d) \<or>
       code = Z_STREAM_END \<and> pos = length str \<and> decode (made @ out) = Some str \<and> deflateEnd lib d' = Z_OK)"
  proof (cases "pos = length str")
    case True
    with call have "deflate lib d Z_FINISH [] BUFSIZE = (code, d', m, out)" by simp
    from deflates_finish [OF c(1,5) _ this] True show ?thesis by auto
  next
    case False
    with call have "deflate lib d Z_SYNC_FLUSH (drop pos str) BUFSIZE = (code, d', m, out)" by simp
    from deflates_sync [OF c(1,5) _ _ this] False c(3) show ?thesis by (auto simp: take_add)
  qed
  then have m: "m \<le> length str - pos" and out: "length out \<le> BUFSIZE" by auto
  let ?r = "\<lparr>z_finish = (code = Z_STREAM_END), z_read = int m, z_wrote = int (length out)\<rparr>"
  have "pos + (length str - pos) \<le> length str" using c(3) by simp
  from codec_deflate [where f = ?f, OF c(4) this c(2) call m out] law obtain w' where
    result: "zlib_deflate lib h str (int pos) (int (length str - pos)) 0 (int BUFSIZE) (constructor_index ?f) w = Inr (Inr ?r, w')"
    and after: "holds_codec BUFSIZE h (Deflating d') w'" "take (length out) (dst_buf w') = out" "length (dst_buf w') = BUFSIZE"
    by blast
  have end_case: "deflated lib h decode str w' (made @ out)" if "code = Z_STREAM_END"
    using law that after(1) by (auto simp: deflated_def)
  have going_case: "deflating lib h run todo decode str w' (pos + m) (made @ out) (todo d') \<and> (0 < m \<or> todo d' < n)"
    if "code \<noteq> Z_STREAM_END"
    using law that after(1) c m by (auto simp: deflating_def)
  show ?thesis
    using out after(2,3) end_case going_case
    by (intro exI [of _ ?r] exI [of _ w'] conjI result) (simp, simp, simp, blast)
qed


definition inflating where
  "inflating lib h run todo decode str w pos made n \<longleftrightarrow>
     inflates lib run todo decode \<and> length str < 2 ^ 31 \<and> pos < length str \<and> decode str \<noteq> None \<and>
     (\<exists>i. holds_codec BUFSIZE h (Inflating i) w \<and> run i (take pos str) made \<and> n = todo i)"

definition inflated where
  "inflated h decode str w made \<longleftrightarrow> decode str = Some made \<and> (\<exists>i. holds_codec BUFSIZE h (Inflating i) w)"

lemma inflates_call:
  assumes "inflating lib h run todo decode str w pos made n"
  shows "\<exists>r w'. zlib_inflate lib h str (int pos) (int (length str - pos)) 0 (int BUFSIZE)
          (constructor_index (if pos = length str then FINISH else SYNC_FLUSH)) w = Inr (Inr r, w') \<and>
        0 \<le> z_wrote r \<and> z_wrote r \<le> int (length (dst_buf w')) \<and>
        (if z_finish r then inflated h decode str w' (made @ take (nat (z_wrote r)) (dst_buf w'))
         else 0 \<le> z_read r \<and>
           (\<exists>n'. inflating lib h run todo decode str w' (pos + nat (z_read r))
              (made @ take (nat (z_wrote r)) (dst_buf w')) n' \<and> (0 < z_read r \<or> n' < n)))"
proof -
  from assms obtain i whole where c: "inflates lib run todo decode" "length str < 2 ^ 31" "pos < length str"
    "holds_codec BUFSIZE h (Inflating i) w" "run i (take pos str) made" "n = todo i" "decode str = Some whole"
    by (auto simp: inflating_def)
  let ?f = "if pos = length str then FINISH else SYNC_FLUSH"
  obtain code i' m out where call: "inflate lib i (constructor_index ?f) (take (length str - pos) (drop pos str)) BUFSIZE
      = (code, i', m, out)" by (metis prod_cases4)
  then have call': "inflate lib i Z_SYNC_FLUSH (drop pos str) BUFSIZE = (code, i', m, out)" using c(3) by simp
  have law: "m \<le> length str - pos \<and> length out \<le> BUFSIZE \<and>
      (code = Z_OK \<and> pos + m < length str \<and> run i' (take (pos + m) str) (made @ out) \<and> (m = 0 \<longrightarrow> todo i' < todo i) \<or>
       code = Z_STREAM_END \<and> made @ out = whole)"
    using inflates_sync [OF c(1,5) _ _ _ call', of whole] c(3,7) by (auto simp: take_add)
  then have m: "m \<le> length str - pos" and out: "length out \<le> BUFSIZE" by auto
  let ?r = "\<lparr>z_finish = (code = Z_STREAM_END), z_read = int m, z_wrote = int (length out)\<rparr>"
  have "pos + (length str - pos) \<le> length str" "0 \<le> code" using c(3) law by auto
  from codec_inflate [where f = ?f, OF c(4) this(1) c(2) call m out this(2)] obtain w' where
    result: "zlib_inflate lib h str (int pos) (int (length str - pos)) 0 (int BUFSIZE) (constructor_index ?f) w = Inr (Inr ?r, w')"
    and after: "holds_codec BUFSIZE h (Inflating i') w'" "take (length out) (dst_buf w') = out" "length (dst_buf w') = BUFSIZE"
    by blast
  have end_case: "inflated h decode str w' (made @ out)" if "code = Z_STREAM_END"
    using law that after(1) c(7) by (auto simp: inflated_def)
  have going_case: "inflating lib h run todo decode str w' (pos + m) (made @ out) (todo i') \<and> (0 < m \<or> todo i' < n)"
    if "code \<noteq> Z_STREAM_END"
    using law that after(1) c m by (auto simp: inflating_def)
  show ?thesis
    using out after(2,3) end_case going_case
    by (intro exI [of _ ?r] exI [of _ w'] conjI result) (simp, simp, simp, blast)
qed

text \<open>Both stubs, used as \<open>zlib_op\<close> uses them, are streaming operations.\<close>

interpretation zd: streaming "zlib_deflate lib h" "deflating lib h run todo decode" "deflated lib h decode"
  for lib h run todo decode
proof (unfold_locales, goal_cases)
  case 1
  then show ?case by (simp add: deflating_def)
next
  case 2
  then show ?case by (rule deflates_call)
qed

interpretation zi: streaming "zlib_inflate lib h" "inflating lib h run todo decode" "inflated h decode"
  for lib h run todo decode
proof (unfold_locales, goal_cases)
  case 1
  then show ?case by (simp add: inflating_def)
next
  case 2
  then show ?case by (rule inflates_call)
qed

section \<open>\<open>zip\<close> and \<open>unzip\<close>\<close>

lemma zip_returns:
  assumes "deflates lib run todo decode" "length str < 2 ^ 31" "\<And>k. length (create k) = k"
  shows "\<exists>c w'. zip lib create str w = Some (Inr (Inr c, w')) \<and> decode c = Some str"
proof -
  obtain d where init: "deflateInit2 lib 9 8 15 8 0 = (Z_OK, d)" "run d [] []"
    using assms(1) by (auto simp: deflates_def)
  let ?h = "next_handle w"
  obtain w1 where w1: "zlib_deflate_init2 lib False 9 15 w = Inr (Inr ?h, w1)"
    "holds_codec BUFSIZE ?h (Deflating d) (w1\<lparr>dst_buf := create BUFSIZE\<rparr>)"
    using holds_codec_new(1) [of lib 9 d "create BUFSIZE" w] init assms(3) by auto
  then have "deflating lib ?h run todo decode str (w1\<lparr>dst_buf := create BUFSIZE\<rparr>) 0 [] (todo d)"
    using assms init by (auto simp: deflating_def)
  from zd.op_returns [OF this assms(3)] obtain c w2 where
    op: "zlib_op create (zlib_deflate lib ?h) str w1 = Some (Inr (Inr c, w2))" "deflated lib ?h decode str w2 c"
    by blast
  from op(2) obtain d' where d': "decode c = Some str" "holds_codec BUFSIZE ?h (Deflating d') w2" "deflateEnd lib d' = Z_OK"
    by (auto simp: deflated_def)
  then obtain w3 where "zlib_deflate_end lib ?h w2 = Inr (Inr (), w3)"
    by (blast dest: holds_codec_end(1))
  with w1 op d' show ?thesis by (simp add: zip_def)
qed

lemma unzip_returns:
  assumes "inflates lib run todo decode" "decode c = Some str" "length c < 2 ^ 31" "\<And>k. length (create k) = k"
  shows "\<exists>w'. unzip lib create c w = Some (Inr (Inr str, w'))"
proof -
  obtain i where init: "inflateInit2 lib 15 = (Z_OK, i)" "run i [] []"
    using assms(1) by (auto simp: inflates_def)
  have "c \<noteq> []" using assms(1,2) by (auto simp: inflates_def)
  let ?h = "next_handle w"
  obtain w1 where w1: "zlib_inflate_init lib False 15 w = Inr (Inr ?h, w1)"
    "holds_codec BUFSIZE ?h (Inflating i) (w1\<lparr>dst_buf := create BUFSIZE\<rparr>)"
    using holds_codec_new(2) [of lib i "create BUFSIZE" w] init assms(4) by auto
  then have "inflating lib ?h run todo decode c (w1\<lparr>dst_buf := create BUFSIZE\<rparr>) 0 [] (todo i)"
    using assms init \<open>c \<noteq> []\<close> by (auto simp: inflating_def)
  from zi.op_returns [OF this assms(4)] obtain s w2 where
    op: "zlib_op create (zlib_inflate lib ?h) c w1 = Some (Inr (Inr s, w2))" "inflated ?h decode c w2 s"
    by blast
  from op(2) assms(2) obtain i' where i': "s = str" "holds_codec BUFSIZE ?h (Inflating i') w2"
    by (auto simp: inflated_def)
  then obtain w3 where "zlib_inflate_end ?h w2 = Inr (Inr (), w3)"
    by (blast dest: holds_codec_end(2))
  with w1 op i' show ?thesis by (simp add: unzip_def)
qed


section \<open>An example of a codec\<close>

text \<open>Every byte is written after an \<open>x\<close>, the end is a dot; decompression takes one byte per call.\<close>

fun ex_body :: "string \<Rightarrow> string" where
  "ex_body [] = []"
| "ex_body (c # s) = CHR ''x'' # c # ex_body s"

fun ex_decode :: "string \<Rightarrow> string option" where
  "ex_decode [] = None"
| "ex_decode [c] = (if c = CHR ''.'' then Some [] else None)"
| "ex_decode (x # c # r) = (if x = CHR ''x'' then map_option ((#) c) (ex_decode r) else None)"

definition ex_zlib :: "(string, bool) zlib" where
  "ex_zlib = \<lparr>deflateInit2 = (\<lambda>_ _ _ _ _. (Z_OK, [])),
     deflate = (\<lambda>p flush inp room. let p = p @ ex_body inp in
        if flush = Z_FINISH \<and> length p < room then (Z_STREAM_END, [], length inp, p @ ''.'')
        else (Z_OK, drop room p, length inp, take room p)),
     deflateEnd = (\<lambda>_. Z_OK),
     deflateBound = (\<lambda>_ n. 2 * n + 1),
     inflateInit2 = (\<lambda>_. (Z_OK, False)),
     inflate = (\<lambda>x flush inp room.
        case inp of
          [] \<Rightarrow> (Z_BUF_ERROR, x, 0, [])
        | c # _ \<Rightarrow> if x then (Z_OK, False, 1, [c])
                   else if c = CHR ''x'' then (Z_OK, True, 1, [])
                   else if c = CHR ''.'' then (Z_STREAM_END, False, 1, [])
                   else (Z_DATA_ERROR, x, 0, [])),
     crc32 = (\<lambda>c _. c)\<rparr>"

lemma ex_body_append [simp]: "ex_body (s @ t) = ex_body s @ ex_body t"
  by (induction s) auto

lemma ex_decode_other: "c \<noteq> CHR ''x'' \<Longrightarrow> ex_decode (c # r) = (if c = CHR ''.'' \<and> r = [] then Some [] else None)"
  by (cases r) auto

lemma ex_decode_body: "ex_decode (ex_body s @ r) = map_option ((@) s) (ex_decode r)"
  by (induction s) (auto simp: option.map_comp comp_def option.map_ident)

lemma ex_deflates: "deflates ex_zlib (\<lambda>p given sent. sent @ p = ex_body given) length ex_decode"
proof -
  have join: "sent @ p @ q = ex_body given @ q" if "sent @ p = ex_body given" for sent p q given
    using arg_cong [OF that, of "\<lambda>s. s @ q"] by simp
  show ?thesis
    by (auto simp: deflates_def ex_zlib_def Let_def join ex_decode_body simp del: take_append drop_append
        split: if_splits)
qed

lemma ex_inflates:
  "inflates ex_zlib (\<lambda>x given made. given = ex_body made @ (if x then ''x'' else [])) (\<lambda>_. 0) ex_decode"
  by (auto simp: inflates_def ex_zlib_def ex_decode_body ex_decode_other split: if_splits list.splits)

definition ex_zworld :: "(string, bool) zworld" where
  "ex_zworld = \<lparr>streams = (\<lambda>_. None), next_addr = 0, handles = (\<lambda>_. None), next_handle = 0, dst_buf = [], lost = 0\<rparr>"



section \<open>A stream with a dictionary\<close>

text \<open>
  \<open>asks lib i\<close>: zlib waits for a dictionary. It answers \<open>Z_NEED_DICT\<close>, uses no input and gives no output
  until the dictionary is set, which no stub does.
\<close>

definition keeps_asking :: "('d, 'i) zlib \<Rightarrow> ('i \<Rightarrow> bool) \<Rightarrow> bool" where
  "keeps_asking lib asks \<longleftrightarrow>
     (\<forall>i flush inp room. asks i \<longrightarrow>
        (case inflate lib i flush inp room of (code, i', n, out) \<Rightarrow> code = Z_NEED_DICT \<and> asks i' \<and> n = 0 \<and> out = []))"

definition stuck where
  "stuck lib h asks str w pos \<longleftrightarrow>
     pos \<le> length str \<and> length str < 2 ^ 31 \<and> (\<exists>i. holds_codec BUFSIZE h (Inflating i) w \<and> asks i)"

lemma stuck_call:
  assumes "keeps_asking lib asks" "stuck lib h asks str w pos"
  shows "\<exists>w'. zlib_inflate lib h str (int pos) (int (length str - pos)) 0 (int BUFSIZE) (constructor_index f) w =
      Inr (Inr \<lparr>z_finish = False, z_read = 0, z_wrote = 0\<rparr>, w') \<and> stuck lib h asks str w' pos"
proof -
  from assms(2) obtain i where c: "pos \<le> length str" "length str < 2 ^ 31" "holds_codec BUFSIZE h (Inflating i) w" "asks i"
    by (auto simp: stuck_def)
  obtain code i' n out where call: "inflate lib i (constructor_index f) (take (length str - pos) (drop pos str)) BUFSIZE
      = (code, i', n, out)" by (metis prod_cases4)
  have "\<forall>flush inp room. case inflate lib i flush inp room of (code, i', n, out) \<Rightarrow>
      code = Z_NEED_DICT \<and> asks i' \<and> n = 0 \<and> out = []"
    using assms(1) c(4) by (simp add: keeps_asking_def)
  then have answer: "code = Z_NEED_DICT" "asks i'" "n = 0" "out = []"
    using call by (metis (mono_tags, lifting) case_prod_conv)+
  have "pos + (length str - pos) \<le> length str" using c(1) by simp
  from codec_inflate [where f = f, OF c(3) this c(2) call] answer c show ?thesis
    by (auto simp: stuck_def simp del: of_nat_diff)
qed

lemma stuck_loop:
  assumes "keeps_asking lib asks" "stuck lib h asks str w pos"
  shows "zlib_loop (zlib_inflate lib h) str (int pos) (int (length str - pos)) acc w = None"
proof -
  have "False" if "zlib_loop op str' p len acc w = Some r" "op = zlib_inflate lib h" "str' = str"
    "p = int pos" "len = int (length str - pos)" "stuck lib h asks str w pos" for op str' p len acc w r
    using that
  proof (induction rule: zlib_loop.raw_induct [rotated, consumes 1, case_names step])
    case (step loop op str' p len acc w r)
    let ?f = "if len = 0 then FINISH else SYNC_FLUSH"
    from stuck_call [OF assms(1) step.prems(5), of ?f] obtain w' where
      call: "op str' p len 0 (int BUFSIZE) (constructor_index ?f) w =
        Inr (Inr \<lparr>z_finish = False, z_read = 0, z_wrote = 0\<rparr>, w')" and s: "stuck lib h asks str w' pos"
      using step.prems by auto
    with step.hyps have "loop op str' p len ([] # acc) w' = Some r" by simp
    from step.IH [OF this step.prems(1-4) s] show False .
  qed
  with assms(2) show ?thesis by fastforce
qed

text \<open>C22: decompressing a stream that needs a preset dictionary never returns: the stub hands
  \<open>Z_NEED_DICT\<close> to OCaml as a call that went well, and the loop calls again for ever.\<close>

theorem unzip_dictionary_hangs:
  assumes init: "inflateInit2 lib 15 = (Z_OK, i)"
    and first_call: "inflate lib i Z_SYNC_FLUSH str BUFSIZE = (Z_NEED_DICT, i', n, [])" "n \<le> length str" "asks i'"
    and again: "keeps_asking lib asks"
    and str: "str \<noteq> []" "length str < 2 ^ 31" "\<And>k. length (create k) = k"
  shows "unzip lib create str w = None"
proof -
  let ?h = "next_handle w"
  obtain w1 where w1: "zlib_inflate_init lib False 15 w = Inr (Inr ?h, w1)"
    "holds_codec BUFSIZE ?h (Inflating i) (w1\<lparr>dst_buf := create BUFSIZE\<rparr>)"
    using holds_codec_new(2) [of lib i "create BUFSIZE" w] init str(3) by auto
  let ?w = "w1\<lparr>dst_buf := create BUFSIZE\<rparr>"
  from codec_inflate [where f = SYNC_FLUSH and pos = 0 and k = "length str" and str = str, OF w1(2), of lib Z_NEED_DICT i' n "[]"]
  obtain w2 where
    call: "zlib_inflate lib ?h str 0 (int (length str)) 0 (int BUFSIZE) (constructor_index SYNC_FLUSH) ?w =
      Inr (Inr \<lparr>z_finish = False, z_read = int n, z_wrote = 0\<rparr>, w2)"
    and after: "holds_codec BUFSIZE ?h (Inflating i') w2"
    using first_call str(2) by auto
  have "stuck lib ?h asks str w2 n"
    using after str(2) first_call by (auto simp: stuck_def)
  from stuck_loop [OF again this]
  have "zlib_loop (zlib_inflate lib ?h) str (int n) (int (length str) - int n) [[]] w2 = None"
    using first_call(2) by (simp add: of_nat_diff)
  with call str(1) have "zlib_loop (zlib_inflate lib ?h) str 0 (int (length str)) [] ?w = None"
    by (subst zlib_loop.simps) simp
  with w1(1) show ?thesis by (simp add: unzip_def zlib_op_def)
qed

theorem unzip_dictionary_hangs_witness:
  "unzip (ex_zlib\<lparr>inflate := \<lambda>asks flush inp room. (Z_NEED_DICT, True, if asks then 0 else min 6 (length inp), [])\<rparr>)
     (\<lambda>k. replicate k CHR ''?'') ''stream'' ex_zworld = None"
  by (rule unzip_dictionary_hangs [where i = False and i' = True and n = 6 and asks = "\<lambda>i. i"])
    (simp_all add: ex_zlib_def keeps_asking_def)

end
