(* ===== verification/ZipOut.thy ===== *)
theory ZipOut imports ZlibOp begin

text \<open>
  \<open>output_zip\<close> of libs/extc/extc.ml on the stubs of extc_stubs.c: a channel that compresses what is
  written to it, and that it writes a stream that stands for the whole text.
\<close>

section \<open>The channel\<close>

text \<open>
  \<open>obuf\<close> and \<open>ofill\<close>: \<open>out\<close> and \<open>p\<close>; the destination buffer of the world is \<open>tmp_out\<close>; \<open>sunk\<close>: what the
  channel behind got.
\<close>

record ('d, 'i) ochan =
  ow :: "('d, 'i) zworld"
  obuf :: string
  ofill :: nat
  sunk :: string

type_synonym ('d, 'i, 'a) orun = "(('d, 'i) ochan, zexn, 'a) run"

definition put_at :: "nat \<Rightarrow> string \<Rightarrow> string \<Rightarrow> string" where
  "put_at p bs buf = take p buf @ bs @ drop (p + length bs) buf"

text \<open>\<open>Bytes.blit out r.z_read out 0 remain\<close>, which moves the rest to the front.\<close>

partial_function (option) flush_zip ::
  "('d, 'i) stub \<Rightarrow> nat \<Rightarrow> bool \<Rightarrow> ('d, 'i) ochan \<Rightarrow> (c_fault + (zexn + unit) \<times> ('d, 'i) ochan) option" where
  "flush_zip op B finish s =
     (case op (obuf s) 0 (int (ofill s)) 0 (int B) (constructor_index (if finish then FINISH else SYNC_FLUSH)) (ow s) of
        Inl c \<Rightarrow> Some (Inl c)
      | Inr (Inl e, w) \<Rightarrow> Some (Inr (Inl e, s\<lparr>ow := w\<rparr>))
      | Inr (Inr r, w) \<Rightarrow>
          if z_wrote r < 0 \<or> int (length (dst_buf w)) < z_wrote r
          then Some (Inr (Inl (Invalid_argument ''IO.really_output''), s\<lparr>ow := w\<rparr>))
          else let s = s\<lparr>ow := w, sunk := sunk s @ take (nat (z_wrote r)) (dst_buf w)\<rparr>;
                   remain = int (ofill s) - z_read r
               in if z_read r < 0 \<or> remain < 0 \<or> int (length (obuf s)) < z_read r + remain
                  then Some (Inr (Inl (Invalid_argument ''String.blit / Bytes.blit''), s))
                  else let s = s\<lparr>obuf := put_at 0 (take (nat remain) (drop (nat (z_read r)) (obuf s))) (obuf s),
                                 ofill := nat remain\<rparr>
                       in if finish \<and> \<not> z_finish r then flush_zip op B True s else Some (Inr (Inr (), s)))"

declare flush_zip.simps [code]

text \<open>\<open>unsafe_set\<close> does not check its index.\<close>

definition store_byte :: "char \<Rightarrow> (('d, 'i) ochan, zexn, unit) prim" where
  "store_byte c s =
     (if ofill s < length (obuf s) then ret () (s\<lparr>obuf := (obuf s)[ofill s := c], ofill := ofill s + 1\<rparr>)
      else faulty (Undef ''unsafe_set'') s)"

definition write_zip :: "('d, 'i) stub \<Rightarrow> nat \<Rightarrow> char \<Rightarrow> ('d, 'i, unit) orun" where
  "write_zip op B c =
     run_bind (\<lambda>s. if ofill s = B then flush_zip op B False s else Some (Inr (Inr (), s))) (\<lambda>_.
     run_prim (store_byte c))"

definition blit_in :: "string \<Rightarrow> nat \<Rightarrow> nat \<Rightarrow> (('d, 'i) ochan, zexn, unit) prim" where
  "blit_in str pos n s =
     (if pos + n \<le> length str \<and> ofill s + n \<le> length (obuf s)
      then ret () (s\<lparr>obuf := put_at (ofill s) (take n (drop pos str)) (obuf s), ofill := ofill s + n\<rparr>)
      else raise (Invalid_argument ''String.blit / Bytes.blit'') s)"

partial_function (option) output_str ::
  "('d, 'i) stub \<Rightarrow> nat \<Rightarrow> string \<Rightarrow> nat \<Rightarrow> nat \<Rightarrow> ('d, 'i) ochan \<Rightarrow>
    (c_fault + (zexn + nat) \<times> ('d, 'i) ochan) option" where
  "output_str op B str pos len s =
     (let b = B - ofill s
      in if len \<le> b
         then run_bind (run_prim (blit_in str pos len)) (\<lambda>_. run_prim (ret len)) s
         else case run_bind (run_prim (blit_in str pos b)) (\<lambda>_. flush_zip op B False) s of
           None \<Rightarrow> None
         | Some (Inl c) \<Rightarrow> Some (Inl c)
         | Some (Inr (Inl e, s)) \<Rightarrow> Some (Inr (Inl e, s))
         | Some (Inr (Inr _, s)) \<Rightarrow>
             Option.bind (output_str op B str (pos + b) (len - b) s) (\<lambda>r.
               case r of
                 Inr (Inr n, s) \<Rightarrow> Some (Inr (Inr (b + n), s))
               | r \<Rightarrow> Some r))"

declare output_str.simps [code]

definition close_zip :: "('d, 'i) zlib \<Rightarrow> nat \<Rightarrow> nat \<Rightarrow> ('d, 'i, unit) orun" where
  "close_zip lib h B =
     run_bind (flush_zip (zlib_deflate lib h) B True) (\<lambda>_.
     run_prim (\<lambda>s. case zlib_deflate_end lib h (ow s) of Inl c \<Rightarrow> Inl c | Inr (r, w) \<Rightarrow> Inr (r, s\<lparr>ow := w\<rparr>)))"

text \<open>\<open>output_zip\<close>: the handle of the stream and the fresh channel.\<close>

definition output_zip ::
  "('d, 'i) zlib \<Rightarrow> (nat \<Rightarrow> string) \<Rightarrow> nat \<Rightarrow> int \<Rightarrow> ('d, 'i, nat \<times> ('d, 'i) ochan) zprim" where
  "output_zip lib create B level =
     pbind (zlib_deflate_init2 lib False level 15) (\<lambda>h w.
       let w = w\<lparr>dst_buf := create B\<rparr>
       in ret (h, \<lparr>ow = w, obuf = create B, ofill = 0, sunk = []\<rparr>) w)"

text \<open>What a client writes: a byte, or \<open>len\<close> bytes of a string.\<close>

datatype zpiece = Put char | Piece string nat nat

fun feed :: "('d, 'i) stub \<Rightarrow> nat \<Rightarrow> zpiece list \<Rightarrow> ('d, 'i, unit) orun" where
  "feed op B [] = run_prim (ret ())"
| "feed op B (Put c # cs) = run_bind (write_zip op B c) (\<lambda>_. feed op B cs)"
| "feed op B (Piece str pos len # cs) = run_bind (output_str op B str pos len) (\<lambda>_. feed op B cs)"

fun bytes :: "zpiece \<Rightarrow> string" where
  "bytes (Put c) = [c]"
| "bytes (Piece str pos len) = take len (drop pos str)"

text \<open>\<open>IO.output\<close> passes on only what is inside of the string.\<close>

fun inside :: "zpiece \<Rightarrow> bool" where
  "inside (Put c) \<longleftrightarrow> True"
| "inside (Piece str pos len) \<longleftrightarrow> pos + len \<le> length str"

fun single :: "zpiece \<Rightarrow> bool" where
  "single (Put c) \<longleftrightarrow> True"
| "single (Piece str pos len) \<longleftrightarrow> False"

section \<open>A stub that takes what it is given\<close>

text \<open>
  \<open>holds w taken sent n\<close>: the stream took \<open>taken\<close> and delivered \<open>sent\<close>, and at most \<open>n\<close> calls in a row can
  take nothing; if \<open>eager\<close>, none is such that gets a full buffer. A call without input is made only to
  finish.
\<close>

locale pushing =
  fixes op :: "('d, 'i) stub" and B :: nat and eager :: bool
    and holds :: "('d, 'i) zworld \<Rightarrow> string \<Rightarrow> string \<Rightarrow> nat \<Rightarrow> bool"
    and ended :: "('d, 'i) zworld \<Rightarrow> string \<Rightarrow> string \<Rightarrow> bool"
  assumes room: "holds w taken sent n \<Longrightarrow> 0 < B"
    and call: "holds w taken sent n \<Longrightarrow> length buf = B \<Longrightarrow> p \<le> B \<Longrightarrow> fin \<or> 0 < p \<Longrightarrow>
      \<exists>r w'. op buf 0 (int p) 0 (int B) (constructor_index (if fin then FINISH else SYNC_FLUSH)) w = Inr (Inr r, w') \<and>
        0 \<le> z_read r \<and> z_read r \<le> int p \<and> 0 \<le> z_wrote r \<and> z_wrote r \<le> int (length (dst_buf w')) \<and>
        (if z_finish r
         then fin \<and> z_read r = int p \<and> ended w' (taken @ take p buf) (sent @ take (nat (z_wrote r)) (dst_buf w'))
         else \<exists>n'. holds w' (taken @ take (nat (z_read r)) buf) (sent @ take (nat (z_wrote r)) (dst_buf w')) n' \<and>
           (0 < z_read r \<or> n' < n \<and> (eager \<longrightarrow> fin \<or> p < B)))"
begin

text \<open>The channel stands for \<open>whole\<close>: what the stream took and what is in the buffer.\<close>

definition stands_for :: "('d, 'i) ochan \<Rightarrow> string \<Rightarrow> nat \<Rightarrow> bool" where
  "stands_for s whole n \<longleftrightarrow> length (obuf s) = B \<and> ofill s \<le> B \<and>
     (\<exists>taken. holds (ow s) taken (sunk s) n \<and> whole = taken @ take (ofill s) (obuf s))"

lemma stands_for_room: "stands_for s whole n \<Longrightarrow> 0 < B"
  by (auto simp: stands_for_def dest: room)

lemma moved_to_front:
  "m \<le> p \<Longrightarrow> p \<le> length buf \<Longrightarrow>
   length (put_at 0 (take (p - m) (drop m buf)) buf) = length buf \<and>
   take m buf @ take (p - m) (put_at 0 (take (p - m) (drop m buf)) buf) = take p buf"
  by (simp add: put_at_def min_def flip: take_add)

lemma flush_step:
  assumes "stands_for s whole n" "fin \<or> 0 < ofill s"
  shows "\<exists>s'. (flush_zip op B fin s = Some (Inr (Inr (), s')) \<and> fin \<and> ofill s' = 0 \<and> length (obuf s') = B \<and>
      ended (ow s') whole (sunk s')) \<or>
    (\<exists>n'. flush_zip op B fin s = (if fin then flush_zip op B True s' else Some (Inr (Inr (), s'))) \<and>
      stands_for s' whole n' \<and>
      (ofill s' < ofill s \<or> ofill s' = ofill s \<and> n' < n \<and> (eager \<longrightarrow> fin \<or> ofill s < B)))"
proof -
  from assms(1) obtain taken where s: "length (obuf s) = B" "ofill s \<le> B" "holds (ow s) taken (sunk s) n"
    "whole = taken @ take (ofill s) (obuf s)" by (auto simp: stands_for_def)
  from call [OF s(3,1,2) assms(2)] obtain r w where
    op: "op (obuf s) 0 (int (ofill s)) 0 (int B) (constructor_index (if fin then FINISH else SYNC_FLUSH)) (ow s) = Inr (Inr r, w)"
    and r: "0 \<le> z_read r" "z_read r \<le> int (ofill s)" "0 \<le> z_wrote r" "z_wrote r \<le> int (length (dst_buf w))"
    and out: "if z_finish r
         then fin \<and> z_read r = int (ofill s) \<and>
           ended w (taken @ take (ofill s) (obuf s)) (sunk s @ take (nat (z_wrote r)) (dst_buf w))
         else \<exists>n'. holds w (taken @ take (nat (z_read r)) (obuf s)) (sunk s @ take (nat (z_wrote r)) (dst_buf w)) n' \<and>
           (0 < z_read r \<or> n' < n \<and> (eager \<longrightarrow> fin \<or> ofill s < B))" by blast
  let ?m = "nat (z_read r)"
  have m: "z_read r = int ?m" "?m \<le> ofill s" using r by auto
  have rest: "nat (int (ofill s) - z_read r) = ofill s - ?m" using m by linarith
  let ?buf = "put_at 0 (take (ofill s - ?m) (drop ?m (obuf s))) (obuf s)"
  let ?s = "s\<lparr>ow := w, sunk := sunk s @ take (nat (z_wrote r)) (dst_buf w), obuf := ?buf, ofill := ofill s - ?m\<rparr>"
  have front: "length ?buf = B" "take ?m (obuf s) @ take (ofill s - ?m) ?buf = take (ofill s) (obuf s)"
    using moved_to_front [of ?m "ofill s" "obuf s"] m s by auto
  have run: "flush_zip op B fin s = (if fin \<and> \<not> z_finish r then flush_zip op B True ?s else Some (Inr (Inr (), ?s)))"
    using op r s(1,2) by (subst flush_zip.simps) (simp add: Let_def rest)
  show ?thesis
  proof (cases "z_finish r")
    case True
    with out m front(1) s(4) run show ?thesis by (intro exI [of _ ?s] disjI1) simp
  next
    case False
    with out obtain n' where n': "holds w (taken @ take ?m (obuf s)) (sunk ?s) n'" "0 < z_read r \<or> n' < n \<and> (eager \<longrightarrow> fin \<or> ofill s < B)" by auto
    then have "stands_for ?s whole n'" using s front by (auto simp: stands_for_def)
    moreover have "ofill ?s < ofill s \<or> ofill ?s = ofill s \<and> n' < n \<and> (eager \<longrightarrow> fin \<or> ofill s < B)"
      using n'(2) m by auto
    ultimately show ?thesis using run False by (intro exI [of _ ?s] disjI2 exI [of _ n']) simp
  qed
qed

lemma flush_finish:
  "stands_for s whole n \<Longrightarrow>
    \<exists>s'. flush_zip op B True s = Some (Inr (Inr (), s')) \<and> ended (ow s') whole (sunk s')"
proof (induction "(ofill s, n)" arbitrary: s n rule: wf_induct_rule [OF wf_lex_prod [OF wf_less_than wf_less_than]])
  case 1
  from flush_step [OF "1.prems", of True] show ?case
    using "1.hyps" by (metis in_lex_prod less_than_iff)
qed

lemma flush_sync:
  assumes "stands_for s whole n" "0 < ofill s"
  shows "\<exists>s' n'. flush_zip op B False s = Some (Inr (Inr (), s')) \<and> stands_for s' whole n' \<and>
    (ofill s' < ofill s \<or> ofill s' = ofill s \<and> n' < n \<and> (eager \<longrightarrow> ofill s < B))"
  using flush_step [OF assms(1), of False] assms(2) by auto

lemma blit_in_ok:
  assumes "stands_for s whole n" "pos + k \<le> length str" "ofill s + k \<le> B"
  shows "\<exists>s'. blit_in str pos k s = Inr (Inr (), s') \<and> stands_for s' (whole @ take k (drop pos str)) n \<and> ofill s' = ofill s + k"
  using assms by (auto simp: stands_for_def blit_in_def put_at_def min_def)

lemma output_ok:
  "stands_for s whole n \<Longrightarrow> pos + len \<le> length str \<Longrightarrow>
    \<exists>s' n'. output_str op B str pos len s = Some (Inr (Inr len, s')) \<and> stands_for s' (whole @ take len (drop pos str)) n'"
proof (induction "(len, ofill s, n)" arbitrary: s whole n pos len
    rule: wf_induct_rule [OF wf_lex_prod [OF wf_less_than wf_lex_prod [OF wf_less_than wf_less_than]]])
  case 1
  have fill: "ofill s \<le> B" using "1.prems" by (simp add: stands_for_def)
  show ?case
  proof (cases "len \<le> B - ofill s")
    case True
    with fill have "ofill s + len \<le> B" by linarith
    from blit_in_ok [OF "1.prems" this] True show ?thesis by (subst output_str.simps) (auto simp: Let_def)
  next
    case False
    let ?b = "B - ofill s"
    have "pos + ?b \<le> length str" "ofill s + ?b \<le> B" using False "1.prems"(2) fill by auto
    from blit_in_ok [OF "1.prems"(1) this] obtain s1 where
      s1: "blit_in str pos ?b s = Inr (Inr (), s1)" "stands_for s1 (whole @ take ?b (drop pos str)) n" "ofill s1 = B"
      using fill by auto
    from flush_sync [OF s1(2)] s1(3) stands_for_room [OF s1(2)] obtain s2 n2 where
      s2: "flush_zip op B False s1 = Some (Inr (Inr (), s2))" "stands_for s2 (whole @ take ?b (drop pos str)) n2"
        "ofill s2 < B \<or> ofill s2 = B \<and> n2 < n" by auto
    have smaller: "((len - ?b, ofill s2, n2), (len, ofill s, n)) \<in> less_than <*lex*> less_than <*lex*> less_than"
      using s2(3) False fill by auto
    have inside: "(pos + ?b) + (len - ?b) \<le> length str" using "1.prems"(2) False by simp
    from "1.hyps" [OF smaller s2(2) inside] obtain s3 n3 where
      s3: "output_str op B str (pos + ?b) (len - ?b) s2 = Some (Inr (Inr (len - ?b), s3))"
        "stands_for s3 ((whole @ take ?b (drop pos str)) @ take (len - ?b) (drop (pos + ?b) str)) n3" by blast
    have "take ?b (drop pos str) @ take (len - ?b) (drop (pos + ?b) str) = take len (drop pos str)"
      using False by (metis add.commute drop_drop le_add_diff_inverse nat_le_linear take_add)
    with s3 s2 s1 False show ?thesis
      by (intro exI [of _ s3] exI [of _ n3]) (subst output_str.simps, simp add: Let_def)
  qed
qed

lemma write_ok:
  assumes "stands_for s whole n" "eager"
  shows "\<exists>s' n'. write_zip op B c s = Some (Inr (Inr (), s')) \<and> stands_for s' (whole @ [c]) n'"
proof -
  have store: "\<exists>s'. store_byte c s = Inr (Inr (), s') \<and> stands_for s' (whole @ [c]) n"
    if "stands_for s whole n" "ofill s < B" for s n
    using that by (auto simp: store_byte_def stands_for_def take_Suc_conv_app_nth)
  show ?thesis
  proof (cases "ofill s = B")
    case True
    with flush_sync [OF assms(1)] stands_for_room [OF assms(1)] assms(2) obtain s1 n1 where
      s1: "flush_zip op B False s = Some (Inr (Inr (), s1))" "stands_for s1 whole n1" "ofill s1 < B" by auto
    with store [OF s1(2,3)] True show ?thesis by (auto simp: write_zip_def)
  next
    case False
    then have "ofill s < B" using assms(1) by (simp add: stands_for_def)
    from store [OF assms(1) this] False show ?thesis by (auto simp: write_zip_def)
  qed
qed

lemma feed_ok:
  "stands_for s whole n \<Longrightarrow> \<forall>c \<in> set cs. inside c \<and> (eager \<or> \<not> single c) \<Longrightarrow>
    \<exists>s' n'. feed op B cs s = Some (Inr (Inr (), s')) \<and> stands_for s' (whole @ concat (map bytes cs)) n'"
proof (induction cs arbitrary: s whole n)
  case Nil
  then show ?case by auto
next
  case (Cons c cs)
  have "\<exists>s1 n1. feed op B (c # cs) s = feed op B cs s1 \<and> stands_for s1 (whole @ bytes c) n1"
  proof (cases c)
    case (Put x)
    with write_ok [OF Cons.prems(1), of x] Cons.prems(2) show ?thesis by auto
  next
    case (Piece str pos len)
    with output_ok [OF Cons.prems(1), of pos len str] Cons.prems(2) show ?thesis by auto
  qed
  then obtain s1 n1 where s1: "feed op B (c # cs) s = feed op B cs s1" "stands_for s1 (whole @ bytes c) n1" by blast
  from Cons.IH [OF s1(2)] Cons.prems(2) s1(1) show ?case by simp
qed

end

section \<open>What zlib promises to the channel\<close>

text \<open>
  As \<open>deflates\<close>, but a call that finishes may come with input, and may have to be made again with what
  it did not take.
\<close>

definition deflates_rest ::
  "('d, 'i) zlib \<Rightarrow> int \<Rightarrow> ('d \<Rightarrow> string \<Rightarrow> string \<Rightarrow> bool) \<Rightarrow> ('d \<Rightarrow> nat) \<Rightarrow> (string \<Rightarrow> string option) \<Rightarrow> bool" where
  "deflates_rest lib level run todo decode \<longleftrightarrow>
     (case deflateInit2 lib level 8 15 8 0 of (code, d) \<Rightarrow> code = Z_OK \<and> run d [] []) \<and>
     (\<forall>d given sent flush inp room code d' n out.
        run d given sent \<and> (flush = Z_FINISH \<or> flush = Z_SYNC_FLUSH \<and> inp \<noteq> []) \<and> 0 < room \<and>
        deflate lib d flush inp room = (code, d', n, out) \<longrightarrow>
        n \<le> length inp \<and> length out \<le> room \<and>
        (code = Z_OK \<and> run d' (given @ take n inp) (sent @ out) \<and> (n = 0 \<longrightarrow> todo d' < todo d) \<or>
         code = Z_STREAM_END \<and> flush = Z_FINISH \<and> n = length inp \<and> decode (sent @ out) = Some (given @ inp) \<and>
           deflateEnd lib d' = Z_OK))"

text \<open>A call never leaves all of a full buffer.\<close>

definition takes_full :: "('d, 'i) zlib \<Rightarrow> ('d \<Rightarrow> string \<Rightarrow> string \<Rightarrow> bool) \<Rightarrow> nat \<Rightarrow> bool" where
  "takes_full lib run B \<longleftrightarrow>
     (\<forall>d given sent inp. run d given sent \<and> length inp = B \<longrightarrow>
        (case deflate lib d Z_SYNC_FLUSH inp B of (code, d', n, out) \<Rightarrow> 0 < n))"

lemma takes_fullD:
  assumes "takes_full lib run B" "run d given sent" "length inp = B" "deflate lib d Z_SYNC_FLUSH inp B = (code, d', n, out)"
  shows "0 < n"
  using assms(1) [unfolded takes_full_def, rule_format, of d given sent inp] assms(2-) by simp

lemma deflates_rest_call:
  assumes "deflates_rest lib level run todo decode" "run d given sent" "f = FINISH \<or> f = SYNC_FLUSH \<and> inp \<noteq> []" "0 < room"
    "deflate lib d (constructor_index f) inp room = (code, d', n, out)"
  shows "n \<le> length inp \<and> length out \<le> room \<and>
    (code = Z_OK \<and> run d' (given @ take n inp) (sent @ out) \<and> (n = 0 \<longrightarrow> todo d' < todo d) \<or>
     code = Z_STREAM_END \<and> f = FINISH \<and> n = length inp \<and> decode (sent @ out) = Some (given @ inp) \<and>
       deflateEnd lib d' = Z_OK)"
  using assms(1) [unfolded deflates_rest_def, THEN conjunct2, rule_format,
      of d given sent "constructor_index f" inp room code d' n out] assms(2-) by auto

definition pushed where
  "pushed lib h B level eager run todo decode w taken sent n \<longleftrightarrow>
     deflates_rest lib level run todo decode \<and> 0 < B \<and> (eager \<longrightarrow> takes_full lib run B) \<and>
     (\<exists>d. holds_codec B h (Deflating d) w \<and> run d taken sent \<and> n = todo d)"

definition finished where
  "finished lib h B decode w taken sent \<longleftrightarrow>
     decode sent = Some taken \<and> (\<exists>d. holds_codec B h (Deflating d) w \<and> deflateEnd lib d = Z_OK)"

lemma pushed_call:
  assumes "pushed lib h B level eager run todo decode w taken sent n" "length buf = B" "p \<le> B" "fin \<or> 0 < p"
  shows "\<exists>r w'. zlib_deflate lib h buf 0 (int p) 0 (int B) (constructor_index (if fin then FINISH else SYNC_FLUSH)) w
      = Inr (Inr r, w') \<and>
    0 \<le> z_read r \<and> z_read r \<le> int p \<and> 0 \<le> z_wrote r \<and> z_wrote r \<le> int (length (dst_buf w')) \<and>
    (if z_finish r
     then fin \<and> z_read r = int p \<and>
       finished lib h B decode w' (taken @ take p buf) (sent @ take (nat (z_wrote r)) (dst_buf w'))
     else \<exists>n'. pushed lib h B level eager run todo decode w' (taken @ take (nat (z_read r)) buf)
         (sent @ take (nat (z_wrote r)) (dst_buf w')) n' \<and>
       (0 < z_read r \<or> n' < n \<and> (eager \<longrightarrow> fin \<or> p < B)))"
proof -
  from assms(1) obtain d where c: "deflates_rest lib level run todo decode" "0 < B" "eager \<longrightarrow> takes_full lib run B"
    "holds_codec B h (Deflating d) w" "run d taken sent" "n = todo d" by (auto simp: pushed_def)
  let ?f = "if fin then FINISH else SYNC_FLUSH"
  obtain code d' m out where call: "deflate lib d (constructor_index ?f) (take p (drop 0 buf)) B = (code, d', m, out)"
    by (metis prod_cases4)
  have f: "?f = FINISH \<or> ?f = SYNC_FLUSH \<and> take p (drop 0 buf) \<noteq> []" using assms(2-4) c(2) by auto
  from deflates_rest_call [OF c(1,5) f c(2) call] assms(2,3) have law: "m \<le> p \<and> length out \<le> B \<and>
    (code = Z_OK \<and> run d' (taken @ take m buf) (sent @ out) \<and> (m = 0 \<longrightarrow> todo d' < todo d) \<or>
     code = Z_STREAM_END \<and> fin \<and> m = p \<and> decode (sent @ out) = Some (taken @ take p buf) \<and> deflateEnd lib d' = Z_OK)"
    by (cases fin) (auto simp: min_def split: if_splits)
  have full: "eager \<and> m = 0 \<longrightarrow> fin \<or> p < B"
    using takes_fullD [of lib run B d taken sent buf code d' m out] c(3,5) call assms(2,3)
    by (cases "p = B"; cases fin) auto
  let ?r = "\<lparr>z_finish = (code = Z_STREAM_END), z_read = int m, z_wrote = int (length out)\<rparr>"
  have "0 + p \<le> length buf" "length buf < 2 ^ 31" using assms(2,3) c(4) by (auto simp: holds_codec_def)
  from codec_deflate [where f = ?f, OF c(4) this call] law obtain w' where
    result: "zlib_deflate lib h buf 0 (int p) 0 (int B) (constructor_index ?f) w = Inr (Inr ?r, w')"
    and after: "holds_codec B h (Deflating d') w'" "take (length out) (dst_buf w') = out" "length (dst_buf w') = B"
    by auto
  have end_case: "fin \<and> m = p \<and> finished lib h B decode w' (taken @ take p buf) (sent @ out)" if "code = Z_STREAM_END"
    using law that after(1) by (auto simp: finished_def)
  have rest_case: "pushed lib h B level eager run todo decode w' (taken @ take m buf) (sent @ out) (todo d') \<and>
      (0 < m \<or> todo d' < n \<and> (eager \<longrightarrow> fin \<or> p < B))" if "code \<noteq> Z_STREAM_END"
    using law that after(1) c full by (auto simp: pushed_def)
  show ?thesis
    using law after(2,3) end_case rest_case
    by (intro exI [of _ ?r] exI [of _ w'] conjI result) (simp, simp, simp, simp, auto)
qed

interpretation zout: pushing "zlib_deflate lib h" B eager "pushed lib h B level eager run todo decode" "finished lib h B decode"
  for lib h B eager level run todo decode
proof (unfold_locales, goal_cases)
  case 1
  then show ?case by (simp add: pushed_def)
next
  case 2
  then show ?case by (rule pushed_call)
qed

section \<open>The channel from its opening to its end\<close>

lemma output_zip_opens:
  assumes "deflates_rest lib (s32 level) run todo decode" "0 < B" "B < 2 ^ 31" "\<And>k. length (create k) = k"
    "eager \<longrightarrow> takes_full lib run B"
  shows "\<exists>s w' n. output_zip lib create B level w = Inr (Inr (next_handle w, s), w') \<and>
    zout.stands_for B lib (next_handle w) (s32 level) eager run todo decode s [] n"
proof -
  obtain d where init: "deflateInit2 lib (s32 level) 8 15 8 0 = (Z_OK, d)" "run d [] []"
    using assms(1) by (auto simp: deflates_rest_def)
  from holds_codec_new(1) [where b = "create B", OF init(1)] assms(3,4) obtain w1 where
    w1: "zlib_deflate_init2 lib False level 15 w = Inr (Inr (next_handle w), w1)"
      "holds_codec B (next_handle w) (Deflating d) (w1\<lparr>dst_buf := create B\<rparr>)" by auto
  then show ?thesis using assms init(2)
    by (auto simp: output_zip_def pbind_def Let_def zout.stands_for_def pushed_def)
qed

text \<open>What a client writes to \<open>output_zip\<close>, in single bytes and in pieces of any length, comes out as a
  compressed stream that stands for all of it once the channel is closed. No call runs over the end of
  the buffer, every flush returns, and the stream of zlib is freed. Single bytes need a zlib that never
  leaves all of a full buffer.\<close>

lemma output_zip_stream:
  assumes "deflates_rest lib (s32 level) run todo decode" "0 < B" "B < 2 ^ 31" "\<And>k. length (create k) = k"
    and "\<forall>c \<in> set cs. inside c \<and> (single c \<longrightarrow> takes_full lib run B)"
  shows "\<exists>h s w1 s1 s2. output_zip lib create B level w = Inr (Inr (h, s), w1) \<and>
    feed (zlib_deflate lib h) B cs s = Some (Inr (Inr (), s1)) \<and>
    close_zip lib h B s1 = Some (Inr (Inr (), s2)) \<and>
    decode (sunk s2) = Some (concat (map bytes cs))"
proof -
  let ?h = "next_handle w" and ?eager = "takes_full lib run B"
  from output_zip_opens [where eager = ?eager, OF assms(1-4)] obtain s w1 n where
    s: "output_zip lib create B level w = Inr (Inr (?h, s), w1)"
      "zout.stands_for B lib ?h (s32 level) ?eager run todo decode s [] n" by blast
  from zout.feed_ok [OF s(2), of cs] assms(5) obtain s1 n1 where
    s1: "feed (zlib_deflate lib ?h) B cs s = Some (Inr (Inr (), s1))"
      "zout.stands_for B lib ?h (s32 level) ?eager run todo decode s1 (concat (map bytes cs)) n1" by auto
  from zout.flush_finish [OF s1(2)] obtain s2 where
    s2: "flush_zip (zlib_deflate lib ?h) B True s1 = Some (Inr (Inr (), s2))"
      "finished lib ?h B decode (ow s2) (concat (map bytes cs)) (sunk s2)" by blast
  then obtain d w2 where "decode (sunk s2) = Some (concat (map bytes cs))"
    "zlib_deflate_end lib ?h (ow s2) = Inr (Inr (), w2)"
    by (auto simp: finished_def dest: holds_codec_end(1))
  with s s1 s2(1) show ?thesis by (auto simp: close_zip_def)
qed

lemma ex_deflates_rest: "deflates_rest ex_zlib level (\<lambda>p given sent. sent @ p = ex_body given) length ex_decode"
proof -
  have join: "sent @ p @ q = ex_body given @ q" if "sent @ p = ex_body given" for sent p q given
    using arg_cong [OF that, of "\<lambda>s. s @ q"] by simp
  show ?thesis
    by (auto simp: deflates_rest_def ex_zlib_def Let_def join ex_decode_body simp del: take_append drop_append
        split: if_splits)
qed

section \<open>Where the channel fails\<close>

text \<open>
  A byte written when zlib leaves all of a full buffer, as while it still delivers what it has, is stored
  behind the buffer.
\<close>

lemma write_runs_over:
  assumes "op (obuf s) 0 (int B) 0 (int B) (constructor_index SYNC_FLUSH) (ow s) = Inr (Inr r, w)"
    "z_read r = 0" "0 \<le> z_wrote r" "z_wrote r \<le> int (length (dst_buf w))" "length (obuf s) = B" "ofill s = B"
  shows "write_zip op B c s = Some (Inl (Undef ''unsafe_set''))"
proof -
  have "\<exists>s'. flush_zip op B False s = Some (Inr (Inr (), s')) \<and> ofill s' = B \<and> length (obuf s') = B"
    using assms by (subst flush_zip.simps) (simp add: Let_def put_at_def)
  with assms(6) show ?thesis by (auto simp: write_zip_def store_byte_def)
qed

lemma write_runs_over_example:
  "write_zip (\<lambda>_ _ _ _ _ _ w. ret \<lparr>z_finish = False, z_read = 0, z_wrote = 2\<rparr> w) 2 CHR ''c''
     \<lparr>ow = ex_zworld\<lparr>dst_buf := ''zz''\<rparr>, obuf = ''ab'', ofill = 2, sunk = []\<rparr> = Some (Inl (Undef ''unsafe_set''))"
  by (rule write_runs_over [where r = "\<lparr>z_finish = False, z_read = 0, z_wrote = 2\<rparr>"]) (simp_all, simp)

text \<open>
  A flush with nothing to write is the second one in a row: zlib has nothing to do, says \<open>Z_BUF_ERROR\<close>,
  which its documentation calls not fatal, and the stub raises.
\<close>

lemma empty_flush_raises:
  assumes "holds_codec B h (Deflating d) (ow s)" "length (obuf s) = B" "ofill s = 0"
    "deflate lib d Z_SYNC_FLUSH [] B = (Z_BUF_ERROR, d, 0, [])"
  shows "\<exists>s'. flush_zip (zlib_deflate lib h) B False s =
    Some (Inr (Inl (Failure ''Error in `zlib_deflate` (extc_stubs.c): call to `deflate` failed: Z_BUF_ERROR''), s'))"
proof -
  have "0 + 0 \<le> length (obuf s)" "length (obuf s) < 2 ^ 31" using assms(1,2) by (auto simp: holds_codec_def)
  from holds_codec_request [OF assms(1) this] obtain a z where
    r: "request_ok h (obuf s) 0 0 0 B a z (ow s)" "internal z = Some (Deflating d)" by blast
  from deflate_call [where f = SYNC_FLUSH, OF r, of lib Z_BUF_ERROR d 0 "[]"] assms(3,4) show ?thesis
    by (subst flush_zip.simps) (simp add: deflate_error_def)
qed

end
