(* ===== verification/ZipIn.thy ===== *)
theory ZipIn imports ZipOut begin

text \<open>
  \<open>input_zip\<close> of libs/extc/extc.ml on the stubs of extc_stubs.c: a channel that decompresses what it reads
  from another one, that it delivers the text of the stream, and what becomes of the end of a text and
  of bytes behind the stream.
\<close>

section \<open>The channel\<close>

datatype iexn = Stub_exn zexn | No_more_input

text \<open>
  \<open>ibuf\<close> and \<open>ipos\<close>: \<open>buf\<close> and \<open>p\<close>; the destination buffer of the world is \<open>tmp_out\<close>; \<open>source\<close>: what the
  channel behind is going to deliver, by its answers.
\<close>

record ('d, 'i) ichan =
  iw :: "('d, 'i) zworld"
  tmp_in :: string
  tmp_buf :: string
  ibuf :: string
  ipos :: nat
  source :: "string list"

type_synonym ('d, 'i, 'a) irun = "(('d, 'i) ichan, iexn, 'a) run"

text \<open>\<open>IO.input ch tmp_in 0 bufsize\<close>: as much of the next answer as fits, or the end.\<close>

definition io_input :: "nat \<Rightarrow> (('d, 'i) ichan, iexn, nat) prim" where
  "io_input B s =
     (case source s of
        [] \<Rightarrow> raise No_more_input s
      | c # cs \<Rightarrow>
          let got = take B c; rest = drop B c
          in ret (length got) (s\<lparr>tmp_in := put_at 0 got (tmp_in s), source := (if rest = [] then cs else rest # cs)\<rparr>))"

partial_function (option) fill_loop ::
  "('d, 'i) stub \<Rightarrow> nat \<Rightarrow> int \<Rightarrow> int \<Rightarrow> ('d, 'i) ichan \<Rightarrow> (c_fault + (iexn + unit) \<times> ('d, 'i) ichan) option" where
  "fill_loop op B pos len s =
     (if 0 < len \<or> pos = 0
      then case op (tmp_in s) pos len 0 (int B)
                 (constructor_index (if pos = 0 \<and> len = 0 then FINISH else SYNC_FLUSH)) (iw s) of
          Inl c \<Rightarrow> Some (Inl c)
        | Inr (Inl e, w) \<Rightarrow> Some (Inr (Inl (Stub_exn e), s\<lparr>iw := w\<rparr>))
        | Inr (Inr r, w) \<Rightarrow>
            if z_wrote r < 0 \<or> int (length (dst_buf w)) < z_wrote r
            then Some (Inr (Inl (Stub_exn (Invalid_argument ''Buffer.add_substring/add_subbytes'')), s\<lparr>iw := w\<rparr>))
            else fill_loop op B (pos + z_read r) (len - z_read r)
                   (s\<lparr>iw := w, tmp_buf := tmp_buf s @ take (nat (z_wrote r)) (dst_buf w)\<rparr>)
      else Some (Inr (Inr (), s)))"

declare fill_loop.simps [code]

definition take_contents :: "(('d, 'i) ichan, iexn, unit) prim" where
  "take_contents s = ret () (s\<lparr>ipos := 0, ibuf := tmp_buf s, tmp_buf := []\<rparr>)"

definition fill_buffer :: "('d, 'i) stub \<Rightarrow> nat \<Rightarrow> ('d, 'i, unit) irun" where
  "fill_buffer op B =
     run_bind (run_prim (io_input B)) (\<lambda>n.
     run_bind (fill_loop op B 0 (int n)) (\<lambda>_. run_prim take_contents))"

text \<open>\<open>unsafe_get\<close> does not check its index.\<close>

definition get_byte :: "(('d, 'i) ichan, iexn, char) prim" where
  "get_byte s =
     (if ipos s < length (ibuf s) then ret (ibuf s ! ipos s) (s\<lparr>ipos := ipos s + 1\<rparr>)
      else faulty (Undef ''unsafe_get'') s)"

definition read_zip :: "('d, 'i) stub \<Rightarrow> nat \<Rightarrow> ('d, 'i, char) irun" where
  "read_zip op B =
     run_bind (\<lambda>s. if ipos s = length (ibuf s) then fill_buffer op B s else Some (Inr (Inr (), s))) (\<lambda>_.
     run_prim get_byte)"

text \<open>
  \<open>input str pos len\<close> stores into \<open>str\<close>, which is returned with the number of bytes; what it holds after an
  exception is left out.
\<close>

definition blit_out :: "string \<Rightarrow> nat \<Rightarrow> nat \<Rightarrow> (('d, 'i) ichan, iexn, string) prim" where
  "blit_out str pos n s =
     (if ipos s + n \<le> length (ibuf s) \<and> pos + n \<le> length str
      then ret (put_at pos (take n (drop (ipos s) (ibuf s))) str) s
      else raise (Stub_exn (Invalid_argument ''String.blit / Bytes.blit'')) s)"

partial_function (option) input_str ::
  "('d, 'i) stub \<Rightarrow> nat \<Rightarrow> string \<Rightarrow> nat \<Rightarrow> nat \<Rightarrow> ('d, 'i) ichan \<Rightarrow>
    (c_fault + (iexn + nat \<times> string) \<times> ('d, 'i) ichan) option" where
  "input_str op B str pos len s =
     (let b = length (ibuf s) - ipos s
      in if len \<le> b
         then run_bind (run_prim (blit_out str pos len)) (\<lambda>str.
              run_prim (\<lambda>s. ret (len, str) (s\<lparr>ipos := ipos s + len\<rparr>))) s
         else case run_bind (run_prim (blit_out str pos b)) (\<lambda>str.
                   run_bind (fill_buffer op B) (\<lambda>_. run_prim (ret str))) s of
           None \<Rightarrow> None
         | Some (Inl c) \<Rightarrow> Some (Inl c)
         | Some (Inr (Inl e, s)) \<Rightarrow> Some (Inr (Inl e, s))
         | Some (Inr (Inr str, s)) \<Rightarrow>
             if ipos s = length (ibuf s) then Some (Inr (Inr (b, str), s))
             else Option.bind (input_str op B str (pos + b) (len - b) s) (\<lambda>r.
               case r of
                 Inr (Inr (n, str), s) \<Rightarrow> Some (Inr (Inr (b + n, str), s))
               | r \<Rightarrow> Some r))"

declare input_str.simps [code]

text \<open>A client that asks for what is missing of \<open>len\<close> bytes, up to \<open>k\<close> times.\<close>

fun read_fully ::
  "('d, 'i) stub \<Rightarrow> nat \<Rightarrow> (nat \<Rightarrow> string) \<Rightarrow> nat \<Rightarrow> nat \<Rightarrow> ('d, 'i, string) irun" where
  "read_fully op B create 0 len = run_prim (ret [])"
| "read_fully op B create (Suc k) len =
     run_bind (input_str op B (create len) 0 len) (\<lambda>(n, str).
     if n = len then run_prim (ret str)
     else run_bind (read_fully op B create k (len - n)) (\<lambda>more. run_prim (ret (take n str @ more))))"

definition close_in :: "nat \<Rightarrow> (('d, 'i) ichan, iexn, unit) prim" where
  "close_in h s =
     (case zlib_inflate_end h (iw s) of
        Inl c \<Rightarrow> Inl c
      | Inr (Inl e, w) \<Rightarrow> Inr (Inl (Stub_exn e), s\<lparr>iw := w\<rparr>)
      | Inr (Inr u, w) \<Rightarrow> Inr (Inr u, s\<lparr>iw := w\<rparr>))"

definition input_zip ::
  "('d, 'i) zlib \<Rightarrow> (nat \<Rightarrow> string) \<Rightarrow> nat \<Rightarrow> string list \<Rightarrow> ('d, 'i, nat \<times> ('d, 'i) ichan) zprim" where
  "input_zip lib create B chunks =
     pbind (zlib_inflate_init lib False 15) (\<lambda>h w.
       let w = w\<lparr>dst_buf := create B\<rparr>
       in ret (h, \<lparr>iw = w, tmp_in = create B, tmp_buf = [], ibuf = [], ipos = 0, source = chunks\<rparr>) w)"

lemma put_at_put_at:
  "length u = b \<Longrightarrow> pos + b \<le> length str \<Longrightarrow> put_at (pos + b) v (put_at pos u str) = put_at pos (u @ v) str"
  by (simp add: put_at_def min_def ac_simps)

lemma input_exhausted:
  assumes "source s = []" "ipos s \<le> length (ibuf s)" "length (ibuf s) - ipos s < len" "pos + len \<le> length str"
  shows "input_str op B str pos len s = Some (Inr (Inl No_more_input, s))"
proof -
  have "blit_out str pos (length (ibuf s) - ipos s) s =
      Inr (Inr (put_at pos (drop (ipos s) (ibuf s)) str), s)" using assms by (simp add: blit_out_def)
  moreover have "fill_buffer op B s = Some (Inr (Inl No_more_input, s))"
    using assms(1) by (simp add: fill_buffer_def io_input_def)
  ultimately show ?thesis using assms(3) by (subst input_str.simps) (simp add: Let_def)
qed

section \<open>A stub that delivers what it is given\<close>

text \<open>
  \<open>going w rest made n\<close>: \<open>made\<close> is delivered, \<open>rest\<close> of the stream is to come, and at most \<open>n\<close> calls in a row
  can take nothing. Every stream stands for \<open>whole\<close>.
\<close>

locale pulling =
  fixes op :: "('d, 'i) stub" and B :: nat and whole :: string
    and going :: "('d, 'i) zworld \<Rightarrow> string \<Rightarrow> string \<Rightarrow> nat \<Rightarrow> bool"
    and ended :: "('d, 'i) zworld \<Rightarrow> string \<Rightarrow> bool"
  assumes rest_left: "going w rest made n \<Longrightarrow> rest \<noteq> [] \<and> 0 < B"
    and complete: "ended w made \<Longrightarrow> made = whole"
    and call: "going w (inp @ later) made n \<Longrightarrow> inp \<noteq> [] \<Longrightarrow> length buf = B \<Longrightarrow> pos + length inp \<le> B \<Longrightarrow>
      take (length inp) (drop pos buf) = inp \<Longrightarrow>
      \<exists>r w'. op buf (int pos) (int (length inp)) 0 (int B) (constructor_index SYNC_FLUSH) w = Inr (Inr r, w') \<and>
        0 \<le> z_read r \<and> z_read r \<le> int (length inp) \<and> 0 \<le> z_wrote r \<and> z_wrote r \<le> int (length (dst_buf w')) \<and>
        (if z_finish r
         then z_read r = int (length inp) \<and> later = [] \<and> ended w' (made @ take (nat (z_wrote r)) (dst_buf w'))
         else \<exists>n'. going w' (drop (nat (z_read r)) inp @ later) (made @ take (nat (z_wrote r)) (dst_buf w')) n' \<and>
           (0 < z_read r \<or> n' < n))"
begin

definition decoding :: "('d, 'i) zworld \<Rightarrow> string \<Rightarrow> string \<Rightarrow> bool" where
  "decoding w rest made \<longleftrightarrow> (if rest = [] then ended w made else \<exists>n. going w rest made n)"

lemma decoding_cases:
  "going w rest made n \<Longrightarrow> decoding w rest made"
  "ended w made \<Longrightarrow> decoding w [] made"
  by (auto simp: decoding_def dest: rest_left)

lemma loop_returns:
  "going (iw s) (inp @ later) made n \<Longrightarrow> inp \<noteq> [] \<Longrightarrow> length (tmp_in s) = B \<Longrightarrow> pos + length inp \<le> B \<Longrightarrow>
   take (length inp) (drop pos (tmp_in s)) = inp \<Longrightarrow>
   \<exists>w new. fill_loop op B (int pos) (int (length inp)) s = Some (Inr (Inr (), s\<lparr>iw := w, tmp_buf := tmp_buf s @ new\<rparr>)) \<and>
     decoding w later (made @ new)"
proof (induction "(length inp, n)" arbitrary: s inp made n pos
    rule: wf_induct_rule [OF wf_lex_prod [OF wf_less_than wf_less_than]])
  case 1
  from call [OF "1.prems"] obtain r w where
    op: "op (tmp_in s) (int pos) (int (length inp)) 0 (int B) (constructor_index SYNC_FLUSH) (iw s) = Inr (Inr r, w)"
    and r: "0 \<le> z_read r" "z_read r \<le> int (length inp)" "0 \<le> z_wrote r" "z_wrote r \<le> int (length (dst_buf w))"
    and out: "if z_finish r
         then z_read r = int (length inp) \<and> later = [] \<and> ended w (made @ take (nat (z_wrote r)) (dst_buf w))
         else \<exists>n'. going w (drop (nat (z_read r)) inp @ later) (made @ take (nat (z_wrote r)) (dst_buf w)) n' \<and>
           (0 < z_read r \<or> n' < n)" by blast
  let ?m = "nat (z_read r)" and ?new = "take (nat (z_wrote r)) (dst_buf w)"
  let ?s = "s\<lparr>iw := w, tmp_buf := tmp_buf s @ ?new\<rparr>"
  have args: "int pos + z_read r = int (pos + ?m)" "int (length inp) - z_read r = int (length (drop ?m inp))"
    using r by auto
  have run: "fill_loop op B (int pos) (int (length inp)) s = fill_loop op B (int (pos + ?m)) (int (length (drop ?m inp))) ?s"
    using op r "1.prems"(2) by (subst fill_loop.simps) (simp add: args del: length_drop of_nat_add)
  show ?case
  proof (cases "drop ?m inp = []")
    case True
    with "1.prems"(2) r have m: "0 < ?m" by (cases "?m = 0") auto
    have "fill_loop op B (int (pos + ?m)) (int (length (drop ?m inp))) ?s = Some (Inr (Inr (), ?s))"
      using True m by (subst fill_loop.simps) simp
    moreover have "decoding w later (made @ ?new)"
      using out True by (auto simp: decoding_cases split: if_splits)
    ultimately show ?thesis using run by (intro exI [of _ w] exI [of _ ?new]) simp
  next
    case False
    with out r obtain n' where n': "going w (drop ?m inp @ later) (made @ ?new) n'" "0 < z_read r \<or> n' < n"
      by (auto split: if_splits)
    have smaller: "((length (drop ?m inp), n'), (length inp, n)) \<in> less_than <*lex*> less_than"
      using n'(2) r "1.prems"(2) by auto
    have fits: "(pos + ?m) + length (drop ?m inp) \<le> B" using r "1.prems"(4) False by auto
    have "drop ?m (take (length inp) (drop pos (tmp_in s))) = drop ?m inp" using "1.prems"(5) by simp
    then have at: "take (length (drop ?m inp)) (drop (pos + ?m) (tmp_in ?s)) = drop ?m inp"
      by (simp add: drop_take add.commute)
    from "1.hyps" [OF smaller, of ?s "made @ ?new"] n'(1) False fits at "1.prems"(3) obtain w' new where
      "fill_loop op B (int (pos + ?m)) (int (length (drop ?m inp))) ?s =
        Some (Inr (Inr (), ?s\<lparr>iw := w', tmp_buf := tmp_buf ?s @ new\<rparr>))" "decoding w' later ((made @ ?new) @ new)"
      by fastforce
    with run show ?thesis by (intro exI [of _ w'] exI [of _ "?new @ new"]) simp
  qed
qed

text \<open>The channel delivered \<open>used\<close>, and what it holds in its buffer comes next.\<close>

definition delivers :: "('d, 'i) ichan \<Rightarrow> string \<Rightarrow> bool" where
  "delivers s used \<longleftrightarrow> length (tmp_in s) = B \<and> 0 < B \<and> tmp_buf s = [] \<and> ipos s \<le> length (ibuf s) \<and> [] \<notin> set (source s) \<and>
     decoding (iw s) (concat (source s)) (used @ drop (ipos s) (ibuf s))"

lemma fill_ok:
  assumes "delivers s used" "source s \<noteq> []"
  shows "\<exists>s'. fill_buffer op B s = Some (Inr (Inr (), s')) \<and> delivers s' (used @ drop (ipos s) (ibuf s)) \<and>
    ipos s' = 0 \<and> length (concat (source s')) < length (concat (source s)) \<and>
    (length (hd (source s)) \<le> B \<longrightarrow> source s' = tl (source s))"
proof -
  from assms obtain c cs where src: "source s = c # cs" by (cases "source s") auto
  let ?made = "used @ drop (ipos s) (ibuf s)" and ?inp = "take B c"
  let ?source = "if drop B c = [] then cs else drop B c # cs"
  let ?s = "s\<lparr>tmp_in := put_at 0 ?inp (tmp_in s), source := ?source\<rparr>"
  from assms(1) src have s: "length (tmp_in s) = B" "0 < B" "tmp_buf s = []" "c \<noteq> []" "[] \<notin> set cs"
    "decoding (iw s) (concat (source s)) ?made" by (auto simp: delivers_def)
  have input: "io_input B s = Inr (Inr (length ?inp), ?s)" by (simp add: io_input_def src Let_def)
  have split: "concat (source s) = ?inp @ concat ?source" using src append_take_drop_id [of B c] by auto
  have nonempty: "?inp \<noteq> []" using s by simp
  then obtain n where n: "going (iw ?s) (?inp @ concat ?source) ?made n"
    using s(6) unfolding split by (auto simp: decoding_def split: if_splits)
  have buf: "length (tmp_in ?s) = B" "take (length ?inp) (drop 0 (tmp_in ?s)) = ?inp"
    using s(1) by (auto simp: put_at_def min_def)
  from loop_returns [OF n nonempty buf(1) _ buf(2)] obtain w new where
    loop: "fill_loop op B 0 (int (length ?inp)) ?s = Some (Inr (Inr (), ?s\<lparr>iw := w, tmp_buf := tmp_buf ?s @ new\<rparr>))"
    and d: "decoding w (concat ?source) (?made @ new)" by auto
  let ?s' = "?s\<lparr>iw := w, tmp_buf := [], ipos := 0, ibuf := new\<rparr>"
  have "fill_buffer op B s = Some (Inr (Inr (), ?s'))"
    using input loop s(3) by (simp add: fill_buffer_def take_contents_def)
  moreover have "delivers ?s' ?made" using d s buf(1) by (auto simp: delivers_def)
  moreover have "length (concat (source ?s')) < length (concat (source s))"
    using arg_cong [OF split, of length] nonempty by simp
  moreover have "length (hd (source s)) \<le> B \<longrightarrow> source ?s' = tl (source s)" by (simp add: src)
  ultimately show ?thesis by (intro exI [of _ ?s']) simp
qed

lemma delivers_prefix:
  "delivers s used \<Longrightarrow> \<exists>t. whole = used @ drop (ipos s) (ibuf s) @ t"
proof (induction "length (concat (source s))" arbitrary: s used rule: less_induct)
  case less
  show ?case
  proof (cases "source s = []")
    case True
    with less.prems show ?thesis by (auto simp: delivers_def decoding_def dest: complete)
  next
    case False
    from fill_ok [OF less.prems False] obtain s' where
      "delivers s' (used @ drop (ipos s) (ibuf s))" "length (concat (source s')) < length (concat (source s))" by blast
    from less.hyps [OF this(2,1)] show ?thesis by auto
  qed
qed

lemma delivers_next:
  assumes "delivers s used" "n \<le> length (ibuf s) - ipos s"
  shows "take n (drop (length used) whole) = take n (drop (ipos s) (ibuf s))"
    "delivers (s\<lparr>ipos := ipos s + n\<rparr>) (used @ take n (drop (length used) whole))"
proof -
  from delivers_prefix [OF assms(1)] obtain t where t: "whole = used @ drop (ipos s) (ibuf s) @ t" by blast
  with assms(2) show next_bytes: "take n (drop (length used) whole) = take n (drop (ipos s) (ibuf s))" by simp
  have "take n (drop (ipos s) (ibuf s)) @ drop (ipos s + n) (ibuf s) = drop (ipos s) (ibuf s)"
    by (simp add: add.commute flip: drop_drop)
  with assms show "delivers (s\<lparr>ipos := ipos s + n\<rparr>) (used @ take n (drop (length used) whole))"
    unfolding next_bytes by (auto simp: delivers_def)
qed

lemma input_ok:
  "delivers s used \<Longrightarrow> pos + len \<le> length str \<Longrightarrow> length used + len \<le> length whole \<Longrightarrow>
   \<exists>n s'. input_str op B str pos len s = Some (Inr (Inr (n, put_at pos (take n (drop (length used) whole)) str), s')) \<and>
     n \<le> len \<and> delivers s' (used @ take n (drop (length used) whole)) \<and>
     (n = len \<or> length (concat (source s')) < length (concat (source s)))"
proof (induction "length (concat (source s))" arbitrary: s used pos len str rule: less_induct)
  case less
  let ?u = "drop (ipos s) (ibuf s)"
  let ?b = "length (ibuf s) - ipos s"
  have ipos: "ipos s \<le> length (ibuf s)" using less.prems(1) by (simp add: delivers_def)
  show ?case
  proof (cases "len \<le> ?b")
    case True
    note next_bytes = delivers_next [OF less.prems(1) True]
    have "blit_out str pos len s = Inr (Inr (put_at pos (take len (drop (length used) whole)) str), s)"
      using True ipos less.prems(2) by (auto simp: blit_out_def next_bytes(1))
    then have "input_str op B str pos len s =
        Some (Inr (Inr (len, put_at pos (take len (drop (length used) whole)) str), s\<lparr>ipos := ipos s + len\<rparr>))"
      using True by (subst input_str.simps) simp
    with next_bytes(2) show ?thesis by blast
  next
    case False
    have "source s \<noteq> []"
    proof
      assume "source s = []"
      then have "whole = used @ ?u" using less.prems(1) by (auto simp: delivers_def decoding_def dest: complete)
      with arg_cong [OF this, of length] False less.prems(3) show False by simp
    qed
    from fill_ok [OF less.prems(1) this] obtain s1 where s1: "fill_buffer op B s = Some (Inr (Inr (), s1))"
      "delivers s1 (used @ ?u)" "ipos s1 = 0" "length (concat (source s1)) < length (concat (source s))" by blast
    from delivers_prefix [OF less.prems(1)] obtain t where t: "whole = used @ ?u @ t" by blast
    let ?str = "put_at pos ?u str"
    have blit: "blit_out str pos ?b s = Inr (Inr ?str, s)"
      using ipos False less.prems(2) by (simp add: blit_out_def)
    show ?thesis
    proof (cases "ipos s1 = length (ibuf s1)")
      case True
      have "input_str op B str pos len s = Some (Inr (Inr (?b, ?str), s1))"
        using False True s1(1) blit by (subst input_str.simps) (simp add: Let_def)
      moreover have "take ?b (drop (length used) whole) = ?u" using t by simp
      ultimately show ?thesis using s1 False by (intro exI [of _ ?b] exI [of _ s1]) simp
    next
      case rec: False
      have "pos + ?b + (len - ?b) \<le> length ?str" "length (used @ ?u) + (len - ?b) \<le> length whole"
        using less.prems(2,3) False by (simp_all add: put_at_def)
      from less.hyps [OF s1(4,2) this] obtain n s2 where
        s2: "input_str op B ?str (pos + ?b) (len - ?b) s1 =
          Some (Inr (Inr (n, put_at (pos + ?b) (take n (drop (length (used @ ?u)) whole)) ?str), s2))"
        and n: "n \<le> len - ?b" "delivers s2 ((used @ ?u) @ take n (drop (length (used @ ?u)) whole))"
          "n = len - ?b \<or> length (concat (source s2)) < length (concat (source s1))" by blast
      have bytes: "take (?b + n) (drop (length used) whole) = ?u @ take n (drop (length (used @ ?u)) whole)"
        using t by (simp add: take_add)
      have "put_at (pos + ?b) (take n (drop (length (used @ ?u)) whole)) ?str =
          put_at pos (take (?b + n) (drop (length used) whole)) str"
        unfolding bytes using less.prems(2,3) False by (intro put_at_put_at) simp_all
      then have "input_str op B str pos len s =
          Some (Inr (Inr (?b + n, put_at pos (take (?b + n) (drop (length used) whole)) str), s2))"
        using False rec s1(1) blit s2 by (subst input_str.simps) (simp add: Let_def)
      moreover have "delivers s2 (used @ take (?b + n) (drop (length used) whole))" using n(2) by (simp add: bytes)
      ultimately show ?thesis using n(1,3) s1(4) False by (intro exI [of _ "?b + n"] exI [of _ s2]) auto
    qed
  qed
qed

lemma read_fully_ok:
  "delivers s used \<Longrightarrow> length used + len \<le> length whole \<Longrightarrow> length (concat (source s)) < k \<Longrightarrow>
   (\<And>n. length (create n) = n) \<Longrightarrow>
   \<exists>s'. read_fully op B create k len s = Some (Inr (Inr (take len (drop (length used) whole)), s')) \<and>
     delivers s' (used @ take len (drop (length used) whole))"
proof (induction k arbitrary: s used len)
  case 0
  then show ?case by simp
next
  case (Suc k)
  from input_ok [OF Suc.prems(1), of 0 len "create len"] Suc.prems obtain n s1 where
    s1: "input_str op B (create len) 0 len s =
        Some (Inr (Inr (n, put_at 0 (take n (drop (length used) whole)) (create len)), s1))"
      "n \<le> len" "delivers s1 (used @ take n (drop (length used) whole))"
      "n = len \<or> length (concat (source s1)) < length (concat (source s))" by auto
  let ?got = "take n (drop (length used) whole)"
  have got: "length ?got = n" using Suc.prems(2) s1(2) by simp
  show ?case
  proof (cases "n = len")
    case True
    with s1 got Suc.prems(4) show ?thesis by (simp add: put_at_def)
  next
    case False
    with s1(4) Suc.prems(3) have "length (concat (source s1)) < k" by simp
    from Suc.IH [OF s1(3) _ this Suc.prems(4), of "len - n"] got Suc.prems(2) s1(2) obtain s2 where
      s2: "read_fully op B create k (len - n) s1 = Some (Inr (Inr (take (len - n) (drop (length (used @ ?got)) whole)), s2))"
        "delivers s2 ((used @ ?got) @ take (len - n) (drop (length (used @ ?got)) whole))" by auto
    have "take len (drop (length used) whole) = ?got @ take (len - n) (drop (length (used @ ?got)) whole)"
      using take_add [of n "len - n" "drop (length used) whole"] s1(2) got by (simp add: ac_simps)
    with s1 s2 got False show ?thesis by (simp add: put_at_def)
  qed
qed

text \<open>One answer holds all of the stream, and more than all of the text is asked for.\<close>

lemma input_past_end:
  assumes "delivers s []" "ibuf s = []" "ipos s = 0" "source s = [c]" "length c \<le> B" "whole \<noteq> []"
    "length whole < len" "pos + len \<le> length str"
  shows "\<exists>s'. input_str op B str pos len s = Some (Inr (Inl No_more_input, s')) \<and> ibuf s' = whole \<and> ipos s' = 0"
proof -
  from fill_ok [OF assms(1)] assms(2-5) obtain s1 where s1: "fill_buffer op B s = Some (Inr (Inr (), s1))"
    "delivers s1 []" "ipos s1 = 0" "source s1 = []" by auto
  then have whole: "ibuf s1 = whole" by (auto simp: delivers_def decoding_def dest: complete)
  have blit: "blit_out str pos 0 s = Inr (Inr str, s)" using assms(2,3,8) by (simp add: blit_out_def put_at_def)
  have "input_str op B str (pos + 0) (len - 0) s1 = Some (Inr (Inl No_more_input, s1))"
    using s1 whole assms(7,8) by (intro input_exhausted) simp_all
  then have "input_str op B str pos len s = Some (Inr (Inl No_more_input, s1))"
    using assms(2,3,6,7) s1 whole blit by (subst input_str.simps) (simp add: Let_def)
  with s1(3) whole show ?thesis by blast
qed

end

section \<open>What zlib promises to the channel\<close>

text \<open>
  As \<open>inflates\<close>, for a stream that comes in pieces: \<open>later\<close> is what the call does not see. A call that ends
  with \<open>Z_OK\<close> does not take the last byte of the stream.
\<close>

definition inflates_pieces ::
  "('d, 'i) zlib \<Rightarrow> ('i \<Rightarrow> string \<Rightarrow> string \<Rightarrow> bool) \<Rightarrow> ('i \<Rightarrow> nat) \<Rightarrow> (string \<Rightarrow> string option) \<Rightarrow> bool" where
  "inflates_pieces lib run todo decode \<longleftrightarrow> decode [] = None \<and>
     (case inflateInit2 lib 15 of (code, i) \<Rightarrow> code = Z_OK \<and> run i [] []) \<and>
     (\<forall>i given made inp later room code i' n out whole.
        run i given made \<and> decode (given @ inp @ later) = Some whole \<and> inp \<noteq> [] \<and> 0 < room \<and>
        inflate lib i Z_SYNC_FLUSH inp room = (code, i', n, out) \<longrightarrow>
        n \<le> length inp \<and> length out \<le> room \<and>
        (code = Z_OK \<and> drop n inp @ later \<noteq> [] \<and> run i' (given @ take n inp) (made @ out) \<and>
           (n = 0 \<longrightarrow> todo i' < todo i) \<or>
         code = Z_STREAM_END \<and> n = length inp \<and> later = [] \<and> made @ out = whole))"

lemma inflates_pieces_call:
  assumes "inflates_pieces lib run todo decode" "run i given made" "decode (given @ inp @ later) = Some whole"
    "inp \<noteq> []" "0 < room" "inflate lib i Z_SYNC_FLUSH inp room = (code, i', n, out)"
  shows "n \<le> length inp \<and> length out \<le> room \<and>
    (code = Z_OK \<and> drop n inp @ later \<noteq> [] \<and> run i' (given @ take n inp) (made @ out) \<and> (n = 0 \<longrightarrow> todo i' < todo i) \<or>
     code = Z_STREAM_END \<and> n = length inp \<and> later = [] \<and> made @ out = whole)"
  using assms(1) [unfolded inflates_pieces_def, THEN conjunct2, THEN conjunct2, rule_format,
      of i given made inp later whole room code i' n out] assms(2-) by simp

definition pulled where
  "pulled lib h B run todo decode whole w rest made n \<longleftrightarrow>
     inflates_pieces lib run todo decode \<and> rest \<noteq> [] \<and> 0 < B \<and>
     (\<exists>i given. holds_codec B h (Inflating i) w \<and> run i given made \<and> decode (given @ rest) = Some whole \<and> n = todo i)"

definition drained where
  "drained h B whole w made \<longleftrightarrow> made = whole \<and> (\<exists>i. holds_codec B h (Inflating i) w)"

lemma pulled_call:
  assumes "pulled lib h B run todo decode whole w (inp @ later) made n" "inp \<noteq> []" "length buf = B"
    "pos + length inp \<le> B" "take (length inp) (drop pos buf) = inp"
  shows "\<exists>r w'. zlib_inflate lib h buf (int pos) (int (length inp)) 0 (int B) (constructor_index SYNC_FLUSH) w
      = Inr (Inr r, w') \<and>
    0 \<le> z_read r \<and> z_read r \<le> int (length inp) \<and> 0 \<le> z_wrote r \<and> z_wrote r \<le> int (length (dst_buf w')) \<and>
    (if z_finish r
     then z_read r = int (length inp) \<and> later = [] \<and> drained h B whole w' (made @ take (nat (z_wrote r)) (dst_buf w'))
     else \<exists>n'. pulled lib h B run todo decode whole w' (drop (nat (z_read r)) inp @ later)
         (made @ take (nat (z_wrote r)) (dst_buf w')) n' \<and> (0 < z_read r \<or> n' < n))"
proof -
  from assms(1) obtain i given where c: "inflates_pieces lib run todo decode" "0 < B"
    "holds_codec B h (Inflating i) w" "run i given made" "decode (given @ inp @ later) = Some whole" "n = todo i"
    by (auto simp: pulled_def)
  obtain code i' m out where call': "inflate lib i Z_SYNC_FLUSH inp B = (code, i', m, out)" by (metis prod_cases4)
  then have call: "inflate lib i (constructor_index SYNC_FLUSH) (take (length inp) (drop pos buf)) B = (code, i', m, out)"
    using assms(5) by simp
  note law = inflates_pieces_call [OF c(1,4,5) assms(2) c(2) call']
  have fits: "m \<le> length inp" "length out \<le> B" "0 \<le> code" using law by auto
  let ?r = "\<lparr>z_finish = (code = Z_STREAM_END), z_read = int m, z_wrote = int (length out)\<rparr>"
  have "pos + length inp \<le> length buf" "length buf < 2 ^ 31" using assms(3,4) c(3) by (auto simp: holds_codec_def)
  from codec_inflate [where f = SYNC_FLUSH, OF c(3) this call fits] obtain w' where
    result: "zlib_inflate lib h buf (int pos) (int (length inp)) 0 (int B) (constructor_index SYNC_FLUSH) w = Inr (Inr ?r, w')"
    and after: "holds_codec B h (Inflating i') w'" "take (length out) (dst_buf w') = out" "length (dst_buf w') = B"
    by blast
  have end_case: "m = length inp \<and> later = [] \<and> drained h B whole w' (made @ out)" if "code = Z_STREAM_END"
    using law that after(1) by (auto simp: drained_def)
  have rest_case: "pulled lib h B run todo decode whole w' (drop m inp @ later) (made @ out) (todo i') \<and>
      (0 < m \<or> todo i' < n)" if "code \<noteq> Z_STREAM_END"
  proof -
    have "(given @ take m inp) @ drop m inp @ later = given @ inp @ later" by simp
    then have "decode ((given @ take m inp) @ drop m inp @ later) = Some whole" using c(5) by metis
    moreover have "drop m inp @ later \<noteq> []" "run i' (given @ take m inp) (made @ out)" "0 < m \<or> todo i' < n"
      using law that c(6) by auto
    ultimately show ?thesis using after(1) c(1,2) unfolding pulled_def by blast
  qed
  show ?thesis
    using law after(2,3) end_case rest_case
    by (intro exI [of _ ?r] exI [of _ w'] conjI result) (simp, simp, simp, simp, auto)
qed

interpretation zin: pulling "zlib_inflate lib h" B whole "pulled lib h B run todo decode whole" "drained h B whole"
  for lib h B whole run todo decode
proof (unfold_locales, goal_cases)
  case 1
  then show ?case by (simp add: pulled_def)
next
  case 2
  then show ?case by (simp add: drained_def)
next
  case 3
  then show ?case by (rule pulled_call)
qed

section \<open>The channel from its opening to its end\<close>

lemma input_zip_opens:
  assumes "inflates_pieces lib run todo decode" "decode (concat chunks) = Some whole" "[] \<notin> set chunks"
    "0 < B" "B < 2 ^ 31" "\<And>k. length (create k) = k"
  shows "\<exists>s w'. input_zip lib create B chunks w = Inr (Inr (next_handle w, s), w') \<and>
    zin.delivers B lib (next_handle w) run todo decode whole s [] \<and> ibuf s = [] \<and> ipos s = 0 \<and> source s = chunks"
proof -
  obtain i where init: "inflateInit2 lib 15 = (Z_OK, i)" "run i [] []" and "decode [] = None"
    using assms(1) by (auto simp: inflates_pieces_def)
  then have "concat chunks \<noteq> []" using assms(2) by (metis option.distinct(1))
  from holds_codec_new(2) [where b = "create B", OF init(1)] assms(5,6) obtain w1 where
    w1: "zlib_inflate_init lib False 15 w = Inr (Inr (next_handle w), w1)"
      "holds_codec B (next_handle w) (Inflating i) (w1\<lparr>dst_buf := create B\<rparr>)" by auto
  have "pulled lib (next_handle w) B run todo decode whole (w1\<lparr>dst_buf := create B\<rparr>) (concat chunks) [] (todo i)"
    unfolding pulled_def using assms(1,2,4) \<open>concat chunks \<noteq> []\<close> w1(2) init(2)
    by (intro conjI exI [of _ i] exI [of _ "[]"]) simp_all
  then have "zin.decoding lib (next_handle w) B run todo decode whole (w1\<lparr>dst_buf := create B\<rparr>) (concat chunks) []"
    by (rule zin.decoding_cases(1))
  with w1(1) assms(3,4,6) show ?thesis
    by (simp add: input_zip_def pbind_def Let_def zin.delivers_def)
qed

lemma close_in_ok:
  assumes "zin.delivers B lib h run todo decode whole s used"
  shows "\<exists>s'. close_in h s = Inr (Inr (), s')"
proof -
  from assms obtain i where "holds_codec B h (Inflating i) (iw s)"
    by (auto simp: zin.delivers_def zin.decoding_def pulled_def drained_def split: if_splits)
  from holds_codec_end(2) [OF this] show ?thesis by (auto simp: close_in_def)
qed

lemma input_zip_stream:
  assumes "inflates_pieces lib run todo decode" "decode (concat chunks) = Some whole" "[] \<notin> set chunks"
    "0 < B" "B < 2 ^ 31" "\<And>k. length (create k) = k"
  shows "\<exists>h s w1 s1 s2. input_zip lib create B chunks w = Inr (Inr (h, s), w1) \<and>
    read_fully (zlib_inflate lib h) B create (length (concat chunks) + 1) (length whole) s = Some (Inr (Inr whole, s1)) \<and>
    close_in h s1 = Inr (Inr (), s2)"
proof -
  from input_zip_opens [OF assms] obtain s w1 where s:
    "input_zip lib create B chunks w = Inr (Inr (next_handle w, s), w1)"
    "zin.delivers B lib (next_handle w) run todo decode whole s []" "source s = chunks" by blast
  from zin.read_fully_ok [where create = create, OF s(2), of "length whole" "length (concat chunks) + 1"] s(3) assms(6)
  obtain s1 where s1: "read_fully (zlib_inflate lib (next_handle w)) B create (length (concat chunks) + 1) (length whole) s =
      Some (Inr (Inr whole, s1))" "zin.delivers B lib (next_handle w) run todo decode whole s1 whole"
    by auto
  with s close_in_ok [OF s1(2)] show ?thesis by blast
qed


lemma ex_inflates_pieces:
  "inflates_pieces ex_zlib (\<lambda>x given made. given = ex_body made @ (if x then ''x'' else [])) (\<lambda>_. 0) ex_decode"
  by (auto simp: inflates_pieces_def ex_zlib_def ex_decode_body ex_decode_other split: if_splits list.splits)


section \<open>The end of the text\<close>



text \<open>A byte is read behind the buffer when the input so far gives no output, as the header of a stream does.\<close>

lemma read_after_silent_fill:
  assumes "op (put_at 0 c (tmp_in s)) 0 (int (length c)) 0 (int B) (constructor_index SYNC_FLUSH) (iw s) =
      Inr (Inr r, w)" "z_read r = int (length c)" "z_wrote r = 0"
    and "source s = c # cs" "c \<noteq> []" "length c \<le> B" "tmp_buf s = []" "ipos s = length (ibuf s)"
  shows "read_zip op B s = Some (Inl (Undef ''unsafe_get''))"
proof -
  let ?s = "s\<lparr>tmp_in := put_at 0 c (tmp_in s), source := cs\<rparr>"
  have input: "io_input B s = Inr (Inr (length c), ?s)" using assms(4,6) by (simp add: io_input_def)
  have "fill_loop op B (int (length c)) 0 t = Some (Inr (Inr (), t))" for t :: "('a, 'b) ichan"
    using assms(5) by (subst fill_loop.simps) simp
  then have "fill_loop op B 0 (int (length c)) ?s = Some (Inr (Inr (), ?s\<lparr>iw := w\<rparr>))"
    using assms(1-3,5,7) by (subst fill_loop.simps) simp
  with input have "fill_buffer op B s = Some (Inr (Inr (), ?s\<lparr>iw := w, ipos := 0, ibuf := []\<rparr>))"
    using assms(7) by (simp add: fill_buffer_def take_contents_def)
  with assms(8) show ?thesis by (simp add: read_zip_def get_byte_def)
qed

lemma read_after_silent_fill_example:
  "read_zip (\<lambda>_ _ _ _ _ _ w. ret \<lparr>z_finish = False, z_read = 1, z_wrote = 0\<rparr> w) 2
     \<lparr>iw = ex_zworld, tmp_in = ''??'', tmp_buf = [], ibuf = [], ipos = 0, source = [''x'']\<rparr> =
   Some (Inl (Undef ''unsafe_get''))"
  by (rule read_after_silent_fill [where c = "''x''" and r = "\<lparr>z_finish = False, z_read = 1, z_wrote = 0\<rparr>"])
    simp_all

section \<open>Bytes behind the stream\<close>

text \<open>\<open>over i\<close>: the stream has ended, and every further call says so again.\<close>

definition stays_ended :: "('d, 'i) zlib \<Rightarrow> ('i \<Rightarrow> bool) \<Rightarrow> bool" where
  "stays_ended lib over \<longleftrightarrow>
     (\<forall>i flush inp room. over i \<longrightarrow>
        (case inflate lib i flush inp room of (code, i', n, out) \<Rightarrow> code = Z_STREAM_END \<and> over i' \<and> n = 0 \<and> out = []))"

lemma stays_endedD:
  assumes "stays_ended lib over" "over i" "inflate lib i flush inp room = (code, i', n, out)"
  shows "code = Z_STREAM_END \<and> over i' \<and> n = 0 \<and> out = []"
  using assms(1) [unfolded stays_ended_def, rule_format, of i flush inp room] assms(2,3) by simp

definition at_end_of :: "nat \<Rightarrow> nat \<Rightarrow> ('i \<Rightarrow> bool) \<Rightarrow> nat \<Rightarrow> nat \<Rightarrow> ('d, 'i) ichan \<Rightarrow> bool" where
  "at_end_of h B over pos k s \<longleftrightarrow>
     0 < k \<and> pos + k \<le> length (tmp_in s) \<and> length (tmp_in s) < 2 ^ 31 \<and> (\<exists>i. holds_codec B h (Inflating i) (iw s) \<and> over i)"

lemma ended_call:
  assumes "stays_ended lib over" "at_end_of h B over pos k s"
  shows "\<exists>w. zlib_inflate lib h (tmp_in s) (int pos) (int k) 0 (int B) (constructor_index SYNC_FLUSH) (iw s) =
      Inr (Inr \<lparr>z_finish = True, z_read = 0, z_wrote = 0\<rparr>, w) \<and> at_end_of h B over pos k (s\<lparr>iw := w\<rparr>)"
proof -
  from assms(2) obtain i where s: "0 < k" "pos + k \<le> length (tmp_in s)" "length (tmp_in s) < 2 ^ 31"
    "holds_codec B h (Inflating i) (iw s)" "over i" by (auto simp: at_end_of_def)
  obtain code i' n out where call: "inflate lib i (constructor_index SYNC_FLUSH) (take k (drop pos (tmp_in s))) B =
      (code, i', n, out)" by (metis prod_cases4)
  note answer = stays_endedD [OF assms(1) s(5) call]
  then have "n \<le> k" "length out \<le> B" "0 \<le> code" by auto
  from codec_inflate [where f = SYNC_FLUSH, OF s(4,2,3) call this] answer s show ?thesis
    by (auto simp: at_end_of_def)
qed

lemma ended_loop:
  assumes "stays_ended lib over" "at_end_of h B over pos k s"
  shows "fill_loop (zlib_inflate lib h) B (int pos) (int k) s = None"
proof -
  have "False" if "fill_loop op B' p len s = Some r" "op = zlib_inflate lib h" "B' = B" "p = int pos" "len = int k"
    "at_end_of h B over pos k s" for op B' p len s r
    using that
  proof (induction rule: fill_loop.raw_induct [rotated, consumes 1, case_names step])
    case (step loop op B' p len s r)
    have k: "0 < k" using step.prems(5) by (simp add: at_end_of_def)
    from ended_call [OF assms(1) step.prems(5)] obtain w where
      call: "op (tmp_in s) p len 0 (int B') (constructor_index SYNC_FLUSH) (iw s) =
        Inr (Inr \<lparr>z_finish = True, z_read = 0, z_wrote = 0\<rparr>, w)" and s: "at_end_of h B over pos k (s\<lparr>iw := w\<rparr>)"
      using step.prems by auto
    then have "loop op B' p len (s\<lparr>iw := w\<rparr>) = Some r"
      using step.hyps k step.prems(4) by simp
    from step.IH [OF this step.prems(1-4) s] show False .
  qed
  with assms(2) show ?thesis by fastforce
qed

text \<open>C23: when bytes follow the end of a compressed stream, reading from the channel never returns: the loop
  that feeds zlib does not look at \<open>z_finish\<close> and offers the rest for ever.\<close>

theorem trailing_bytes_hang:
  assumes "inflateInit2 lib 15 = (Z_OK, i)"
    and "inflate lib i Z_SYNC_FLUSH (c @ junk) B = (Z_STREAM_END, i', length c, out)" "length out \<le> B" "over i'"
    and "stays_ended lib over"
    and "c \<noteq> []" "junk \<noteq> []" "length (c @ junk) \<le> B" "B < 2 ^ 31" "\<And>k. length (create k) = k"
    and "0 < len" "pos + len \<le> length str"
  shows "\<exists>h s w1. input_zip lib create B ((c @ junk) # chunks) w = Inr (Inr (h, s), w1) \<and>
    input_str (zlib_inflate lib h) B str pos len s = None \<and> read_zip (zlib_inflate lib h) B s = None"
proof -
  let ?h = "next_handle w"
  from holds_codec_new(2) [where b = "create B", OF assms(1)] assms(9,10) obtain w1 where
    w1: "zlib_inflate_init lib False 15 w = Inr (Inr ?h, w1)"
      "holds_codec B ?h (Inflating i) (w1\<lparr>dst_buf := create B\<rparr>)" by auto
  let ?w = "w1\<lparr>dst_buf := create B\<rparr>"
  let ?s = "\<lparr>iw = ?w, tmp_in = create B, tmp_buf = [], ibuf = [], ipos = 0, source = (c @ junk) # chunks\<rparr>"
  let ?t = "?s\<lparr>tmp_in := put_at 0 (c @ junk) (create B), source := chunks\<rparr>"
  have input: "io_input B ?s = Inr (Inr (length (c @ junk)), ?t)" using assms(8) by (simp add: io_input_def)
  have buf: "length (tmp_in ?t) = B" "take (length (c @ junk)) (drop 0 (tmp_in ?t)) = c @ junk"
    using assms(8,10) by (auto simp: put_at_def)
  have inside: "0 + length (c @ junk) \<le> length (tmp_in ?t)" "length (tmp_in ?t) < 2 ^ 31"
    unfolding buf using assms(8,9) by simp_all
  from codec_inflate [where f = SYNC_FLUSH, OF w1(2) inside, of lib Z_STREAM_END i' "length c" out] assms(2,3) buf(2)
  obtain w2 where
    call: "zlib_inflate lib ?h (tmp_in ?t) 0 (int (length (c @ junk))) 0 (int B) (constructor_index SYNC_FLUSH) ?w =
      Inr (Inr \<lparr>z_finish = True, z_read = int (length c), z_wrote = int (length out)\<rparr>, w2)"
    and after: "holds_codec B ?h (Inflating i') w2" "length (dst_buf w2) = B" by auto
  let ?u = "?t\<lparr>iw := w2, tmp_buf := take (length out) (dst_buf w2)\<rparr>"
  have "at_end_of ?h B over (length c) (length junk) ?u"
    using after(1) assms(4,7-9) buf(1) by (auto simp: at_end_of_def)
  from ended_loop [OF assms(5) this]
  have "fill_loop (zlib_inflate lib ?h) B 0 (int (length (c @ junk))) ?t = None"
    using call after(2) assms(3) length_greater_0_conv [of c] assms(6)
    by (subst fill_loop.simps) (simp del: length_greater_0_conv)
  with input have fill: "fill_buffer (zlib_inflate lib ?h) B ?s = None" by (simp add: fill_buffer_def)
  have blit: "blit_out str pos 0 ?s = Inr (Inr (put_at pos [] str), ?s)" using assms(12) by (simp add: blit_out_def)
  have "input_str (zlib_inflate lib ?h) B str pos len ?s = None"
    using fill blit assms(11) by (subst input_str.simps) simp
  moreover have "read_zip (zlib_inflate lib ?h) B ?s = None" using fill by (simp add: read_zip_def)
  moreover have "input_zip lib create B ((c @ junk) # chunks) w = Inr (Inr (?h, ?s), ?w)"
    using w1(1) by (simp add: input_zip_def pbind_def Let_def)
  ultimately show ?thesis by blast
qed

text \<open>A zlib whose streams are the text and a dot.\<close>

definition ex_plain :: "(string, bool) zlib" where
  "ex_plain = ex_zlib\<lparr>inflate := \<lambda>over flush inp room.
     if over then (Z_STREAM_END, True, 0, [])
     else if CHR ''.'' \<in> set inp
     then let c = takeWhile (\<lambda>x. x \<noteq> CHR ''.'') inp in (Z_STREAM_END, True, length c + 1, c)
     else (Z_OK, False, length inp, inp)\<rparr>"

theorem trailing_bytes_hang_witness:
  "\<exists>h s w1. input_zip ex_plain (\<lambda>k. replicate k CHR ''?'') 9 ((''haxe.'' @ ''!'') # []) ex_zworld = Inr (Inr (h, s), w1) \<and>
    input_str (zlib_inflate ex_plain h) 9 ''....'' 0 4 s = None \<and> read_zip (zlib_inflate ex_plain h) 9 s = None"
  by (rule trailing_bytes_hang [where i = False and i' = True and out = "''haxe''" and over = "\<lambda>i. i"])
    (simp_all add: ex_plain_def ex_zlib_def stays_ended_def)

end
