(* ===== verification/MbedCert.thy ===== *)
theory MbedCert imports Prelude "HOL-Library.Multiset" begin

text \<open>
  libs/mbedtls/mbedtls_stubs.c, certificates: the names and dates of a certificate, the default
  certificates of the system, the check of a certificate by Windows and the tables of constants.
  mbedtls and the system libraries are parameters.
\<close>

section \<open>Certificates\<close>

text \<open>
  mbedtls keeps a sequence as a first element inside of the certificate and the rest behind pointers.
\<close>

datatype 'a node = Node (item: 'a) (following: "'a node option")

type_synonym asn1_buf = string

record x509_name =
  oid :: asn1_buf
  val :: asn1_buf

record x509_time =
  t_year :: int
  t_mon :: int
  t_day :: int
  t_hour :: int
  t_min :: int
  t_sec :: int

record x509_crt =
  has_alt_names :: bool
  subject_alt_names :: "asn1_buf node"
  subject :: "x509_name node"
  issuer :: "x509_name node"
  valid_from :: x509_time
  valid_to :: x509_time

fun items :: "'a node option \<Rightarrow> 'a list" where
  "items None = []"
| "items (Some (Node x n)) = x # items n"

section \<open>Alternative names\<close>

fun count_nodes :: "'a node option \<Rightarrow> nat \<Rightarrow> nat" where
  "count_nodes None i = i"
| "count_nodes (Some (Node x n)) i = count_nodes n (i + 1)"

text \<open>\<open>Store_field\<close> at an index of the block.\<close>

definition store_field :: "'a list \<Rightarrow> nat \<Rightarrow> 'a \<Rightarrow> c_fault + 'a list" where
  "store_field obj i x = (if i < length obj then Inr (obj[i := x]) else Inl (Undef ''Store_field''))"

fun store_names :: "asn1_buf node option \<Rightarrow> nat \<Rightarrow> string list \<Rightarrow> c_fault + string list" where
  "store_names None i obj = Inr obj"
| "store_names (Some (Node buf n)) i obj = rbind (store_field obj i buf) (store_names n (i + 1))"

definition hx_cert_get_alt_names :: "x509_crt \<Rightarrow> c_fault + string list" where
  "hx_cert_get_alt_names cert =
     (if \<not> has_alt_names cert then Inr []
      else let cur = Some (subject_alt_names cert)
           in store_names cur 0 (replicate (count_nodes cur 0) []))"

lemma count_nodes_items: "count_nodes n i = i + length (items n)"
  by (induction n i rule: count_nodes.induct) auto

lemma store_names_items:
  "length obj = i + length (items n) \<Longrightarrow> store_names n i obj = Inr (take i obj @ items n)"
proof (induction n i obj rule: store_names.induct)
  case (1 i obj)
  then show ?case by simp
next
  case (2 buf n i obj)
  then have "store_names n (i + 1) (obj[i := buf]) = Inr (take (i + 1) (obj[i := buf]) @ items n)"
    by (intro "2.IH") (auto simp: store_field_def)
  moreover have "take (i + 1) (obj[i := buf]) = take i obj @ [buf]"
    using "2.prems" by (simp add: take_Suc_conv_app_nth)
  ultimately show ?case using "2.prems" by (simp add: store_field_def)
qed

section \<open>Subject and issuer\<close>

text \<open>
  \<open>short_name\<close> is \<open>mbedtls_oid_get_attr_short_name\<close>; \<open>strcmp\<close> sees an OCaml string up to its first zero.
\<close>

abbreviation NUL :: char where "NUL \<equiv> CHR 0x00"

definition c_str :: "string \<Rightarrow> string" where
  "c_str s = takeWhile (\<lambda>c. c \<noteq> NUL) s"

fun find_attr :: "(asn1_buf \<Rightarrow> string option) \<Rightarrow> string \<Rightarrow> x509_name node option \<Rightarrow> string option" where
  "find_attr short_name rname None = None"
| "find_attr short_name rname (Some (Node x n)) =
     (case short_name (oid x) of
        Some oname \<Rightarrow> if oname = rname then Some (val x) else find_attr short_name rname n
      | None \<Rightarrow> find_attr short_name rname n)"

definition hx_cert_get_subject :: "(asn1_buf \<Rightarrow> string option) \<Rightarrow> x509_crt \<Rightarrow> string \<Rightarrow> string option" where
  "hx_cert_get_subject short_name cert objname = find_attr short_name (c_str objname) (Some (subject cert))"

definition hx_cert_get_issuer :: "(asn1_buf \<Rightarrow> string option) \<Rightarrow> x509_crt \<Rightarrow> string \<Rightarrow> string option" where
  "hx_cert_get_issuer short_name cert objname = find_attr short_name (c_str objname) (Some (issuer cert))"

lemma find_attr_find:
  "find_attr short_name rname n = map_option val (find (\<lambda>x. short_name (oid x) = Some rname) (items n))"
  by (induction short_name rname n rule: find_attr.induct) (auto split: option.split)

text \<open>The alternative names come back completely and in order, without a write outside of the new
  block, and none when the certificate has no such extension; the subject and the issuer are searched
  for the first attribute of the requested short name.\<close>

lemma certificate_names_correct:
  "hx_cert_get_alt_names cert = Inr (if has_alt_names cert then items (Some (subject_alt_names cert)) else [])
   \<and> hx_cert_get_subject short_name cert name =
       map_option val (find (\<lambda>x. short_name (oid x) = Some (c_str name)) (items (Some (subject cert))))
   \<and> hx_cert_get_issuer short_name cert name =
       map_option val (find (\<lambda>x. short_name (oid x) = Some (c_str name)) (items (Some (issuer cert))))"
  by (simp add: hx_cert_get_alt_names_def hx_cert_get_subject_def hx_cert_get_issuer_def find_attr_find
      store_names_items count_nodes_items)

section \<open>Dates\<close>

text \<open>\<open>struct tm\<close>; what \<open>time_to_time_t\<close> does not set is as the stack left it.\<close>

record tm =
  tm_year :: int
  tm_mon :: int
  tm_mday :: int
  tm_hour :: int
  tm_min :: int
  tm_sec :: int
  tm_isdst :: int

definition time_to_time_t :: "(tm \<Rightarrow> int) \<Rightarrow> tm \<Rightarrow> x509_time \<Rightarrow> int" where
  "time_to_time_t mktime info t =
     mktime (info\<lparr>tm_year := t_year t - 1900, tm_mon := t_mon t - 1, tm_mday := t_day t,
                  tm_hour := t_hour t, tm_min := t_min t, tm_sec := t_sec t\<rparr>)"

definition hx_cert_get_notafter :: "(tm \<Rightarrow> int) \<Rightarrow> tm \<Rightarrow> x509_crt \<Rightarrow> int" where
  "hx_cert_get_notafter mktime info cert = time_to_time_t mktime info (valid_to cert)"

definition hx_cert_get_notbefore :: "(tm \<Rightarrow> int) \<Rightarrow> tm \<Rightarrow> x509_crt \<Rightarrow> int" where
  "hx_cert_get_notbefore mktime info cert = time_to_time_t mktime info (valid_from cert)"

text \<open>
  \<open>mktime\<close> takes its argument for local time and corrects it for daylight saving time when \<open>tm_isdst\<close>
  says so; the dates of a certificate are UTC. The result is off by the zone and depends on the stack.
\<close>

lemma certificate_dates_off:
  assumes "\<And>t. mktime t = utc (t\<lparr>tm_isdst := 0\<rparr>) - zone - (if 0 < tm_isdst t then 3600 else 0)"
  shows "hx_cert_get_notafter mktime info cert =
      hx_cert_get_notafter utc (info\<lparr>tm_isdst := 0\<rparr>) cert - zone - (if 0 < tm_isdst info then 3600 else 0)"
  using assms by (cases info) (simp add: hx_cert_get_notafter_def time_to_time_t_def)

section \<open>Default certificates\<close>

datatype sys_resource = Cert_store | Cert_context | Chain_context | Anchor_array

text \<open>
  \<open>load_certs\<close>: the loop over DER encoded certificates, where \<open>parse_der\<close> adds one to the chain or says
  why not. The first part of the result tells whether the loop was left by \<open>CAMLreturn\<close>.
\<close>

fun load_certs :: "('c \<Rightarrow> string \<Rightarrow> int \<times> 'c) \<Rightarrow> string list \<Rightarrow> int \<Rightarrow> 'c \<Rightarrow> bool \<times> int \<times> 'c" where
  "load_certs parse_der [] r chain = (False, r, chain)"
| "load_certs parse_der (der # ders) r chain =
     (let (r, chain) = parse_der chain der
      in if r \<noteq> 0 then (True, r, chain) else load_certs parse_der ders r chain)"

text \<open>
  The result, the chain and what is still held on return. On Windows the enumeration holds the store
  and the current certificate; on macOS a certificate without data is skipped.
\<close>

definition load_defaults_windows ::
  "('c \<Rightarrow> string \<Rightarrow> int \<times> 'c) \<Rightarrow> string list option \<Rightarrow> 'c \<Rightarrow> int \<times> 'c \<times> sys_resource multiset" where
  "load_defaults_windows parse_der store chain =
     (case store of
        None \<Rightarrow> (1, chain, {#})
      | Some ders \<Rightarrow>
          let (early, r, chain) = load_certs parse_der ders 1 chain
          in (r, chain, if early then {#Cert_store, Cert_context#} else {#}))"

definition load_defaults_mac ::
  "('c \<Rightarrow> string \<Rightarrow> int \<times> 'c) \<Rightarrow> string option list option \<Rightarrow> 'c \<Rightarrow> int \<times> 'c \<times> sys_resource multiset" where
  "load_defaults_mac parse_der anchors chain =
     (case anchors of
        None \<Rightarrow> (1, chain, {#})
      | Some certs \<Rightarrow>
          let (early, r, chain) = load_certs parse_der (map the (filter (\<lambda>d. d \<noteq> None) certs)) 1 chain
          in (r, chain, if early then {#Anchor_array#} else {#}))"

definition load_defaults_other :: "'c \<Rightarrow> int \<times> 'c \<times> sys_resource multiset" where
  "load_defaults_other chain = (1, chain, {#})"

text \<open>The chain with some certificates added.\<close>

definition added :: "('c \<Rightarrow> string \<Rightarrow> int \<times> 'c) \<Rightarrow> string list \<Rightarrow> 'c \<Rightarrow> 'c" where
  "added parse_der ders chain = foldl (\<lambda>c der. snd (parse_der c der)) chain ders"

lemma load_certs_all:
  "load_certs parse_der ders r chain = (False, r', chain') \<Longrightarrow>
   chain' = added parse_der ders chain \<and> r' = (if ders = [] then r else 0)"
  by (induction parse_der ders r chain rule: load_certs.induct)
    (auto simp: added_def split: prod.splits if_splits)

lemma load_certs_early:
  "load_certs parse_der ders r chain = (True, r', chain') \<Longrightarrow>
   \<exists>good bad rest. ders = good @ bad # rest \<and> parse_der (added parse_der good chain) bad = (r', chain') \<and> r' \<noteq> 0"
proof (induction parse_der ders r chain rule: load_certs.induct)
  case (1 parse_der r chain)
  then show ?case by simp
next
  case (2 parse_der der ders r chain)
  obtain c chain1 where p: "parse_der chain der = (c, chain1)" by fastforce
  show ?case
  proof (cases "c = 0")
    case False
    with p "2.prems" have "parse_der (added parse_der [] chain) der = (r', chain') \<and> r' \<noteq> 0"
      by (auto simp: added_def)
    then show ?thesis by blast
  next
    case True
    with p "2.prems" "2.IH" [OF p [symmetric] refl] obtain good bad rest where
      "ders = good @ bad # rest" "parse_der (added parse_der good chain1) bad = (r', chain')" "r' \<noteq> 0" by auto
    with p have "der # ders = (der # good) @ bad # rest \<and>
        parse_der (added parse_der (der # good) chain) bad = (r', chain') \<and> r' \<noteq> 0" by (simp add: added_def)
    then show ?thesis by blast
  qed
qed

text \<open>The default certificates of Windows are loaded in order; the result is 0 exactly when there
  are some and each is accepted, and then nothing is held. At the first that is rejected loading stops:
  those behind it are missing, and the store and the certificate context are never released.\<close>

lemma load_defaults_windows_correct:
  "case load_defaults_windows parse_der (Some ders) chain of (r, chain', held) \<Rightarrow>
     (r = 0 \<and> ders \<noteq> [] \<and> chain' = added parse_der ders chain \<and> held = {#}) \<or>
     (r = 1 \<and> ders = [] \<and> chain' = chain \<and> held = {#}) \<or>
     (r \<noteq> 0 \<and> held = {#Cert_store, Cert_context#} \<and>
      (\<exists>good bad rest. ders = good @ bad # rest \<and> parse_der (added parse_der good chain) bad = (r, chain')))"
proof -
  obtain early r chain' where l: "load_certs parse_der ders 1 chain = (early, r, chain')" by (metis prod_cases3)
  show ?thesis
  proof (cases early)
    case True
    with l load_certs_early [of parse_der ders 1 chain r chain'] show ?thesis
      by (auto simp: load_defaults_windows_def)
  next
    case False
    with l load_certs_all [of parse_der ders 1 chain r chain'] show ?thesis
      by (auto simp: load_defaults_windows_def added_def split: if_splits)
  qed
qed

section \<open>The check by Windows\<close>

text \<open>\<open>policy\<close> is None when \<open>CertVerifyCertificateChainPolicy\<close> itself fails.\<close>

record windows =
  open_store :: bool
  add_certificate :: "string \<Rightarrow> bool"
  get_chain :: bool
  policy :: "int option"

record vstate =
  holding :: "sys_resource multiset"
  flags :: "32 word"

abbreviation BADCERT_CN_MISMATCH :: "32 word" where "BADCERT_CN_MISMATCH \<equiv> 0x04"
abbreviation BADCERT_OTHER :: "32 word" where "BADCERT_OTHER \<equiv> 0x0100"
abbreviation X509_FATAL_ERROR :: int where "X509_FATAL_ERROR \<equiv> -0x3000"

definition win_acquire :: "sys_resource \<Rightarrow> (vstate, unit, unit) prim" where
  "win_acquire r s = ret () (s\<lparr>holding := holding s + {#r#}\<rparr>)"

definition win_release :: "sys_resource \<Rightarrow> (vstate, unit, unit) prim" where
  "win_release r s =
     (if r \<in># holding s then ret () (s\<lparr>holding := holding s - {#r#}\<rparr>) else faulty (Undef ''released twice'') s)"

definition verify_callback :: "windows \<Rightarrow> string \<Rightarrow> (vstate, unit, int) prim" where
  "verify_callback win raw s =
     (if flags s = 0 \<or> flags s AND BADCERT_CN_MISMATCH \<noteq> 0 then ret 0 s
      else if \<not> open_store win then ret X509_FATAL_ERROR s
      else pbind (win_acquire Cert_store) (\<lambda>_.
        if \<not> add_certificate win raw
        then pbind (win_release Cert_store) (\<lambda>_. ret X509_FATAL_ERROR)
        else pbind (win_acquire Cert_context) (\<lambda>_.
        if \<not> get_chain win
        then pbind (win_release Cert_context) (\<lambda>_.
             pbind (win_release Cert_store) (\<lambda>_. ret X509_FATAL_ERROR))
        else pbind (win_acquire Chain_context) (\<lambda>_.
        case policy win of
          None \<Rightarrow> pbind (win_release Chain_context) (\<lambda>_.
                  pbind (win_release Cert_context) (\<lambda>_.
                  pbind (win_release Cert_store) (\<lambda>_. ret X509_FATAL_ERROR)))
        | Some err \<Rightarrow>
            pbind (\<lambda>s. ret () (s\<lparr>flags := if err = 0 then 0 else flags s OR BADCERT_OTHER\<rparr>)) (\<lambda>_.
            pbind (win_release Chain_context) (\<lambda>_.
            pbind (win_release Cert_context) (\<lambda>_.
            pbind (win_release Cert_store) (\<lambda>_. ret 0))))))) s)"

lemma or_nonzero: "(f::32 word) OR BADCERT_OTHER \<noteq> 0"
proof
  assume "f OR BADCERT_OTHER = 0"
  then have "bit (f OR BADCERT_OTHER) 8 = bit (0::32 word) 8" by simp
  then show False by (simp add: bit_or_iff bit_numeral_rec)
qed

text \<open>C26: the callback returns, releases what it acquired exactly once on every path, and takes the
  flags away exactly when there was no wrong host name and Windows could check the certificate and
  accepted it. A wrong host name is kept, and when Windows cannot check the handshake is stopped with
  the flags as they were.\<close>

theorem verify_callback_correct:
  "\<exists>code f. verify_callback win raw \<lparr>holding = held, flags = flags0\<rparr> = Inr (Inr code, \<lparr>holding = held, flags = f\<rparr>) \<and>
     (f = 0 \<longleftrightarrow> flags0 = 0 \<or>
        flags0 AND BADCERT_CN_MISMATCH = 0 \<and> open_store win \<and> add_certificate win raw \<and> get_chain win \<and> policy win = Some 0) \<and>
     (flags0 AND BADCERT_CN_MISMATCH \<noteq> 0 \<longrightarrow> code = 0 \<and> f = flags0) \<and>
     (code \<noteq> 0 \<longrightarrow> code = X509_FATAL_ERROR \<and> f = flags0 \<and> f \<noteq> 0)"
proof (cases "flags0 = 0 \<or> flags0 AND BADCERT_CN_MISMATCH \<noteq> 0")
  case True
  then show ?thesis by (auto simp: verify_callback_def)
next
  case False
  then show ?thesis
    by (cases "open_store win"; cases "add_certificate win raw"; cases "get_chain win"; cases "policy win")
      (auto simp: verify_callback_def win_acquire_def win_release_def or_nonzero)
qed

theorem verify_callback_correct_witness:
  "\<exists>code f. verify_callback \<lparr>open_store = True, add_certificate = (\<lambda>raw. raw \<noteq> []), get_chain = True, policy = Some 0\<rparr> ''der''
      \<lparr>holding = {#}, flags = 8\<rparr> = Inr (Inr code, \<lparr>holding = {#}, flags = f\<rparr>) \<and> f = 0"
  using verify_callback_correct [of "\<lparr>open_store = True, add_certificate = (\<lambda>raw. raw \<noteq> []), get_chain = True, policy = Some 0\<rparr>"
      "''der''" "{#}" 8] by auto

section \<open>Tables of constants\<close>

fun build_fields :: "nat \<Rightarrow> string list \<Rightarrow> int list \<Rightarrow> c_fault + (string \<times> int) list" where
  "build_fields 0 names vals = Inr []"
| "build_fields (Suc k) (name # names) (v # vals) =
     rbind (build_fields k names vals) (\<lambda>fields. Inr ((name, v) # fields))"
| "build_fields (Suc k) names vals = Inl (Undef ''array'')"

record ssl_constants =
  VERIFY_NONE :: int
  VERIFY_OPTIONAL :: int
  VERIFY_REQUIRED :: int
  IS_CLIENT :: int
  IS_SERVER :: int
  PRESET_DEFAULT :: int
  PRESET_SUITEB :: int
  TRANSPORT_STREAM :: int
  TRANSPORT_DATAGRAM :: int

definition hx_get_ssl_authmode_flags :: "ssl_constants \<Rightarrow> c_fault + (string \<times> int) list" where
  "hx_get_ssl_authmode_flags c =
     build_fields 3 [''SSL_VERIFY_NONE'', ''SSL_VERIFY_OPTIONAL'', ''SSL_VERIFY_REQUIRED'']
       [VERIFY_NONE c, VERIFY_OPTIONAL c, VERIFY_REQUIRED c]"

definition hx_get_ssl_endpoint_flags :: "ssl_constants \<Rightarrow> c_fault + (string \<times> int) list" where
  "hx_get_ssl_endpoint_flags c = build_fields 2 [''SSL_IS_CLIENT'', ''SSL_IS_SERVER''] [IS_CLIENT c, IS_SERVER c]"

definition hx_get_ssl_preset_flags :: "ssl_constants \<Rightarrow> c_fault + (string \<times> int) list" where
  "hx_get_ssl_preset_flags c =
     build_fields 2 [''SSL_PRESET_DEFAULT'', ''SSL_PRESET_SUITEB''] [PRESET_DEFAULT c, PRESET_SUITEB c]"

definition hx_get_ssl_transport_flags :: "ssl_constants \<Rightarrow> c_fault + (string \<times> int) list" where
  "hx_get_ssl_transport_flags c =
     build_fields 2 [''SSL_TRANSPORT_STREAM'', ''SSL_TRANSPORT_DATAGRAM''] [TRANSPORT_STREAM c, TRANSPORT_DATAGRAM c]"

lemma build_fields_zip:
  "length names = k \<Longrightarrow> length vals = k \<Longrightarrow> build_fields k names vals = Inr (zip names vals)"
  by (induction k names vals rule: build_fields.induct) auto

end
