(* ===== verification/MbedState.thy ===== *)
theory MbedState imports Prelude begin

text \<open>
  libs/mbedtls/mbedtls_stubs.c, contexts: the C structures behind the custom blocks, how they are
  made, linked to each other and finalised, and the chains of certificates.
\<close>

section \<open>State\<close>

datatype kind = Ctr_drbg | Entropy | X509_crt | Ssl_config | Pk_context | Ssl_context

text \<open>
  A context from malloc: \<open>ready\<close> between its \<open>mbedtls_..._init\<close> and its \<open>mbedtls_..._free\<close>; \<open>links\<close> are the
  pointers to other contexts that mbedtls keeps in it.
\<close>

record ctx =
  kind_of :: kind
  ready :: bool
  links :: "nat list"

text \<open>\<open>blocks\<close> are the custom blocks that are not yet finalised, with the pointer in them.\<close>

record mworld =
  heap :: "nat \<Rightarrow> ctx option"
  next_ctx :: nat
  blocks :: "nat \<Rightarrow> nat option"
  next_block :: nat

type_synonym 'a mprim = "(mworld, unit, 'a) prim"

section \<open>Making and finalising\<close>

text \<open>A failing \<open>malloc\<close> is not noticed: the library is handed a null pointer.\<close>

definition ctx_init :: "kind \<Rightarrow> bool \<Rightarrow> nat mprim" where
  "ctx_init k malloc_fails w =
     (let b = next_block w; a = next_ctx w
      in if malloc_fails then faulty (Undef ''null pointer'') w
         else ret b (w\<lparr>heap := (heap w)(a \<mapsto> \<lparr>kind_of = k, ready = True, links = []\<rparr>), next_ctx := a + 1,
                       blocks := (blocks w)(b \<mapsto> a), next_block := b + 1\<rparr>))"

text \<open>The pointer of a block and the context behind it.\<close>

definition ctx_at :: "nat \<Rightarrow> (nat \<times> ctx) mprim" where
  "ctx_at b w =
     (case blocks w b of
        None \<Rightarrow> faulty (Undef ''no such block'') w
      | Some a \<Rightarrow> (case heap w a of Some c \<Rightarrow> ret (a, c) w | None \<Rightarrow> faulty (Undef ''invalid pointer'') w))"

definition put_ctx :: "nat \<Rightarrow> ctx \<Rightarrow> unit mprim" where
  "put_ctx a c w = ret () (w\<lparr>heap := (heap w)(a \<mapsto> c)\<rparr>)"

text \<open>
  The finalisers: \<open>mbedtls_..._free\<close> clears the context; the structure itself is not given back to
  malloc.
\<close>

definition ctx_finalize :: "nat \<Rightarrow> unit mprim" where
  "ctx_finalize b =
     pbind (ctx_at b) (\<lambda>(a, c).
     if \<not> ready c then faulty (Undef ''cleared twice'')
     else pbind (put_ctx a (c\<lparr>ready := False, links := []\<rparr>)) (\<lambda>_ w.
          ret () (w\<lparr>blocks := (blocks w)(b := None)\<rparr>)))"

definition ml_mbedtls_ctr_drbg_init :: "bool \<Rightarrow> nat mprim" where
  "ml_mbedtls_ctr_drbg_init = ctx_init Ctr_drbg"

definition ml_mbedtls_entropy_init :: "bool \<Rightarrow> nat mprim" where
  "ml_mbedtls_entropy_init = ctx_init Entropy"

definition ml_mbedtls_x509_crt_init :: "bool \<Rightarrow> nat mprim" where
  "ml_mbedtls_x509_crt_init = ctx_init X509_crt"

definition ml_mbedtls_ssl_config_init :: "bool \<Rightarrow> nat mprim" where
  "ml_mbedtls_ssl_config_init = ctx_init Ssl_config"

definition ml_mbedtls_pk_init :: "bool \<Rightarrow> nat mprim" where
  "ml_mbedtls_pk_init = ctx_init Pk_context"

definition ml_mbedtls_ssl_init :: "bool \<Rightarrow> nat mprim" where
  "ml_mbedtls_ssl_init = ctx_init Ssl_context"

definition ml_mbedtls_ctr_drbg_finalize :: "nat \<Rightarrow> unit mprim" where
  "ml_mbedtls_ctr_drbg_finalize = ctx_finalize"

definition ml_mbedtls_entropy_finalize :: "nat \<Rightarrow> unit mprim" where
  "ml_mbedtls_entropy_finalize = ctx_finalize"

definition ml_mbedtls_x509_crt_finalize :: "nat \<Rightarrow> unit mprim" where
  "ml_mbedtls_x509_crt_finalize = ctx_finalize"

definition ml_mbedtls_ssl_config_finalize :: "nat \<Rightarrow> unit mprim" where
  "ml_mbedtls_ssl_config_finalize = ctx_finalize"

definition ml_mbedtls_pk_context_finalize :: "nat \<Rightarrow> unit mprim" where
  "ml_mbedtls_pk_context_finalize = ctx_finalize"

definition ml_mbedtls_ssl_context_finalize :: "nat \<Rightarrow> unit mprim" where
  "ml_mbedtls_ssl_context_finalize = ctx_finalize"

lemmas init_defs =
  ml_mbedtls_ctr_drbg_init_def ml_mbedtls_entropy_init_def ml_mbedtls_x509_crt_init_def
  ml_mbedtls_ssl_config_init_def ml_mbedtls_pk_init_def ml_mbedtls_ssl_init_def

lemmas finalize_defs =
  ml_mbedtls_ctr_drbg_finalize_def ml_mbedtls_entropy_finalize_def ml_mbedtls_x509_crt_finalize_def
  ml_mbedtls_ssl_config_finalize_def ml_mbedtls_pk_context_finalize_def ml_mbedtls_ssl_context_finalize_def

section \<open>Links\<close>

text \<open>
  mbedtls keeps the pointer it is given; the OCaml block of the one does not keep that of the other
  alive. \<open>ml_mbedtls_ctr_drbg_seed\<close> and \<open>ml_mbedtls_ssl_setup\<close> also return the code of the library.
\<close>

definition link :: "nat \<Rightarrow> nat \<Rightarrow> unit mprim" where
  "link b b' =
     pbind (ctx_at b) (\<lambda>(a, c).
     pbind (ctx_at b') (\<lambda>(a', _).
     put_ctx a (c\<lparr>links := a' # links c\<rparr>)))"

definition ml_mbedtls_ssl_conf_ca_chain :: "nat \<Rightarrow> nat \<Rightarrow> unit mprim" where
  "ml_mbedtls_ssl_conf_ca_chain conf ca_chain = link conf ca_chain"

definition ml_mbedtls_ssl_conf_rng :: "nat \<Rightarrow> nat \<Rightarrow> unit mprim" where
  "ml_mbedtls_ssl_conf_rng conf p_rng = link conf p_rng"

definition ml_mbedtls_ctr_drbg_seed :: "int \<Rightarrow> nat \<Rightarrow> nat \<Rightarrow> int mprim" where
  "ml_mbedtls_ctr_drbg_seed code b p_entropy = pbind (link b p_entropy) (\<lambda>_. ret code)"

definition ml_mbedtls_ssl_setup :: "int \<Rightarrow> nat \<Rightarrow> nat \<Rightarrow> int mprim" where
  "ml_mbedtls_ssl_setup code ssl conf = pbind (link ssl conf) (\<lambda>_. ret code)"

text \<open>
  A call that works on a context follows the links. Links go from a connection to its configuration,
  from there to certificates and a generator, and from a generator to its entropy, so four levels are
  all there are. A context that was freed must not be used.
\<close>

fun usable :: "nat \<Rightarrow> (nat \<Rightarrow> ctx option) \<Rightarrow> nat \<Rightarrow> bool" where
  "usable 0 h a \<longleftrightarrow> True"
| "usable (Suc n) h a \<longleftrightarrow>
     (case h a of None \<Rightarrow> False | Some c \<Rightarrow> ready c \<and> list_all (usable n h) (links c))"

definition ml_mbedtls_ssl_handshake :: "int \<Rightarrow> nat \<Rightarrow> int mprim" where
  "ml_mbedtls_ssl_handshake code ssl =
     pbind (ctx_at ssl) (\<lambda>(a, _) w.
       if usable 4 (heap w) a then ret code w else faulty (Undef ''cleared context'') w)"

section \<open>Any sequence of operations\<close>

inductive mstep :: "mworld \<Rightarrow> mworld \<Rightarrow> bool" where
  make: "ctx_init k fails w = Inr (r, w') \<Longrightarrow> mstep w w'"
| finalise: "ctx_finalize b w = Inr (r, w') \<Longrightarrow> mstep w w'"
| linked: "link b b' w = Inr (r, w') \<Longrightarrow> mstep w w'"
| handshake: "ml_mbedtls_ssl_handshake code b w = Inr (r, w') \<Longrightarrow> mstep w w'"

definition minit :: mworld where
  "minit = \<lparr>heap = (\<lambda>_. None), next_ctx = 0, blocks = (\<lambda>_. None), next_block = 0\<rparr>"

definition mreaches :: "mworld \<Rightarrow> bool" where
  "mreaches w \<longleftrightarrow> mstep\<^sup>*\<^sup>* minit w"

text \<open>
  Contexts are exactly those ever made; the ready ones are those of the blocks, one block each.
\<close>

definition contexts_ok :: "mworld \<Rightarrow> bool" where
  "contexts_ok w \<longleftrightarrow>
     (\<forall>a. heap w a = None \<longleftrightarrow> next_ctx w \<le> a) \<and>
     (\<forall>b a. blocks w b = Some a \<longrightarrow> b < next_block w \<and> (\<exists>c. heap w a = Some c \<and> ready c)) \<and>
     (\<forall>b b' a. blocks w b = Some a \<and> blocks w b' = Some a \<longrightarrow> b = b') \<and>
     (\<forall>a c. heap w a = Some c \<and> ready c \<longrightarrow> (\<exists>b. blocks w b = Some a))"

lemma contexts_okI:
  assumes "\<And>a. heap w a = None \<longleftrightarrow> next_ctx w \<le> a"
    and "\<And>b a. blocks w b = Some a \<Longrightarrow> b < next_block w"
    and "\<And>b a. blocks w b = Some a \<Longrightarrow> \<exists>c. heap w a = Some c \<and> ready c"
    and "\<And>b b' a. blocks w b = Some a \<Longrightarrow> blocks w b' = Some a \<Longrightarrow> b = b'"
    and "\<And>a c. heap w a = Some c \<Longrightarrow> ready c \<Longrightarrow> \<exists>b. blocks w b = Some a"
  shows "contexts_ok w"
  using assms unfolding contexts_ok_def by blast

lemma contexts_okD:
  assumes "contexts_ok w"
  shows "heap w a = None \<longleftrightarrow> next_ctx w \<le> a"
    and "blocks w b = Some a \<Longrightarrow> b < next_block w"
    and "blocks w b = Some a \<Longrightarrow> \<exists>c. heap w a = Some c \<and> ready c"
    and "blocks w b = Some a \<Longrightarrow> blocks w b' = Some a \<Longrightarrow> b = b'"
    and "heap w a = Some c \<Longrightarrow> ready c \<Longrightarrow> \<exists>b. blocks w b = Some a"
  using assms unfolding contexts_ok_def by blast+

lemma ctx_at_cases:
  assumes "pbind (ctx_at b) f w = Inr (r, w')"
  obtains a c where "blocks w b = Some a" "heap w a = Some c" "f (a, c) w = Inr (r, w')"
  using assms by (auto simp: pbind_Inr_iff ctx_at_def split: option.splits)

lemma contexts_ok_make:
  assumes "ctx_init k fails w = Inr (r, w')" and ok: "contexts_ok w"
  shows "contexts_ok w'"
proof -
  let ?a = "next_ctx w" and ?b = "next_block w"
  note d = contexts_okD [OF ok]
  have w': "w' = w\<lparr>heap := (heap w)(?a \<mapsto> \<lparr>kind_of = k, ready = True, links = []\<rparr>), next_ctx := ?a + 1,
                   blocks := (blocks w)(?b \<mapsto> ?a), next_block := ?b + 1\<rparr>"
    using assms(1) by (auto simp: ctx_init_def Let_def split: if_splits)
  have b: "blocks w ?b = None" using d(2) [of ?b] by (cases "blocks w ?b") auto
  have a: "blocks w b \<noteq> Some ?a" for b using d(3) [of b ?a] d(1) [of ?a] by auto
  show ?thesis
  proof (rule contexts_okI)
    show "heap w' x = None \<longleftrightarrow> next_ctx w' \<le> x" for x using w' d(1) [of x] by auto
    show "y < next_block w'" if "blocks w' y = Some x" for x y
      using that w' d(2) [of y x] by (auto split: if_splits)
    show "\<exists>c. heap w' x = Some c \<and> ready c" if "blocks w' y = Some x" for x y
      using that w' d(3) [of y x] by (auto split: if_splits)
    show "y = y'" if "blocks w' y = Some x" "blocks w' y' = Some x" for x y y'
      using that w' d(4) [of y x y'] a by (auto split: if_splits)
    show "\<exists>y. blocks w' y = Some x" if "heap w' x = Some c" "ready c" for x c
    proof (cases "x = ?a")
      case True
      with w' show ?thesis by (intro exI [of _ ?b]) simp
    next
      case False
      with that w' d(5) [of x c] obtain y where "blocks w y = Some x" by auto
      with w' b show ?thesis by (intro exI [of _ y]) auto
    qed
  qed
qed

lemma contexts_ok_finalize:
  assumes "ctx_finalize b w = Inr (r, w')" and ok: "contexts_ok w"
  shows "contexts_ok w'"
proof -
  note d = contexts_okD [OF ok]
  from assms(1) obtain a c where a: "blocks w b = Some a" "heap w a = Some c"
    and w': "w' = w\<lparr>heap := (heap w)(a \<mapsto> c\<lparr>ready := False, links := []\<rparr>), blocks := (blocks w)(b := None)\<rparr>"
    unfolding ctx_finalize_def by (elim ctx_at_cases) (auto simp: put_ctx_def split: if_splits)
  show ?thesis
  proof (rule contexts_okI)
    show "heap w' x = None \<longleftrightarrow> next_ctx w' \<le> x" for x using w' d(1) [of x] a(2) by auto
    show "y < next_block w'" if "blocks w' y = Some x" for x y
      using that w' d(2) [of y x] by (auto split: if_splits)
    show "\<exists>c. heap w' x = Some c \<and> ready c" if "blocks w' y = Some x" for x y
      using that w' d(3) [of y x] d(4) [of y x b] a by (auto split: if_splits)
    show "y = y'" if "blocks w' y = Some x" "blocks w' y' = Some x" for x y y'
      using that w' d(4) [of y x y'] by (auto split: if_splits)
    show "\<exists>y. blocks w' y = Some x" if "heap w' x = Some e" "ready e" for x e
    proof -
      from that w' have x: "x \<noteq> a" "heap w x = Some e" by (auto split: if_splits)
      with that d(5) [of x e] obtain y where "blocks w y = Some x" by auto
      with w' x a show ?thesis by (intro exI [of _ y]) auto
    qed
  qed
qed

lemma contexts_ok_link:
  assumes "link b b' w = Inr (r, w')" and ok: "contexts_ok w"
  shows "contexts_ok w'"
proof -
  note d = contexts_okD [OF ok]
  from assms(1) obtain a c a' where a: "blocks w b = Some a" "heap w a = Some c"
    and w': "w' = w\<lparr>heap := (heap w)(a \<mapsto> c\<lparr>links := a' # links c\<rparr>)\<rparr>"
    unfolding link_def by (elim ctx_at_cases) (auto simp: put_ctx_def elim!: ctx_at_cases)
  show ?thesis
  proof (rule contexts_okI)
    show "heap w' x = None \<longleftrightarrow> next_ctx w' \<le> x" for x using w' d(1) [of x] a(2) by auto
    show "y < next_block w'" if "blocks w' y = Some x" for x y using that w' d(2) [of y x] by simp
    show "\<exists>c. heap w' x = Some c \<and> ready c" if "blocks w' y = Some x" for x y
      using that w' d(3) [of y x] a by auto
    show "y = y'" if "blocks w' y = Some x" "blocks w' y' = Some x" for x y y'
      using that w' d(4) [of y x y'] by simp
    show "\<exists>y. blocks w' y = Some x" if "heap w' x = Some e" "ready e" for x e
      using that w' d(5) [of x] a by (auto split: if_splits)
  qed
qed

lemma contexts_ok_step: "mstep w w' \<Longrightarrow> contexts_ok w \<Longrightarrow> contexts_ok w'"
proof (induction rule: mstep.induct)
  case (handshake code b w r w')
  then have "w' = w" unfolding ml_mbedtls_ssl_handshake_def by (elim ctx_at_cases) (auto split: if_splits)
  with handshake show ?case by simp
qed (blast intro: contexts_ok_make contexts_ok_finalize contexts_ok_link)+

lemma contexts_ok_minit: "contexts_ok minit"
  by (simp add: minit_def contexts_ok_def)

lemma ctx_finalize_ok:
  assumes "contexts_ok w" "blocks w b = Some a"
  shows "\<exists>w'. ctx_finalize b w = Inr (Inr (), w')"
proof -
  from contexts_okD(3) [OF assms] obtain c where "heap w a = Some c" "ready c" by blast
  with assms(2) show ?thesis by (simp add: ctx_finalize_def ctx_at_def put_ctx_def pbind_def)
qed

lemma ctx_finalize_blocks: "ctx_finalize b w = Inr (r, w') \<Longrightarrow> blocks w' = (blocks w)(b := None)"
  unfolding ctx_finalize_def by (elim ctx_at_cases) (auto simp: put_ctx_def split: if_splits)

interpretation contexts: finalised mstep contexts_ok "\<lambda>w b. blocks w b \<noteq> None" ctx_finalize
  by unfold_locales (auto simp: ctx_finalize_blocks intro: contexts_ok_step finalise ctx_finalize_ok)

lemma mreaches_ok: "mreaches w \<Longrightarrow> contexts_ok w"
  unfolding mreaches_def by (rule contexts.always [OF _ contexts_ok_minit])


definition ex_mworld :: mworld where
  "ex_mworld = \<lparr>heap = [0 \<mapsto> \<lparr>kind_of = Ssl_config, ready = True, links = []\<rparr>], next_ctx = 1,
     blocks = [0 \<mapsto> 0], next_block = 1\<rparr>"

lemma ex_mworld_reached: "mreaches ex_mworld"
proof -
  have "ctx_init Ssl_config False minit = Inr (Inr 0, ex_mworld)"
    by (simp add: ctx_init_def minit_def ex_mworld_def)
  then show ?thesis unfolding mreaches_def by (intro r_into_rtranclp make)
qed


section \<open>A context that is finalised too early\<close>

text \<open>A connection does not keep its configuration alive, nor a configuration its certificates: once
  the block of the configuration is finalised, or that of its certificates, the handshake of the
  connection works on a context that mbedtls has freed, although OCaml still holds the connection.\<close>

lemma handshake_after_finaliser:
  assumes b: "blocks w ssl = Some a" "blocks w conf = Some a'" "blocks w chain = Some a''" "distinct [a, a', a'']"
    and h: "heap w a = Some s" "heap w a' = Some c" "heap w a'' = Some x" "ready c" "ready x"
    and run: "ml_mbedtls_ssl_setup code ssl conf w = Inr (r1, w1)" "ml_mbedtls_ssl_conf_ca_chain conf chain w1 = Inr (r2, w2)"
    and fin: "ctx_finalize b w2 = Inr (r3, w3)" "b = conf \<or> b = chain"
  shows "ml_mbedtls_ssl_handshake code' ssl w3 = Inl (Undef ''cleared context'')"
proof -
  have distinct: "ssl \<noteq> conf" "ssl \<noteq> chain" "conf \<noteq> chain" using b by auto
  have w1: "w1 = w\<lparr>heap := (heap w)(a \<mapsto> s\<lparr>links := a' # links s\<rparr>)\<rparr>"
    using run(1) b h by (auto simp: ml_mbedtls_ssl_setup_def link_def ctx_at_def put_ctx_def pbind_def)
  have w2: "w2 = w1\<lparr>heap := (heap w1)(a' \<mapsto> c\<lparr>links := a'' # links c\<rparr>)\<rparr>"
    using run(2) b h w1 by (auto simp: ml_mbedtls_ssl_conf_ca_chain_def link_def ctx_at_def put_ctx_def pbind_def)
  from fin(2) show ?thesis
  proof
    assume "b = conf"
    with fin(1) b h w1 w2 distinct show ?thesis
      by (auto simp: ctx_finalize_def ctx_at_def put_ctx_def pbind_def ml_mbedtls_ssl_handshake_def
          numeral_eq_Suc split: if_splits)
  next
    assume "b = chain"
    with fin(1) b h w1 w2 distinct show ?thesis
      by (auto simp: ctx_finalize_def ctx_at_def put_ctx_def pbind_def ml_mbedtls_ssl_handshake_def
          numeral_eq_Suc split: if_splits)
  qed
qed


definition ex_linked :: mworld where
  "ex_linked = \<lparr>heap = [0 \<mapsto> \<lparr>kind_of = Ssl_context, ready = True, links = []\<rparr>, 1 \<mapsto> \<lparr>kind_of = Ssl_config, ready = True, links = []\<rparr>,
       2 \<mapsto> \<lparr>kind_of = X509_crt, ready = True, links = []\<rparr>], next_ctx = 3,
     blocks = [0 \<mapsto> 0, 1 \<mapsto> 1, 2 \<mapsto> 2], next_block = 3\<rparr>"

lemma handshake_after_finaliser_example:
  "\<exists>w1 w2 w3. ml_mbedtls_ssl_setup 0 0 1 ex_linked = Inr (Inr 0, w1) \<and> ml_mbedtls_ssl_conf_ca_chain 1 2 w1 = Inr (Inr (), w2) \<and>
     ctx_finalize 2 w2 = Inr (Inr (), w3) \<and> ml_mbedtls_ssl_handshake 0 0 w3 = Inl (Undef ''cleared context'')"
proof -
  note unfold = ml_mbedtls_ssl_setup_def ml_mbedtls_ssl_conf_ca_chain_def link_def ctx_at_def put_ctx_def pbind_def
    ctx_finalize_def ex_linked_def
  obtain w1 where w1: "ml_mbedtls_ssl_setup 0 0 1 ex_linked = Inr (Inr 0, w1)" by (simp add: unfold)
  obtain w2 where w2: "ml_mbedtls_ssl_conf_ca_chain 1 2 w1 = Inr (Inr (), w2)" using w1 by (auto simp: unfold)
  obtain w3 where w3: "ctx_finalize 2 w2 = Inr (Inr (), w3)" using w1 w2 by (auto simp: unfold)
  from handshake_after_finaliser [OF _ _ _ _ _ _ _ _ _ w1 w2 w3, of 0 1 2] w1 w2 w3
  have "ml_mbedtls_ssl_handshake 0 0 w3 = Inl (Undef ''cleared context'')" by (simp add: ex_linked_def)
  with w1 w2 w3 show ?thesis by blast
qed

end
