(* ===== verification/MbedSsl.thy ===== *)
theory MbedSsl imports Prelude begin

text \<open>
  libs/mbedtls/mbedtls_stubs.c, calls: the OCaml values that the stubs return, the transfer of data,
  the callbacks of the transport, and the certificates of a chain as blocks of their own. mbedtls
  and the callbacks are parameters.
\<close>

section \<open>Values\<close>

text \<open>An OCaml value is a machine word; \<open>Val_int\<close> tags it, OCaml code reads it by a shift.\<close>

type_synonym ml_value = "64 word"

definition tag_int :: "int \<Rightarrow> ml_value" where
  "tag_int n = word_of_int (2 * n + 1)"

definition immediate :: "ml_value \<Rightarrow> bool" where
  "immediate v \<longleftrightarrow> bit v 0"

definition ocaml_int :: "ml_value \<Rightarrow> int" where
  "ocaml_int v = sint v div 2"

text \<open>What the stubs make of the \<open>int\<close> that mbedtls returns.\<close>

definition coded :: "int \<Rightarrow> ml_value" where
  "coded r = tag_int (s32 r)"

definition uncoded :: "int \<Rightarrow> ml_value" where
  "uncoded r = word_of_int (s32 r)"

text \<open>
  The bytes of a key with the zero that ends the OCaml string, and the password when there is one.
  The optional password of a file is a C string.
\<close>

definition ml_mbedtls_pk_parse_key :: "(string \<Rightarrow> string option \<Rightarrow> int) \<Rightarrow> string \<Rightarrow> string option \<Rightarrow> ml_value" where
  "ml_mbedtls_pk_parse_key parse key password = uncoded (parse (key @ [CHR 0x00]) password)"

definition ml_mbedtls_pk_parse_keyfile :: "(string \<Rightarrow> string option \<Rightarrow> int) \<Rightarrow> string \<Rightarrow> string option \<Rightarrow> ml_value" where
  "ml_mbedtls_pk_parse_keyfile parse path password =
     uncoded (parse (takeWhile (\<lambda>c. c \<noteq> CHR 0x00) path) (map_option (takeWhile (\<lambda>c. c \<noteq> CHR 0x00)) password))"

definition ml_mbedtls_pk_parse_public_key :: "(string \<Rightarrow> int) \<Rightarrow> string \<Rightarrow> ml_value" where
  "ml_mbedtls_pk_parse_public_key parse key = uncoded (parse (key @ [CHR 0x00]))"

definition ml_mbedtls_pk_parse_public_keyfile :: "(string \<Rightarrow> int) \<Rightarrow> string \<Rightarrow> ml_value" where
  "ml_mbedtls_pk_parse_public_keyfile parse path = uncoded (parse (takeWhile (\<lambda>c. c \<noteq> CHR 0x00) path))"

definition ml_mbedtls_x509_crt_parse :: "(string \<Rightarrow> int) \<Rightarrow> string \<Rightarrow> ml_value" where
  "ml_mbedtls_x509_crt_parse parse bytes = coded (parse (bytes @ [CHR 0x00]))"

definition ml_mbedtls_x509_crt_parse_file :: "(string \<Rightarrow> int) \<Rightarrow> string \<Rightarrow> ml_value" where
  "ml_mbedtls_x509_crt_parse_file parse path = coded (parse (takeWhile (\<lambda>c. c \<noteq> CHR 0x00) path))"

definition ml_mbedtls_x509_crt_parse_path :: "(string \<Rightarrow> int) \<Rightarrow> string \<Rightarrow> ml_value" where
  "ml_mbedtls_x509_crt_parse_path parse path = coded (parse (takeWhile (\<lambda>c. c \<noteq> CHR 0x00) path))"

definition ml_mbedtls_ssl_set_hostname :: "(string \<Rightarrow> int) \<Rightarrow> string \<Rightarrow> ml_value" where
  "ml_mbedtls_ssl_set_hostname set_hostname hostname =
     coded (set_hostname (takeWhile (\<lambda>c. c \<noteq> CHR 0x00) hostname))"

definition ml_mbedtls_ssl_config_defaults :: "(int \<Rightarrow> int \<Rightarrow> int \<Rightarrow> int) \<Rightarrow> int \<Rightarrow> int \<Rightarrow> int \<Rightarrow> ml_value" where
  "ml_mbedtls_ssl_config_defaults set_defaults endpoint transport preset =
     coded (set_defaults (s32 endpoint) (s32 transport) (s32 preset))"

lemma bit0_word_of_int: "bit (word_of_int x :: 'a::len word) 0 = odd x"
  unfolding bit_word_of_int_iff by (simp add: bit_0)

lemma sint_small: "- (2 ^ 63) \<le> x \<Longrightarrow> x < 2 ^ 63 \<Longrightarrow> sint (word_of_int x :: 64 word) = x"
  by (simp add: sint_sbintrunc' signed_take_bit_int_eq_self)

lemma coded_reads_back: "immediate (coded r) \<and> ocaml_int (coded r) = s32 r"
proof -
  have "- (2 ^ 63) \<le> 2 * s32 r + 1" "2 * s32 r + 1 < 2 ^ 63" using s32_bounds [of r] by auto
  then show ?thesis
    unfolding coded_def immediate_def ocaml_int_def tag_int_def bit0_word_of_int by (subst sint_small) auto
qed

lemma uncoded_reads_half: "ocaml_int (uncoded r) = s32 r div 2" "immediate (uncoded r) \<longleftrightarrow> odd (s32 r)"
proof -
  have "- (2 ^ 63) \<le> s32 r" "s32 r < 2 ^ 63" using s32_bounds [of r] by auto
  then show "ocaml_int (uncoded r) = s32 r div 2" by (simp add: uncoded_def ocaml_int_def sint_small)
  show "immediate (uncoded r) \<longleftrightarrow> odd (s32 r)" by (simp add: uncoded_def immediate_def bit0_word_of_int)
qed


section \<open>Data\<close>

text \<open>
  A call of mbedtls on memory of the OCaml heap: its code, the bytes it stored, and whether a callback
  made the garbage collector move the buffer before.
\<close>

record ssl_call =
  code :: int
  stored :: string
  buffer_moved :: bool

text \<open>
  \<open>Bytes_val(buf) + Int_val(pos)\<close> is computed before the call. A negative length becomes a huge one.
\<close>

definition ml_mbedtls_ssl_read :: "(nat \<Rightarrow> ssl_call) \<Rightarrow> string \<Rightarrow> int \<Rightarrow> int \<Rightarrow> c_fault + int \<times> string" where
  "ml_mbedtls_ssl_read ssl_read buf pos len =
     (let call = ssl_read (nat (s32 len mod 2 ^ 64)); at = nat (s32 pos)
      in if stored call = [] then Inr (s32 (code call), buf)
         else if buffer_moved call then Inl (Undef ''write to the old place of the buffer'')
         else if s32 pos < 0 \<or> length buf < at + length (stored call) then Inl (Undef ''write outside of the buffer'')
         else Inr (s32 (code call), take at buf @ stored call @ drop (at + length (stored call)) buf))"

definition ml_mbedtls_ssl_write :: "(string \<Rightarrow> int \<times> bool) \<Rightarrow> string \<Rightarrow> int \<Rightarrow> int \<Rightarrow> c_fault + int" where
  "ml_mbedtls_ssl_write ssl_write buf pos len =
     (let n = nat (s32 len mod 2 ^ 64); at = nat (s32 pos)
      in if s32 pos < 0 \<or> length buf < at + n then Inl (Undef ''read outside of the buffer'')
         else let (r, moved) = ssl_write (take n (drop at buf))
              in if moved then Inl (Undef ''read from the old place of the buffer'') else Inr (s32 r))"

definition ml_mbedtls_ctr_drbg_random :: "(nat \<Rightarrow> int \<times> string) \<Rightarrow> string \<Rightarrow> int \<Rightarrow> c_fault + int \<times> string" where
  "ml_mbedtls_ctr_drbg_random random buf len =
     (let (r, bs) = random (nat (s32 len mod 2 ^ 64))
      in if length buf < length bs then Inl (Undef ''write outside of the buffer'')
         else Inr (s32 r, bs @ drop (length bs) buf))"

text \<open>The source of entropy writes \<open>len\<close> bytes.\<close>

definition ml_mbedtls_entropy_func :: "(nat \<Rightarrow> int \<times> string) \<Rightarrow> string \<Rightarrow> int \<Rightarrow> c_fault + int \<times> string" where
  "ml_mbedtls_entropy_func entropy_func out len =
     (let (r, bs) = entropy_func (nat (s32 len mod 2 ^ 64))
      in if length out < length bs then Inl (Undef ''write outside of the buffer'')
         else Inr (s32 r, bs @ drop (length bs) out))"


definition ex_read :: "nat \<Rightarrow> ssl_call" where
  "ex_read n = \<lparr>code = 3, stored = take n ''abc'', buffer_moved = False\<rparr>"


section \<open>The transport\<close>

text \<open>
  The callbacks of OCaml: \<open>send\<close> gets the bytes, \<open>recv\<close> gets a fresh byte string and leaves it filled;
  both may raise, and the exception then passes the frames of mbedtls.
\<close>

definition bio_write_cb :: "(string \<Rightarrow> 'e + int) \<Rightarrow> string \<Rightarrow> nat \<Rightarrow> c_fault + 'e + int" where
  "bio_write_cb send mem len =
     (if length mem < len then Inl (Undef ''read behind the data'')
      else Inr (case send (take len mem) of Inl e \<Rightarrow> Inl e | Inr r \<Rightarrow> Inr (s32 r)))"

definition bio_read_cb ::
  "(string \<Rightarrow> 'e + int \<times> string) \<Rightarrow> (nat \<Rightarrow> string) \<Rightarrow> nat \<Rightarrow> 'e + int \<times> string" where
  "bio_read_cb recv create len =
     (case recv (create len) of
        Inl e \<Rightarrow> Inl e
      | Inr (r, s) \<Rightarrow> Inr (s32 r, take len s))"

text \<open>The message for a code, which mbedtls cuts to the size of the buffer.\<close>

definition ml_mbedtls_strerror :: "(int \<Rightarrow> nat \<Rightarrow> string) \<Rightarrow> int \<Rightarrow> string" where
  "ml_mbedtls_strerror strerror err = takeWhile (\<lambda>c. c \<noteq> CHR 0x00) (strerror (s32 err) 128)"

section \<open>Chains of certificates\<close>

text \<open>
  The certificates that mbedtls keeps, by address, and the pointers in the custom blocks. \<open>crt_free\<close> is
  \<open>mbedtls_x509_crt_free\<close>.
\<close>

record crt =
  crt_raw :: string
  crt_next :: "nat option"

record chains =
  certs :: "nat \<Rightarrow> crt option"
  crt_blocks :: "nat \<Rightarrow> nat option"
  next_crt_block :: nat

definition crt_of :: "nat \<Rightarrow> (chains, unit, nat \<times> crt) prim" where
  "crt_of b w =
     (case crt_blocks w b of
        None \<Rightarrow> faulty (Undef ''no such block'') w
      | Some a \<Rightarrow> (case certs w a of Some c \<Rightarrow> ret (a, c) w | None \<Rightarrow> faulty (Undef ''use after free'') w))"

definition new_crt_block :: "nat \<Rightarrow> (chains, unit, nat) prim" where
  "new_crt_block a w =
     (let b = next_crt_block w
      in ret b (w\<lparr>crt_blocks := (crt_blocks w)(b \<mapsto> a), next_crt_block := b + 1\<rparr>))"

definition ml_mbedtls_x509_next :: "nat \<Rightarrow> (chains, unit, nat option) prim" where
  "ml_mbedtls_x509_next chain =
     pbind (crt_of chain) (\<lambda>(a, c).
     case crt_next c of
       None \<Rightarrow> ret None
     | Some a' \<Rightarrow> pbind (new_crt_block a') (\<lambda>b. ret (Some b)))"

text \<open>The certificate of the peer stays the property of the connection.\<close>

definition ml_mbedtls_ssl_get_peer_cert :: "nat option \<Rightarrow> (chains, unit, nat option) prim" where
  "ml_mbedtls_ssl_get_peer_cert peer =
     (case peer of None \<Rightarrow> ret None | Some a \<Rightarrow> pbind (new_crt_block a) (\<lambda>b. ret (Some b)))"

definition x509_crt_finalize ::
  "((nat \<Rightarrow> crt option) \<Rightarrow> nat \<Rightarrow> (nat \<Rightarrow> crt option)) \<Rightarrow> nat \<Rightarrow> (chains, unit, unit) prim" where
  "x509_crt_finalize crt_free b =
     pbind (crt_of b) (\<lambda>(a, _) w.
     ret () (w\<lparr>certs := crt_free (certs w) a, crt_blocks := (crt_blocks w)(b := None)\<rparr>))"

text \<open>
  \<open>mbedtls_x509_crt_free\<close> unallocates all certificates of the chain behind the first, whose memory
  belongs to the caller.
\<close>

definition frees_chain :: "((nat \<Rightarrow> crt option) \<Rightarrow> nat \<Rightarrow> (nat \<Rightarrow> crt option)) \<Rightarrow> bool" where
  "frees_chain crt_free \<longleftrightarrow>
     (\<forall>h a c a'. h a = Some c \<and> crt_next c = Some a' \<and> a' \<noteq> a \<longrightarrow> crt_free h a a' = None)"

text \<open>C32: the block that \<open>next\<close> returns has its certificate in common with the block of the chain. When the
  chain is finalised first, the block left over is good for nothing: asking it for its next
  certificate, and even its own finaliser, reads freed memory.\<close>

theorem x509_next_dangles:
  assumes "frees_chain crt_free"
    and b: "crt_blocks w b = Some a" "certs w a = Some c" "crt_next c = Some a'" "a' \<noteq> a" "b < next_crt_block w"
    and run: "ml_mbedtls_x509_next b w = Inr (Inr (Some b'), w1)" "x509_crt_finalize crt_free b w1 = Inr (Inr (), w2)"
  shows "ml_mbedtls_x509_next b' w2 = Inl (Undef ''use after free'') \<and>
    x509_crt_finalize crt_free b' w2 = Inl (Undef ''use after free'')"
proof -
  have w1: "b' = next_crt_block w" "w1 = w\<lparr>crt_blocks := (crt_blocks w)(b' \<mapsto> a'), next_crt_block := b' + 1\<rparr>"
    using run(1) b by (auto simp: ml_mbedtls_x509_next_def crt_of_def new_crt_block_def pbind_def Let_def)
  have w2: "w2 = w1\<lparr>certs := crt_free (certs w) a, crt_blocks := (crt_blocks w1)(b := None)\<rparr>"
    using run(2) b w1 by (auto simp: x509_crt_finalize_def crt_of_def pbind_def)
  have "crt_free (certs w) a a' = None" using assms(1) b by (auto simp: frees_chain_def)
  with w1 w2 b(5) show ?thesis
    by (simp add: ml_mbedtls_x509_next_def x509_crt_finalize_def crt_of_def pbind_def)
qed

definition ex_chain :: chains where
  "ex_chain = \<lparr>certs = [0 \<mapsto> \<lparr>crt_raw = ''root'', crt_next = Some 1\<rparr>, 1 \<mapsto> \<lparr>crt_raw = ''leaf'', crt_next = None\<rparr>],
     crt_blocks = [0 \<mapsto> 0], next_crt_block = 1\<rparr>"

text \<open>It removes the second certificate, and clears the first.\<close>

definition ex_crt_free :: "(nat \<Rightarrow> crt option) \<Rightarrow> nat \<Rightarrow> (nat \<Rightarrow> crt option)" where
  "ex_crt_free h a = (\<lambda>x. if x = a then Some \<lparr>crt_raw = [], crt_next = None\<rparr> else None)"

theorem x509_next_dangles_witness:
  "\<exists>w1 w2. ml_mbedtls_x509_next 0 ex_chain = Inr (Inr (Some 1), w1) \<and>
     x509_crt_finalize ex_crt_free 0 w1 = Inr (Inr (), w2) \<and>
     x509_crt_finalize ex_crt_free 1 w2 = Inl (Undef ''use after free'')"
proof -
  note unfold = ml_mbedtls_x509_next_def crt_of_def new_crt_block_def pbind_def Let_def ex_chain_def x509_crt_finalize_def
  obtain w1 where w1: "ml_mbedtls_x509_next 0 ex_chain = Inr (Inr (Some 1), w1)" by (simp add: unfold)
  obtain w2 where w2: "x509_crt_finalize ex_crt_free 0 w1 = Inr (Inr (), w2)" using w1 by (auto simp: unfold)
  have "frees_chain ex_crt_free" by (simp add: frees_chain_def ex_crt_free_def)
  from x509_next_dangles [OF this _ _ _ _ _ w1 w2] w1 w2 show ?thesis by (auto simp: ex_chain_def)
qed

end
