(* ===== verification/MbedBio.thy ===== *)
theory MbedBio imports MbedSsl begin

text \<open>
  libs/mbedtls/mbedtls_stubs.c, the transport of a connection: \<open>ml_mbedtls_ssl_set_bio\<close> and what the
  callbacks find when mbedtls calls them, over any sequence of settings and finalisers.
\<close>

section \<open>State\<close>

text \<open>
  \<open>roots\<close>: the locations that are registered with the collector, with the block of three fields in
  each; \<open>bio_of\<close>: the context that mbedtls keeps for a connection; \<open>authmode_of\<close>: the mode that it keeps
  for a configuration.
\<close>

record 'v transport =
  roots :: "nat \<Rightarrow> 'v list option"
  next_location :: nat
  bio_of :: "nat \<Rightarrow> nat option"
  authmode_of :: "nat \<Rightarrow> int"

type_synonym ('v, 'a) bprim = "('v transport, unit, 'a) prim"

definition ml_mbedtls_ssl_set_bio :: "bool \<Rightarrow> nat \<Rightarrow> 'v \<Rightarrow> 'v \<Rightarrow> 'v \<Rightarrow> ('v, unit) bprim" where
  "ml_mbedtls_ssl_set_bio malloc_fails ssl p_bio f_send f_recv w =
     (let ctx = [p_bio, f_send, f_recv]; location = next_location w
      in if malloc_fails then faulty (Undef ''null pointer'') w
         else ret () (w\<lparr>roots := (roots w)(location \<mapsto> ctx), next_location := location + 1,
                       bio_of := (bio_of w)(ssl \<mapsto> location)\<rparr>))"

definition ml_mbedtls_ssl_conf_authmode :: "nat \<Rightarrow> int \<Rightarrow> ('v, unit) bprim" where
  "ml_mbedtls_ssl_conf_authmode conf authmode w =
     ret () (w\<lparr>authmode_of := (authmode_of w)(conf := s32 authmode)\<rparr>)"

text \<open>\<open>mbedtls_ssl_free\<close>, called by the finaliser, forgets the context; the root stays registered.\<close>

definition ssl_context_freed :: "nat \<Rightarrow> ('v, unit) bprim" where
  "ssl_context_freed ssl w = ret () (w\<lparr>bio_of := (bio_of w)(ssl := None)\<rparr>)"

text \<open>The callbacks read the fields through the location; \<open>call2\<close> is \<open>caml_callback2\<close>.\<close>

definition vctx_field :: "'v transport \<Rightarrow> nat \<Rightarrow> nat \<Rightarrow> c_fault + 'v" where
  "vctx_field w location i =
     (case roots w location of
        None \<Rightarrow> Inl (Undef ''invalid pointer'')
      | Some vctx \<Rightarrow> if i < length vctx then Inr (vctx ! i) else Inl (Undef ''outside of the block''))"

definition send_through ::
  "('v \<Rightarrow> 'v \<Rightarrow> string \<Rightarrow> 'e + int) \<Rightarrow> 'v transport \<Rightarrow> nat \<Rightarrow> string \<Rightarrow> nat \<Rightarrow> c_fault + 'e + int" where
  "send_through call2 w location mem len =
     rbind (vctx_field w location 1) (\<lambda>f.
     rbind (vctx_field w location 0) (\<lambda>bio.
     bio_write_cb (call2 f bio) mem len))"

definition recv_through ::
  "('v \<Rightarrow> 'v \<Rightarrow> string \<Rightarrow> 'e + int \<times> string) \<Rightarrow> (nat \<Rightarrow> string) \<Rightarrow> 'v transport \<Rightarrow> nat \<Rightarrow> nat \<Rightarrow>
    c_fault + 'e + int \<times> string" where
  "recv_through call2 create w location len =
     rbind (vctx_field w location 2) (\<lambda>f.
     rbind (vctx_field w location 0) (\<lambda>bio.
     Inr (bio_read_cb (call2 f bio) create len)))"

section \<open>Any sequence of operations\<close>

datatype 'v bio_op = Set_bio nat 'v 'v 'v | Set_authmode nat int | Ssl_freed nat

fun bio_step :: "'v bio_op \<Rightarrow> ('v, unit) bprim" where
  "bio_step (Set_bio ssl p s r) = ml_mbedtls_ssl_set_bio False ssl p s r"
| "bio_step (Set_authmode conf mode) = ml_mbedtls_ssl_conf_authmode conf mode"
| "bio_step (Ssl_freed ssl) = ssl_context_freed ssl"

fun bio_run :: "'v bio_op list \<Rightarrow> ('v, unit) bprim" where
  "bio_run [] = ret ()"
| "bio_run (x # xs) = pbind (bio_step x) (\<lambda>_. bio_run xs)"

definition no_bios :: "'v transport" where
  "no_bios = \<lparr>roots = Map.empty, next_location = 0, bio_of = Map.empty, authmode_of = \<lambda>_. 0\<rparr>"

text \<open>
  The specification: a map from connections to the last transport that was set, with no locations and
  no roots.
\<close>

fun spec_step :: "'v bio_op \<Rightarrow> (nat \<Rightarrow> 'v list option) \<Rightarrow> nat \<Rightarrow> 'v list option" where
  "spec_step (Set_bio ssl p s r) m = m(ssl \<mapsto> [p, s, r])"
| "spec_step (Set_authmode conf mode) m = m"
| "spec_step (Ssl_freed ssl) m = m(ssl := None)"

fun is_set_bio :: "'v bio_op \<Rightarrow> bool" where
  "is_set_bio (Set_bio _ _ _ _) = True"
| "is_set_bio _ = False"

definition abs_bio :: "'v transport \<Rightarrow> nat \<Rightarrow> 'v list option" where
  "abs_bio w ssl = (case bio_of w ssl of None \<Rightarrow> None | Some l \<Rightarrow> roots w l)"

definition bio_ok :: "'v transport \<Rightarrow> bool" where
  "bio_ok w \<longleftrightarrow> dom (roots w) = {..<next_location w} \<and> (\<forall>ssl l. bio_of w ssl = Some l \<longrightarrow> l < next_location w)"

lemma bio_step_simulates:
  assumes "bio_ok w"
  obtains w' where "bio_step x w = Inr (Inr (), w')" "bio_ok w'" "abs_bio w' = spec_step x (abs_bio w)"
    "next_location w' = next_location w + (if is_set_bio x then 1 else 0)"
proof (cases x)
  case (Set_bio ssl p s r)
  let ?l = "next_location w"
  let ?w = "w\<lparr>roots := (roots w)(?l \<mapsto> [p, s, r]), next_location := ?l + 1, bio_of := (bio_of w)(ssl \<mapsto> ?l)\<rparr>"
  have "roots w l = roots ?w l" if "bio_of w c = Some l" for c l
    using assms that by (auto simp: bio_ok_def)
  then have "abs_bio ?w = (abs_bio w)(ssl \<mapsto> [p, s, r])"
    by (intro ext) (auto simp: abs_bio_def split: option.splits)
  moreover have "bio_ok ?w" using assms by (auto simp: bio_ok_def less_Suc_eq)
  ultimately show ?thesis
    using that [of ?w] Set_bio by (simp add: ml_mbedtls_ssl_set_bio_def Let_def)
next
  case (Set_authmode conf mode)
  let ?w = "w\<lparr>authmode_of := (authmode_of w)(conf := s32 mode)\<rparr>"
  have "abs_bio ?w = abs_bio w" "bio_ok ?w" using assms by (auto simp: abs_bio_def bio_ok_def fun_eq_iff split: option.splits)
  then show ?thesis using that [of ?w] Set_authmode by (simp add: ml_mbedtls_ssl_conf_authmode_def)
next
  case (Ssl_freed ssl)
  let ?w = "w\<lparr>bio_of := (bio_of w)(ssl := None)\<rparr>"
  have "abs_bio ?w = (abs_bio w)(ssl := None)" "bio_ok ?w" using assms by (auto simp: abs_bio_def bio_ok_def fun_eq_iff split: option.splits)
  then show ?thesis using that [of ?w] Ssl_freed by (simp add: ssl_context_freed_def)
qed

lemma bio_run_simulates:
  assumes "bio_ok w"
  shows "\<exists>w'. bio_run xs w = Inr (Inr (), w') \<and> bio_ok w' \<and> abs_bio w' = fold spec_step xs (abs_bio w) \<and>
    next_location w' = next_location w + length (filter is_set_bio xs)"
  using assms
proof (induction xs arbitrary: w)
  case (Cons x xs)
  from bio_step_simulates [OF Cons.prems, of x] obtain w1 where
    "bio_step x w = Inr (Inr (), w1)" "bio_ok w1" "abs_bio w1 = spec_step x (abs_bio w)"
    "next_location w1 = next_location w + (if is_set_bio x then 1 else 0)" .
  with Cons.IH [of w1] show ?case by (auto simp: pbind_def)
qed simp

lemma abs_bio_locations:
  assumes "bio_ok w"
  shows "abs_bio w ssl = None \<longleftrightarrow> bio_of w ssl = None"
    and "abs_bio w ssl = Some v \<Longrightarrow> \<exists>l. bio_of w ssl = Some l \<and> roots w l = Some v"
  using assms by (auto simp: abs_bio_def bio_ok_def split: option.splits)

section \<open>Properties\<close>

text \<open>C30: whatever transports are set and connections freed, each connection has the context that was
  set last for it, and through it the callbacks call the functions of that transport on its value;
  a connection without a transport, or that was freed, has none.\<close>

theorem transport_refines_latest:
  fixes ops :: "'v bio_op list"
  shows "\<exists>w. bio_run ops no_bios = Inr (Inr (), w) \<and>
    (\<forall>ssl. case fold spec_step ops Map.empty ssl of
       None \<Rightarrow> bio_of w ssl = None
     | Some v \<Rightarrow> \<exists>p s r l. v = [p, s, r] \<and> bio_of w ssl = Some l \<and>
         send_through call w l mem len = bio_write_cb (call s p) mem len \<and>
         recv_through call' create w l len = Inr (bio_read_cb (call' r p) create len))"
proof -
  have "bio_ok (no_bios :: 'v transport)" "abs_bio (no_bios :: 'v transport) = Map.empty"
    by (simp_all add: bio_ok_def no_bios_def abs_bio_def fun_eq_iff)
  from bio_run_simulates [OF this(1), of ops] this(2) obtain w where
    run: "bio_run ops no_bios = Inr (Inr (), w)" and ok: "bio_ok w" and w: "abs_bio w = fold spec_step ops Map.empty"
    by auto
  have three: "\<exists>p s r. v = [p, s, r]" if "fold spec_step xs m ssl = Some v" "\<forall>ssl v. m ssl = Some v \<longrightarrow> (\<exists>p s r. v = [p, s, r])"
    for xs :: "'v bio_op list" and m ssl v
    using that
  proof (induction xs arbitrary: m)
    case (Cons x xs)
    then show ?case by (cases x) (auto split: if_splits)
  qed simp
  have "case fold spec_step ops Map.empty ssl of
       None \<Rightarrow> bio_of w ssl = None
     | Some v \<Rightarrow> \<exists>p s r l. v = [p, s, r] \<and> bio_of w ssl = Some l \<and>
         send_through call w l mem len = bio_write_cb (call s p) mem len \<and>
         recv_through call' create w l len = Inr (bio_read_cb (call' r p) create len)" for ssl
  proof (cases "fold spec_step ops Map.empty ssl")
    case None
    then show ?thesis using abs_bio_locations(1) [OF ok, of ssl] w by simp
  next
    case (Some v)
    with abs_bio_locations(2) [OF ok, of ssl v] w obtain l where "bio_of w ssl = Some l" "roots w l = Some v" by auto
    moreover from three [OF Some] obtain p s r where "v = [p, s, r]" by auto
    ultimately show ?thesis using Some
      by (auto simp: send_through_def recv_through_def vctx_field_def)
  qed
  with run show ?thesis by blast
qed

text \<open>Every setting registers a root, and none is ever removed: what the transports refer to stays in
  memory when the connections are long gone.\<close>

lemma transport_roots_leak:
  fixes ops :: "'v bio_op list"
  shows "\<exists>w. bio_run ops no_bios = Inr (Inr (), w) \<and> card (dom (roots w)) = length (filter is_set_bio ops)"
proof -
  have ok: "bio_ok (no_bios :: 'v transport)" "next_location (no_bios :: 'v transport) = 0" by (simp_all add: bio_ok_def no_bios_def)
  from bio_run_simulates [OF ok(1), of ops] ok(2) obtain w where
    "bio_run ops no_bios = Inr (Inr (), w)" "bio_ok w" "next_location w = length (filter is_set_bio ops)" by auto
  then show ?thesis by (auto simp: bio_ok_def)
qed

end
