(* ===== verification/Spec2Isabelle.thy ===== *)
theory Spec2Isabelle
  imports ObjSize ProcQuote ProcessState WinState PcreStubs PcreQuery PcreCompile PcreEntry XmlRoundTrip
    ExtcPath ExtcSys ZlibState ZipIn MbedCert MbedState MbedSsl MbedBio
begin

text \<open>
  \<^bold>\<open>The C and C++ code of the Haxe compiler.\<close> The compiler is written in OCaml. Its C code are the
  stubs behind the OCaml libraries under src/libs (objsize, extc, pcre2, mbedtls); its C++ code is the
  XML parser of the standard library for the C++ target (src/std/cpp/NativeXmlImport.cpp). This
  development models that code and proves what it does, and where it does not do what it should.

  \<^bold>\<open>How the parts interact.\<close> The stubs are called from OCaml one at a time. They share no state with
  each other; each library keeps its own: objsize a colour buffer and the headers of the OCaml heap,
  the process stubs the descriptors and children of the operating system, pcre2, zlib and mbedtls the
  memory of the C library behind custom blocks with finalisers. The components meet where OCaml code
  calls several stubs in turn: a run of \<open>zip\<close> and \<open>unzip\<close>, a channel that compresses, a sequence of
  operations on handles.

  \<^bold>\<open>Common ground.\<close> Theory Prelude: \<open>c_fault\<close> is what C must not do (\<open>Undef\<close>: out of bounds, use after
  free, null pointers; \<open>Abort\<close>: a failed ASSERT; \<open>Fuel\<close>: a bound of the model, which the theorems show
  to be enough). Pure code returns a sum; a stub that works on a state is a \<open>prim\<close>, which has a fault,
  or raises an OCaml exception or returns, in the state it leaves. The locales \<open>writer\<close>, \<open>reader\<close> and
  \<open>channel\<close> are the interface of a stream that is written, turned and read; \<open>preserved\<close> and \<open>finalised\<close>
  are that of a state machine with an invariant and with finalisers. Integers of C are words or
  ints reduced by \<open>s32\<close> where the width matters.

  \<^bold>\<open>objsize\<close> (src/libs/objsize). Bitarray: alloc.h and bitarray.h, bit arrays in checked memory.
  ColorStream: the bit stream of c_objsize.c. Rle: the run-length coder on top of it; both interpret
  the locale \<open>channel\<close>. ObjHeap: headers, colours and fields of the OCaml heap. Dfs: depth-first search
  as a recursion with a visited set. ObjWalk: \<open>c_rec_objsize\<close> and \<open>restore_colors\<close> as instances of it.
  ObjSize: \<open>c_objsize\<close> and \<open>ml_objsize\<close>. Shown: the coder delivers every sequence of colours; measuring
  restores every header and counts exactly the reachable blocks. The recursion has one unit of fuel per
  block of the heap and one more, which the depth never exceeds since every call colours a block.

  \<^bold>\<open>Processes\<close> (src/libs/extc/process_stubs.c). ProcBuffer: the chunked string buffer, refining a list
  of characters. ProcQuote: the command line for Windows, with a parser of such lines as its
  specification. Posix: system calls on a table of descriptors, with failures and interrupts as part
  of the world. Process: the stubs. ProcessState: all reachable states of any sequence of stubs, and
  the properties of single operations. WinProcess: the same primitives on Windows, on a table of
  handles whose values the system chooses (\<open>room\<close> is what it promises); shown is how a started process
  is connected, what a start followed by a close leaves, what is left behind when the program is not
  found, and what happens to a handle value that is used again. WinState: who owns which handle over any
  sequence of primitives.

  \<^bold>\<open>PCRE2\<close> (src/libs/pcre2/pcre2_stubs.c). PcreData: vectors, exceptions, resources. PcreStubs: a match
  with and without callouts, on an arbitrary engine. PcreQuery: questions about patterns and library.
  PcreCompile: patterns and tables with their finalisers as a step relation. PcreEntry: the
  registration of the exceptions and the entry points of bytecode programs.

  \<^bold>\<open>XML\<close> (src/std/cpp/NativeXmlImport.cpp). XmlParse: the state machine, one definition per case of the
  switch, the loop as a partial function on an explicit memory that ends with a zero; the builder is
  the list of its calls. XmlSafe: a rank for termination and an invariant for memory; the parser returns
  for every text. XmlMarkup: documents, how they are printed and what events they stand for, and how the
  machine reads each piece. XmlRoundTrip: whole documents, closing tags, errors.

  \<^bold>\<open>extc\<close> (src/libs/extc/extc_stubs.c). ExtcPath: paths; the rewriting of a path in its buffer equals a
  reference on strings. ExtcSys: one key, file times and the clock. ExtcZlib: the zlib stubs on a heap of streams.
  ZlibState: who owns which stream, over any sequence of operations. ZlibOp: \<open>zlib_op\<close>, \<open>zip\<close> and
  \<open>unzip\<close> of extc.ml on the stubs; the locale \<open>streaming\<close> is what the loop needs of an operation, and is
  interpreted on \<open>zlib_deflate\<close> and \<open>zlib_inflate\<close>. ZipOut and ZipIn: the channels of \<open>output_zip\<close> and
  \<open>input_zip\<close>, with the locales \<open>pushing\<close> and \<open>pulling\<close> for what they need of the stubs; shown are the round
  trip of a text through both channels and where reading the end of a text or bytes behind it goes wrong.
  What zlib promises are the predicates \<open>deflates\<close> and \<open>inflates\<close>, and \<open>deflates_rest\<close>, \<open>takes_full\<close> and
  \<open>inflates_pieces\<close> for the channels, all satisfied by a small codec. The loops are partial functions
  without fuel: that they return is proved by a measure, and that they do not in two cases by their
  induction rules. Only the client \<open>read_fully\<close>, which is not code of the repository, has a bound.

  \<^bold>\<open>mbedtls\<close> (src/libs/mbedtls/mbedtls_stubs.c). MbedCert: names, dates and default certificates, the
  check by Windows with the resources it holds, tables of constants. MbedState: contexts behind custom
  blocks as a step relation. MbedSsl: returned values as machine words, data transfer, callbacks,
  certificate chains. MbedBio: the transports of connections and the roots they leave, refining a map
  from connections to transports.

  \<^bold>\<open>Bounds.\<close> Arrays, buffers and strings are lists whose every access is checked. Sizes that the code
  cannot reach (strings of 2 GB and more in the zlib and mbedtls stubs, buffers of 2^30 characters) are
  hypotheses, or the subject of a lemma that shows what goes wrong. \<open>usable\<close> in MbedState follows links
  to depth 4, the longest there is.

  \<^bold>\<open>Not modelled.\<close> The OCaml code of the compiler and the Haxe code of the standard library. The C
  libraries zlib, PCRE2 and mbedtls, the C runtime of OCaml and the systems: parameters, with their
  documented behaviour as hypotheses where needed. The rounding of doubles in \<open>sys_time\<close> and
  \<open>sys_filetime\<close>, whose quotients are exact here; the channels behind \<open>input_zip\<close> and \<open>output_zip\<close>, which are
  the list of their answers and the bytes they got; tables of custom operations, the bytecode entry points of zlib and \<open>debug\<close>, which hold no
  logic. Memory that runs out is modelled where the code handles it.
\<close>

section \<open>Finalisers of all libraries\<close>



end
